(* ===== verification/Prelude.thy ===== *)
theory Prelude
  imports Main "HOL-Library.Word" "HOL-Library.Multiset"
begin

text \<open>
  What the components share: the pieces of the C++ standard library the code leans on.

  A \<open>std::string\<close> is a HOL \<open>string\<close> (a list of 8-bit characters, so \<open>length\<close> is \<open>size()\<close>).
  \<open>str_at\<close> is \<open>operator[]\<close>: in range the character, at \<open>size()\<close> the terminating NUL, and past
  that undefined behaviour, which the model makes visible as \<^term>\<open>None\<close>.  Index loops of the source
  (\<open>while (i < n && P(s[i])) ++i\<close> and its unguarded variants) are \<open>scan_while\<close>, \<open>scan_to\<close> and
  \<open>scan_back\<close>.  A \<open>std::stringstream\<close> that is written with \<open><<\<close>, read with \<open>>>\<close> and then
  \<open>clear()\<close>ed is the list of its unread characters: \<open>clear()\<close> resets the error flags only, so what a
  failed extraction leaves behind is still there for the next one.
\<close>

named_theorems cpp_simps \<open>evaluation of the modelled C++ library operations\<close>
named_theorems codes \<open>character codes\<close>

section \<open>Characters\<close>

definition code :: "char \<Rightarrow> nat" where
  "code c = of_char c"

text \<open>A plain \<open>char\<close> is signed on the target: bytes from 128 on are negative.\<close>

definition schar :: "char \<Rightarrow> int" where
  "schar c = (if code c < 128 then int (code c) else int (code c) - 256)"

definition char_between :: "char \<Rightarrow> char \<Rightarrow> char \<Rightarrow> bool" where
  "char_between lo hi c \<longleftrightarrow> schar lo \<le> schar c \<and> schar c \<le> schar hi"

abbreviation NUL :: char where "NUL \<equiv> CHR 0x00"
abbreviation TAB :: char where "TAB \<equiv> CHR 0x09"
abbreviation NL :: char where "NL \<equiv> CHR 0x0A"
abbreviation CR :: char where "CR \<equiv> CHR 0x0D"
abbreviation SQUOTE :: char where "SQUOTE \<equiv> CHR 0x27"

lemma code_lt: "code c < 256"
  by (simp add: code_def)

lemma code_inj: "code c = code d \<longleftrightarrow> c = d"
  by (simp add: code_def)

lemma schar_inj: "schar c = schar d \<longleftrightarrow> c = d"
proof -
  have "0 \<le> int (code c)" "int (code c) < 256" "0 \<le> int (code d)" "int (code d) < 256"
    using code_lt [of c] code_lt [of d] by linarith+
  then have "schar c = schar d \<Longrightarrow> code c = code d"
    by (simp add: schar_def split: if_splits)
  then show ?thesis by (auto simp: code_inj)
qed

lemma char_of_code [simp]: "char_of (code c) = c"
  by (simp add: code_def)

lemma char_of_int_code [simp]: "char_of (int (code c)) = c"
proof -
  have "int (code c) = of_char c"
    unfolding code_def by (rule of_nat_of_char)
  then show ?thesis by simp
qed

lemma code_char_of [simp]: "n < 256 \<Longrightarrow> code (char_of n) = n"
  by (simp add: code_def)

lemma char_of_int_nat [simp]: "char_of (int n) = char_of n"
  by (simp add: char_of_def bit_of_nat_iff_bit)

lemma code_char_of_int [simp]: "0 \<le> i \<Longrightarrow> i < 256 \<Longrightarrow> code (char_of i) = nat i"
  using char_of_int_nat [of "nat i"] code_char_of [of "nat i"] by simp

lemma code_eqD: "code c = n \<Longrightarrow> c = char_of n"
  by auto

definition is_digit :: "char \<Rightarrow> bool" where
  "is_digit c \<longleftrightarrow> char_between CHR ''0'' CHR ''9'' c"

lemma code_num [codes]:
  "code CHR ''0'' = 48" "code CHR ''1'' = 49" "code CHR ''9'' = 57" "code CHR ''a'' = 97" "code CHR ''z'' = 122"
  "code CHR ''A'' = 65" "code CHR ''Z'' = 90" "code CHR ''f'' = 102" "code CHR ''F'' = 70"
  "code CHR '' '' = 32" "code CHR ''-'' = 45" "code CHR ''+'' = 43"
  "code CHR ''|'' = 124" "code CHR ''_'' = 95" "code CHR ''#'' = 35" "code CHR ''%'' = 37"
  "code CHR ''/'' = 47" "code CHR ''.'' = 46" "code SQUOTE = 39"
  "code NUL = 0" "code TAB = 9" "code NL = 10" "code CR = 13"
  by (simp_all add: code_def)

lemma schar_num [codes]:
  "schar CHR ''0'' = 48" "schar CHR ''9'' = 57" "schar CHR ''a'' = 97" "schar CHR ''z'' = 122"
  "schar CHR ''A'' = 65" "schar CHR ''Z'' = 90" "schar CHR ''f'' = 102" "schar CHR ''F'' = 70"
  by (simp_all add: schar_def codes)

lemma char_between_code:
  assumes "code hi < 128"
  shows "char_between lo hi c \<longleftrightarrow> code lo < 128 \<and> code lo \<le> code c \<and> code c \<le> code hi \<or>
    128 \<le> code lo \<and> (code lo \<le> code c \<or> code c \<le> code hi)"
proof -
  have "int (code c) < 256" "int (code lo) < 256"
    using code_lt [of c] code_lt [of lo] by linarith+
  with assms show ?thesis by (auto simp: char_between_def schar_def)
qed

lemma is_digit_code: "is_digit c \<longleftrightarrow> 48 \<le> code c \<and> code c \<le> 57"
  by (auto simp: is_digit_def char_between_code codes)

lemma int_length_pred [simp]: "xs \<noteq> [] \<Longrightarrow> int (length xs - Suc 0) = int (length xs) - 1"
  by (cases xs) simp_all

section \<open>Strings\<close>

definition str_at :: "string \<Rightarrow> nat \<Rightarrow> char option" where
  "str_at s i = (if i < length s then Some (s ! i) else if i = length s then Some NUL else None)"

definition substr :: "string \<Rightarrow> nat \<Rightarrow> nat \<Rightarrow> string" where
  "substr s pos n = take n (drop pos s)"

lemma substr_append_right: "substr (xs @ ys) (length xs) n = take n ys"
  by (simp add: substr_def)

lemma substr_append_left: "substr (xs @ ys) 0 (length xs) = xs"
  by (simp add: substr_def)

lemma substr_middle: "substr (xs @ ys @ zs) (length xs) (length ys) = ys"
  by (simp add: substr_def)

text \<open>\<open>while (i < s.size() && P(s[i])) ++i;\<close>\<close>

function scan_while :: "(char \<Rightarrow> bool) \<Rightarrow> string \<Rightarrow> nat \<Rightarrow> nat" where
  "scan_while P s i = (if i < length s \<and> P (s ! i) then scan_while P s (Suc i) else i)"
  by pat_completeness auto
termination
  by (relation "measure (\<lambda>(P, s, i). length s - i)") auto

declare scan_while.simps [simp del]

lemma scan_while_takeWhile: "scan_while P s i = i + length (takeWhile P (drop i s))"
proof (induction P s i rule: scan_while.induct)
  case (1 P s i)
  show ?case
  proof (cases "i < length s \<and> P (s ! i)")
    case True
    then have "drop i s = s ! i # drop (Suc i) s"
      by (simp add: Cons_nth_drop_Suc)
    with True 1 show ?thesis
      by (simp add: scan_while.simps [of P s i])
  next
    case False
    then have "takeWhile P (drop i s) = []"
      by (cases "i < length s") (auto simp: Cons_nth_drop_Suc [symmetric])
    with False show ?thesis
      by (simp only: scan_while.simps [of P s i] if_False) simp
  qed
qed

lemma scan_while_append:
  "\<forall>c\<in>set ys. P c \<Longrightarrow> (zs = [] \<or> \<not> P (hd zs)) \<Longrightarrow> i = length xs \<Longrightarrow>
    scan_while P (xs @ ys @ zs) i = length xs + length ys"
  by (cases zs) (auto simp: scan_while_takeWhile takeWhile_append takeWhile_eq_all_conv [THEN iffD2])

lemma scan_while_ge: "i \<le> scan_while P s i"
  by (simp add: scan_while_takeWhile)

lemma scan_while_le: "i \<le> length s \<Longrightarrow> scan_while P s i \<le> length s"
  using length_takeWhile_le [of P "drop i s"] by (simp add: scan_while_takeWhile)

lemma substr_scan: "substr s i (scan_while P s i - i) = takeWhile P (drop i s)"
  by (simp add: substr_def scan_while_takeWhile) (metis append_eq_conv_conj takeWhile_dropWhile_id)

text \<open>
  \<open>while (s[i] != c) ++i;\<close> without a bound: when \<open>c\<close> does not occur the loop reads past the
  terminating NUL, which is undefined.
\<close>

function scan_to :: "char \<Rightarrow> string \<Rightarrow> nat \<Rightarrow> nat option" where
  "scan_to c s i = (case str_at s i of None \<Rightarrow> None
     | Some d \<Rightarrow> if d = c then Some i else scan_to c s (Suc i))"
  by pat_completeness auto
termination
  by (relation "measure (\<lambda>(c, s, i). Suc (length s) - i)")
     (auto simp: str_at_def split: if_splits)

declare scan_to.simps [simp del]

lemma scan_to_ge: "scan_to c s i = Some p \<Longrightarrow> i \<le> p \<and> p \<le> length s"
  by (induction c s i rule: scan_to.induct)
    (subst (asm) scan_to.simps, fastforce simp: str_at_def split: option.splits if_splits)

text \<open>\<open>while (s[i] != c) --i;\<close> with a signed \<open>i\<close>: running below 0 is undefined.\<close>

fun scan_back :: "char \<Rightarrow> string \<Rightarrow> nat \<Rightarrow> nat option" where
  "scan_back c s 0 = (if str_at s 0 = Some c then Some 0 else None)"
| "scan_back c s (Suc i) = (if str_at s (Suc i) = Some c then Some (Suc i) else scan_back c s i)"

lemma str_at_append [simp]: "str_at (xs @ y # ys) (length xs) = Some y"
  by (simp add: str_at_def nth_append)

lemma scan_to_append:
  "c \<notin> set ys \<Longrightarrow> i = length xs \<Longrightarrow> scan_to c (xs @ ys @ c # zs) i = Some (length xs + length ys)"
proof (induction ys arbitrary: xs i)
  case Nil
  then show ?case by (simp add: scan_to.simps)
next
  case (Cons y ys)
  then have "scan_to c ((xs @ [y]) @ ys @ c # zs) (Suc (length xs)) =
      Some (length (xs @ [y]) + length ys)"
    by (intro Cons.IH) auto
  moreover have "str_at (xs @ (y # ys) @ c # zs) (length xs) = Some y"
    by (simp add: str_at_def nth_append)
  ultimately show ?case
    using Cons.prems by (subst scan_to.simps) auto
qed

lemma scan_back_append:
  "c \<notin> set ys \<Longrightarrow> i = length xs + length ys \<Longrightarrow>
    scan_back c (xs @ c # ys @ zs) i = Some (length xs)"
proof (induction ys arbitrary: i zs rule: rev_induct)
  case Nil
  then have "i = length xs" by simp
  then show ?case
    using str_at_append [of xs c zs] by (cases "length xs") simp_all
next
  case (snoc y ys)
  from snoc.prems have i: "i = Suc (length xs + length ys)" by simp
  have "scan_back c (xs @ c # ys @ y # zs) (length xs + length ys) = Some (length xs)"
    using snoc.IH [of "length xs + length ys" "y # zs"] snoc.prems by simp
  moreover have "str_at (xs @ c # ys @ y # zs) (Suc (length xs + length ys)) = Some y"
    using str_at_append [of "xs @ c # ys" y zs] by simp
  ultimately show ?case
    using snoc.prems i by auto
qed

text \<open>\<open>s.find(pat)\<close>: the first position where \<open>pat\<close> starts, or \<open>npos\<close>.\<close>

fun is_prefix :: "string \<Rightarrow> string \<Rightarrow> bool" where
  "is_prefix [] s = True"
| "is_prefix (p # ps) [] = False"
| "is_prefix (p # ps) (c # cs) = (p = c \<and> is_prefix ps cs)"

fun str_find :: "string \<Rightarrow> string \<Rightarrow> nat option" where
  "str_find pat [] = (if pat = [] then Some 0 else None)"
| "str_find pat (c # cs) =
     (if is_prefix pat (c # cs) then Some 0 else map_option Suc (str_find pat cs))"

lemma is_prefix_iff: "is_prefix p s \<longleftrightarrow> (\<exists>t. s = p @ t)"
  by (induction p s rule: is_prefix.induct) auto

lemma str_find_Some: "str_find pat s = Some i \<Longrightarrow> \<exists>u v. s = u @ pat @ v \<and> length u = i"
proof (induction s arbitrary: i)
  case Nil
  then show ?case by (auto split: if_splits)
next
  case (Cons c cs)
  show ?case
  proof (cases "is_prefix pat (c # cs)")
    case True
    with Cons.prems show ?thesis by (auto simp: is_prefix_iff)
  next
    case False
    with Cons.prems obtain k where "str_find pat cs = Some k" "i = Suc k" by auto
    with Cons.IH obtain u v where "cs = u @ pat @ v" "length u = k" by blast
    with \<open>i = Suc k\<close> have "c # cs = (c # u) @ pat @ v \<and> length (c # u) = i" by simp
    then show ?thesis by blast
  qed
qed

lemma str_find_None: "str_find pat s = None \<Longrightarrow> s \<noteq> u @ pat @ v"
proof (induction s arbitrary: u)
  case Nil
  then show ?case by (auto split: if_splits)
next
  case (Cons c cs)
  from Cons.prems have np: "\<not> is_prefix pat (c # cs)" and nf: "str_find pat cs = None"
    by (auto split: if_splits)
  show ?case
  proof (cases u)
    case Nil
    with np show ?thesis by (auto simp: is_prefix_iff)
  next
    case (Cons d ds)
    then show ?thesis using Cons.IH [OF nf, of ds] by auto
  qed
qed

section \<open>Decimal numerals\<close>

text \<open>What \<open>ss << n\<close> prints for a non-negative \<open>n\<close>, and the value of a run of digits.\<close>

fun nat_str :: "nat \<Rightarrow> string" where
  "nat_str n = (if n < 10 then [char_of (48 + n)] else nat_str (n div 10) @ [char_of (48 + n mod 10)])"

declare nat_str.simps [simp del]

definition int_str :: "int \<Rightarrow> string" where
  "int_str i = (if i < 0 then CHR ''-'' # nat_str (nat (- i)) else nat_str (nat i))"

definition digits_val :: "string \<Rightarrow> nat" where
  "digits_val ds = foldl (\<lambda>n c. 10 * n + (code c - 48)) 0 ds"

lemma digits_val_Nil [simp]: "digits_val [] = 0"
  by (simp add: digits_val_def)

lemma digits_val_snoc [simp]: "digits_val (ds @ [c]) = 10 * digits_val ds + (code c - 48)"
  by (simp add: digits_val_def)

lemma digits_val_nat_str [simp]: "digits_val (nat_str n) = n"
proof (induction n rule: nat_str.induct)
  case (1 n)
  show ?case
  proof (cases "n < 10")
    case True
    then show ?thesis
      using digits_val_snoc [of "[]" "char_of (48 + n)"] by (simp add: nat_str.simps [of n])
  next
    case False
    have "n mod 10 < 10" by simp
    then have "48 + n mod 10 < 256" by linarith
    with False 1 show ?thesis by (simp add: nat_str.simps [of n])
  qed
qed

lemma nat_str_digits: "c \<in> set (nat_str n) \<Longrightarrow> is_digit c"
proof (induction n rule: nat_str.induct)
  case (1 n)
  have d: "is_digit (char_of (48 + k))" if "k < 10" for k :: nat
    using that by (simp add: is_digit_code)
  show ?case
    using 1 d [of n] d [of "n mod 10"]
    by (cases "n < 10") (auto simp: nat_str.simps [of n])
qed

lemma nat_str_nonempty [simp]: "nat_str n \<noteq> []" "[] \<noteq> nat_str n"
  by (simp_all add: nat_str.simps [of n])

lemma nat_str_inj [simp]: "nat_str m = nat_str n \<longleftrightarrow> m = n"
  by (metis digits_val_nat_str)

lemma nat_str_not_in:
  "\<not> is_digit c \<Longrightarrow> c \<notin> set (nat_str n)"
  using nat_str_digits by blast

lemma not_digit_sep [simp]:
  "\<not> is_digit CHR ''|''" "\<not> is_digit CHR ''_''" "\<not> is_digit CHR ''-''" "\<not> is_digit CHR ''+''"
  "\<not> is_digit CHR '' ''" "\<not> is_digit SQUOTE"
  by (simp_all add: is_digit_code codes)

lemma nat_str_sep [simp]:
  "CHR ''|'' \<notin> set (nat_str n)" "CHR ''_'' \<notin> set (nat_str n)" "SQUOTE \<notin> set (nat_str n)"
  by (simp_all add: nat_str_not_in)

lemma nat_str_length_less: "n < 10 ^ k \<Longrightarrow> 0 < k \<Longrightarrow> length (nat_str n) \<le> k"
proof (induction n arbitrary: k rule: nat_str.induct)
  case (1 n)
  show ?case
  proof (cases "n < 10")
    case True
    with 1 show ?thesis by (simp add: nat_str.simps [of n])
  next
    case False
    then obtain k' where k: "k = Suc k'" "0 < k'"
      using "1.prems" by (cases k; cases "k - 1") auto
    then have "n div 10 < 10 ^ k'"
      using "1.prems" by (simp add: less_mult_imp_div_less mult.commute)
    with 1 False k show ?thesis by (simp add: nat_str.simps [of n])
  qed
qed

text \<open>A canonical numeral starts with a digit other than 0, unless the number is 0.\<close>

lemma nat_str_hd: "0 < n \<Longrightarrow> hd (nat_str n) \<noteq> CHR ''0''"
proof (induction n rule: nat_str.induct)
  case (1 n)
  show ?case
  proof (cases "n < 10")
    case True
    then have "code (char_of (48 + n)) = 48 + n" by simp
    then have "char_of (48 + n) \<noteq> CHR ''0''"
      using "1.prems" code_num(1) by force
    with True show ?thesis by (simp add: nat_str.simps [of n])
  next
    case False
    with 1 have "hd (nat_str (n div 10)) \<noteq> CHR ''0''" by simp
    with False show ?thesis by (simp add: nat_str.simps [of n])
  qed
qed

lemma nat_str_first: "0 < n \<Longrightarrow> char_between CHR ''1'' CHR ''9'' (hd (nat_str n))"
proof -
  assume n: "0 < n"
  have "is_digit (hd (nat_str n))" by (rule nat_str_digits [of _ n], rule hd_in_set) simp
  moreover have "code (hd (nat_str n)) \<noteq> code CHR ''0''" using nat_str_hd [OF n] by (simp add: code_inj)
  ultimately show ?thesis by (simp add: is_digit_code char_between_code codes)
qed

section \<open>stringstream\<close>

type_synonym sstream = string

definition is_space :: "char \<Rightarrow> bool" where
  "is_space c \<longleftrightarrow> c = CHR '' '' \<or> 9 \<le> code c \<and> code c \<le> 13"

definition ss_put :: "sstream \<Rightarrow> string \<Rightarrow> sstream" where
  "ss_put ss s = ss @ s"

text \<open>
  \<open>ss >> n\<close> for an integer type with range \<open>lo..hi\<close>: leading white space is skipped; at the end of
  the stream the variable keeps its old value; otherwise an optional sign and the longest run of
  digits are consumed, no digit gives 0, and a value out of range gives the bound it passed.
\<close>

definition ss_sign :: "string \<Rightarrow> bool \<times> string" where
  "ss_sign b = (case b of [] \<Rightarrow> (False, [])
     | c # cs \<Rightarrow> if c = CHR ''-'' then (True, cs) else if c = CHR ''+'' then (False, cs) else (False, b))"

definition ss_get_int :: "int \<Rightarrow> int \<Rightarrow> sstream \<Rightarrow> int \<Rightarrow> int \<times> sstream" where
  "ss_get_int lo hi ss old =
     (let b = dropWhile is_space ss in
      if b = [] then (old, [])
      else let (neg, b1) = ss_sign b; ds = takeWhile is_digit b1; r = dropWhile is_digit b1 in
        if ds = [] then (0, r)
        else let v = (if neg then - int (digits_val ds) else int (digits_val ds)) in
          (if v < lo then lo else if hi < v then hi else v, r))"

text \<open>The unsigned extraction of \<open>w\<close> bits accepts a sign and negates modulo \<open>2 ^ w\<close>.\<close>

definition ss_get_uint :: "nat \<Rightarrow> sstream \<Rightarrow> nat \<Rightarrow> nat \<times> sstream" where
  "ss_get_uint w ss old =
     (let b = dropWhile is_space ss in
      if b = [] then (old, [])
      else let (neg, b1) = ss_sign b; ds = takeWhile is_digit b1; r = dropWhile is_digit b1;
               v = digits_val ds in
        if ds = [] then (0, r)
        else (if 2 ^ w \<le> v then 2 ^ w - 1 else if neg then (2 ^ w - v) mod 2 ^ w else v, r))"

text \<open>\<open>ss >> s\<close> for a string: the next word, or the old value at the end of the stream.\<close>

definition ss_get_word :: "sstream \<Rightarrow> string \<Rightarrow> string \<times> sstream" where
  "ss_get_word ss old =
     (let b = dropWhile is_space ss in
      if b = [] then (old, []) else (takeWhile (\<lambda>c. \<not> is_space c) b, dropWhile (\<lambda>c. \<not> is_space c) b))"

text \<open>\<open>atoi\<close>, for values that fit an \<open>int\<close>.\<close>

definition atoi :: "string \<Rightarrow> int" where
  "atoi s = (case ss_sign (dropWhile is_space s) of
     (neg, t) \<Rightarrow> let v = int (digits_val (takeWhile is_digit t)) in if neg then - v else v)"

abbreviation short_min :: int where "short_min \<equiv> - 32768"
abbreviation short_max :: int where "short_max \<equiv> 32767"
abbreviation int_min :: int where "int_min \<equiv> - 2147483648"
abbreviation int_max :: int where "int_max \<equiv> 2147483647"

lemma digit_not_space: "is_digit c \<Longrightarrow> \<not> is_space c"
  by (auto simp: is_digit_code is_space_def codes)

lemma nat_str_ConsE:
  obtains c cs where "nat_str n = c # cs" "is_digit c"
proof (cases "nat_str n")
  case (Cons c cs)
  then have "is_digit c" using nat_str_digits [of c n] by simp
  with Cons that show ?thesis by blast
qed simp

lemma ss_skip_nat_str [simp]: "dropWhile is_space (nat_str n @ s) = nat_str n @ s"
  by (rule nat_str_ConsE [of n]) (simp add: digit_not_space)

lemma ss_sign_nat_str [simp]: "ss_sign (nat_str n @ s) = (False, nat_str n @ s)"
proof (rule nat_str_ConsE [of n])
  fix c cs assume "nat_str n = c # cs" "is_digit c"
  moreover from this have "c \<noteq> CHR ''-''" "c \<noteq> CHR ''+''" by auto
  ultimately show ?thesis by (simp add: ss_sign_def)
qed

lemma takeWhile_digits [simp]: "takeWhile is_digit (nat_str n @ s) = nat_str n @ takeWhile is_digit s"
  by (rule takeWhile_append2) (rule nat_str_digits)

lemma dropWhile_digits [simp]: "dropWhile is_digit (nat_str n @ s) = dropWhile is_digit s"
  by (rule dropWhile_append2) (rule nat_str_digits)

lemmas ss_skip_nat_str' [simp] = ss_skip_nat_str [of _ "[]", simplified append_Nil2]
lemmas ss_sign_nat_str' [simp] = ss_sign_nat_str [of _ "[]", simplified append_Nil2]
lemmas takeWhile_digits' [simp] = takeWhile_digits [of _ "[]", simplified append_Nil2]
lemmas dropWhile_digits' [simp] = dropWhile_digits [of _ "[]", simplified append_Nil2]

lemma ss_get_int_nat_str:
  "int n \<le> hi \<Longrightarrow> lo \<le> int n \<Longrightarrow> ss_get_int lo hi (nat_str n) old = (int n, [])"
  by (simp add: ss_get_int_def Let_def)

lemma ss_get_uint_nat_str:
  "n < 2 ^ w \<Longrightarrow> ss_get_uint w (nat_str n) old = (n, [])"
  by (simp add: ss_get_uint_def Let_def)

lemma ss_get_word_nat_str: "ss_get_word (nat_str n) old = (nat_str n, [])"
proof -
  have "takeWhile (\<lambda>c. \<not> is_space c) (nat_str n) = nat_str n"
    "dropWhile (\<lambda>c. \<not> is_space c) (nat_str n) = []"
    by (auto simp: takeWhile_eq_all_conv dropWhile_eq_Nil_conv
          dest!: nat_str_digits dest: digit_not_space)
  then show ?thesis by (simp add: ss_get_word_def Let_def)
qed

lemma ss_get_int_range: "lo \<le> hi \<Longrightarrow> lo \<le> 0 \<Longrightarrow> 0 \<le> hi \<Longrightarrow> lo \<le> old \<Longrightarrow> old \<le> hi \<Longrightarrow>
    lo \<le> fst (ss_get_int lo hi ss old) \<and> fst (ss_get_int lo hi ss old) \<le> hi"
  by (simp add: ss_get_int_def Let_def split: prod.split)

text \<open>
  Once the next unread character can start no number, every later extraction fails with 0 and
  leaves the stream where it is, whatever is written behind it.
\<close>

definition ss_stuck :: "sstream \<Rightarrow> bool" where
  "ss_stuck ss \<longleftrightarrow> (\<exists>c cs. ss = c # cs \<and> \<not> is_space c \<and> \<not> is_digit c \<and> c \<noteq> CHR ''-'' \<and> c \<noteq> CHR ''+'')"

lemma ss_stuck_put: "ss_stuck ss \<Longrightarrow> ss_stuck (ss_put ss s)"
  by (auto simp: ss_stuck_def ss_put_def)

lemma ss_stuck_get_int: "ss_stuck ss \<Longrightarrow> ss_get_int lo hi ss old = (0, ss)"
  by (auto simp: ss_stuck_def ss_get_int_def ss_sign_def Let_def)

lemma atoi_int_str [simp]: "atoi (int_str i) = i"
proof (cases "i < 0")
  case True
  have "\<not> is_space CHR ''-''" by (simp add: is_space_def codes)
  then show ?thesis using True by (simp add: atoi_def int_str_def ss_sign_def)
qed (simp add: atoi_def int_str_def)

end
