(* ===== verification/IniConf.thy ===== *)
theory IniConf
  imports Prelude
begin

text \<open>
  Configuration: the \<open>IniParser\<close> class (\<open>src/utils/ini_parser.hpp\<close>) and \<open>DBInfo\<close>
  (\<open>src/db/db_info.hpp\<close>), which reads the connection parameters of the database pool out of it.  The
  attribute table, an \<open>unordered_map\<close> that is only looked up, is a map; the file system is the content
  of the file, \<^term>\<open>None\<close> when it cannot be opened.  \<open>DBInfo\<close> converts all numbers through one
  \<open>stringstream\<close>, which the model threads through.
\<close>

section \<open>IniParser\<close>

record ini_parser =
  ini_context :: string
  ini_result :: "string \<rightharpoonup> string"

definition empty_parser :: ini_parser where
  "empty_parser = \<lparr>ini_context = [], ini_result = Map.empty\<rparr>"

definition blank :: "char \<Rightarrow> bool" where
  "blank c \<longleftrightarrow> c = CHR '' '' \<or> c = TAB"

text \<open>Cutting a text into lines; a last line without newline counts, an empty rest does not.\<close>

function split_lines :: "string \<Rightarrow> nat \<Rightarrow> string list" where
  "split_lines s i =
     (if i < length s
      then let j = scan_while (\<lambda>c. c \<noteq> NL) s i in substr s i (j - i) # split_lines s (Suc j)
      else [])"
  by pat_completeness auto
termination
  by (relation "measure (\<lambda>(s, i). length s - i)") (auto simp: scan_while_takeWhile)

declare split_lines.simps [simp del]

text \<open>The body of the loop of \<open>parse\<close>: one line to an attribute and its value.\<close>

definition parse_line :: "string \<Rightarrow> (string \<times> string) option" where
  "parse_line t =
     (let i = scan_while blank t 0;
          j = scan_while (\<lambda>c. \<not> blank c \<and> c \<noteq> CHR ''='') t i in
      if i = length t \<or> j = length t then None
      else let attr = substr t i (j - i); j = scan_while (\<lambda>c. c \<noteq> CHR ''='') t j in
        if j = length t then None
        else let j = scan_while blank t (Suc j); i = j; j = scan_while (\<lambda>c. \<not> blank c) t j in
          if i < length t then Some (attr, if i < j then substr t i (j - i) else []) else None)"

text \<open>\<open>result.insert(make_pair(attr, value))\<close>: an attribute that is there already stays.\<close>

definition ini_insert :: "(string \<rightharpoonup> string) \<Rightarrow> (string \<times> string) \<Rightarrow> (string \<rightharpoonup> string)" where
  "ini_insert m kv = (case m (fst kv) of None \<Rightarrow> m(fst kv \<mapsto> snd kv) | Some _ \<Rightarrow> m)"

fun parse_lines :: "(string \<rightharpoonup> string) \<Rightarrow> string list \<Rightarrow> (string \<rightharpoonup> string)" where
  "parse_lines m [] = m"
| "parse_lines m (t # ts) =
     (case parse_line t of None \<Rightarrow> parse_lines m ts | Some kv \<Rightarrow> parse_lines (ini_insert m kv) ts)"

definition ini_parse :: "ini_parser \<Rightarrow> string \<Rightarrow> ini_parser" where
  "ini_parse p s = p\<lparr>ini_result := parse_lines (ini_result p) (split_lines s 0)\<rparr>"

definition init_from_string :: "ini_parser \<Rightarrow> string \<Rightarrow> ini_parser" where
  "init_from_string p s = (let p = p\<lparr>ini_context := s\<rparr> in ini_parse p (ini_context p))"

text \<open>Reading a file drops empty lines and lines that start with a hash mark.\<close>

fun read_context :: "string list \<Rightarrow> string" where
  "read_context [] = []"
| "read_context (t # ts) =
     (if t \<noteq> [] \<and> t ! 0 \<noteq> CHR ''#'' then t @ [NL] @ read_context ts else read_context ts)"

definition init_from_file :: "ini_parser \<Rightarrow> string \<Rightarrow> (string \<Rightarrow> string option) \<Rightarrow> ini_parser" where
  "init_from_file p path open_file =
     (if path = [] then p
      else case open_file path of
        None \<Rightarrow> p
      | Some content \<Rightarrow>
          let p = p\<lparr>ini_context := read_context (split_lines content 0)\<rparr> in ini_parse p (ini_context p))"

text \<open>\<open>get_value\<close> goes through \<open>operator[]\<close>, which creates a missing attribute with an empty value.\<close>

definition get_value :: "ini_parser \<Rightarrow> string \<Rightarrow> string \<times> ini_parser" where
  "get_value p k = (case ini_result p k of
      Some v \<Rightarrow> (v, p)
    | None \<Rightarrow> ([], p\<lparr>ini_result := (ini_result p)(k \<mapsto> [])\<rparr>))"

section \<open>DBInfo\<close>

record db_info =
  MAX_CONN :: int
  MAX_IDLE :: int
  MIN_IDLE :: int
  SLEEP :: int
  HOST :: string
  USER :: string
  PASSWD :: string
  DB_NAME :: string
  UNIX_SOCKET :: string
  CLIENT_FLAG :: nat
  PORT :: nat

definition db_info_default :: db_info where
  "db_info_default = \<lparr>MAX_CONN = 100, MAX_IDLE = 30, MIN_IDLE = 3, SLEEP = 3, HOST = [], USER = [],
     PASSWD = [], DB_NAME = [], UNIX_SOCKET = [], CLIENT_FLAG = 0, PORT = 3306\<rparr>"

text \<open>\<open>if (result.find(key) != end) { ss << result[key]; ss >> v; ss.clear(); }\<close>\<close>

definition conf_int :: "(string \<rightharpoonup> string) \<Rightarrow> string \<Rightarrow> int \<Rightarrow> sstream \<Rightarrow> int \<times> sstream" where
  "conf_int res key old ss = (case res key of
      None \<Rightarrow> (old, ss) | Some s \<Rightarrow> ss_get_int int_min int_max (ss_put ss s) old)"

definition conf_uint :: "nat \<Rightarrow> (string \<rightharpoonup> string) \<Rightarrow> string \<Rightarrow> nat \<Rightarrow> sstream \<Rightarrow> nat \<times> sstream" where
  "conf_uint w res key old ss = (case res key of
      None \<Rightarrow> (old, ss) | Some s \<Rightarrow> ss_get_uint w (ss_put ss s) old)"

definition conf_str :: "(string \<rightharpoonup> string) \<Rightarrow> string \<Rightarrow> string \<Rightarrow> string" where
  "conf_str res key old = (case res key of None \<Rightarrow> old | Some s \<Rightarrow> s)"

definition read_db_info :: "(string \<rightharpoonup> string) \<Rightarrow> db_info \<Rightarrow> db_info" where
  "read_db_info res d =
     (let ss = [];
          (max_conn, ss) = conf_int res ''MAX_CONN'' (MAX_CONN d) ss;
          (max_idle, ss) = conf_int res ''MAX_IDLE'' (MAX_IDLE d) ss;
          (min_idle, ss) = conf_int res ''MIN_IDLE'' (MIN_IDLE d) ss;
          (slp, ss) = conf_int res ''SLEEP'' (SLEEP d) ss;
          (flag, ss) = conf_uint 64 res ''CLIENT_FLAG'' (CLIENT_FLAG d) ss;
          (port, ss) = conf_uint 32 res ''PORT'' (PORT d) ss
      in \<lparr>MAX_CONN = max_conn, MAX_IDLE = max_idle, MIN_IDLE = min_idle, SLEEP = slp,
          HOST = conf_str res ''HOST'' (HOST d), USER = conf_str res ''USER'' (USER d),
          PASSWD = conf_str res ''PASSWD'' (PASSWD d), DB_NAME = conf_str res ''DB_NAME'' (DB_NAME d),
          UNIX_SOCKET = conf_str res ''UNIX_SOCKET'' (UNIX_SOCKET d), CLIENT_FLAG = flag, PORT = port\<rparr>)"

text \<open>
  The corrections at the end; \<open>MIN_IDLE + 1\<close> overflows, which is undefined, if \<open>MIN_IDLE\<close> is the largest
  \<open>int\<close>.
\<close>

definition fix_db_info :: "db_info \<Rightarrow> db_info option" where
  "fix_db_info d =
     (let d = (if MIN_IDLE d < 1 then d\<lparr>MIN_IDLE := 1\<rparr> else d) in
      if MAX_IDLE d < MIN_IDLE d \<and> MIN_IDLE d = int_max then None
      else let d = (if MAX_IDLE d < MIN_IDLE d then d\<lparr>MAX_IDLE := MIN_IDLE d + 1\<rparr> else d);
               d = (if MAX_CONN d < 1 then d\<lparr>MAX_CONN := 1\<rparr> else d)
           in Some (if SLEEP d < 0 then d\<lparr>SLEEP := 3\<rparr> else d))"

definition set_db_conf_path :: "string \<Rightarrow> (string \<Rightarrow> string option) \<Rightarrow> db_info option" where
  "set_db_conf_path path open_file =
     fix_db_info (read_db_info (ini_result (init_from_file empty_parser path open_file)) db_info_default)"

section \<open>Lines\<close>

lemma scan_while_shift: "scan_while P (p @ s) (length p + i) = length p + scan_while P s i"
  by (simp add: scan_while_takeWhile)

lemma substr_shift: "substr (p @ s) (length p + i) n = substr s i n"
  by (simp add: substr_def)

lemma split_lines_shift: "split_lines (p @ s) (length p + i) = split_lines s i"
proof (induction s i rule: split_lines.induct)
  case (1 s i)
  show ?case
  proof (cases "i < length s")
    case True
    have "split_lines (p @ s) (Suc (length p + scan_while (\<lambda>c. c \<noteq> NL) s i)) =
        split_lines s (Suc (scan_while (\<lambda>c. c \<noteq> NL) s i))"
      using 1 True by simp
    with True show ?thesis
      by (simp add: split_lines.simps [of "p @ s" "length p + i"] split_lines.simps [of s i] Let_def
          scan_while_shift substr_shift)
  qed (simp add: split_lines.simps [of "p @ s" "length p + i"] split_lines.simps [of s i])
qed

lemma split_lines_Nil [simp]: "split_lines [] 0 = []"
  by (simp add: split_lines.simps)

lemma split_lines_Cons:
  assumes "NL \<notin> set l"
  shows "split_lines (l @ NL # r) 0 = l # split_lines r 0"
proof -
  have "scan_while (\<lambda>c. c \<noteq> NL) (l @ NL # r) 0 = length l"
    using scan_while_append [of l "\<lambda>c. c \<noteq> NL" "NL # r" 0 "[]"] assms by auto
  moreover have "split_lines (l @ NL # r) (Suc (length l)) = split_lines r 0"
    using split_lines_shift [of "l @ [NL]" r 0] by simp
  ultimately show ?thesis
    by (simp add: split_lines.simps [of "l @ NL # r" 0] substr_def)
qed

definition unlines :: "string list \<Rightarrow> string" where
  "unlines ls = concat (map (\<lambda>l. l @ [NL]) ls)"

lemma split_unlines: "\<forall>l\<in>set ls. NL \<notin> set l \<Longrightarrow> split_lines (unlines ls) 0 = ls"
  by (induction ls) (simp_all add: unlines_def split_lines_Cons)

lemma read_context_unlines:
  "read_context ls = unlines (filter (\<lambda>t. t \<noteq> [] \<and> t ! 0 \<noteq> CHR ''#'') ls)"
  by (induction ls) (simp_all add: unlines_def)

lemma ini_insert_upd: "map_of es ++ ini_insert m (k, v) = map_of ((k, v) # es) ++ m"
  by (auto simp: ini_insert_def map_add_def fun_eq_iff split: option.splits)

lemma parse_lines_map_of:
  "list_all2 (\<lambda>t kv. parse_line t = Some kv) ts es \<Longrightarrow> parse_lines m ts = map_of es ++ m"
  by (induction ts es arbitrary: m rule: list_all2_induct)
     (auto simp: ini_insert_upd [unfolded prod.collapse] split: prod.splits)

section \<open>A grammar of configuration files\<close>

datatype conf_line =
    Comment string
  | Empty_Line
  | Entry (indent: string) (attr: string) (pad1: string) (pad2: string) (val: string) (trail: string)

definition blanks :: "string \<Rightarrow> bool" where
  "blanks s \<longleftrightarrow> (\<forall>c\<in>set s. blank c)"

definition attr_ok :: "string \<Rightarrow> bool" where
  "attr_ok k \<longleftrightarrow> k \<noteq> [] \<and> hd k \<noteq> CHR ''#'' \<and> (\<forall>c\<in>set k. \<not> blank c \<and> c \<noteq> CHR ''='' \<and> c \<noteq> NL)"

definition value_ok :: "string \<Rightarrow> bool" where
  "value_ok v \<longleftrightarrow> v \<noteq> [] \<and> (\<forall>c\<in>set v. \<not> blank c \<and> c \<noteq> NL)"

fun render_line :: "conf_line \<Rightarrow> string" where
  "render_line (Comment c) = CHR ''#'' # c"
| "render_line Empty_Line = []"
| "render_line (Entry i k p q v t) = i @ k @ p @ CHR ''='' # q @ v @ t"

fun line_ok :: "conf_line \<Rightarrow> bool" where
  "line_ok (Comment c) = (NL \<notin> set c)"
| "line_ok Empty_Line = True"
| "line_ok (Entry i k p q v t) =
     (blanks i \<and> attr_ok k \<and> blanks p \<and> blanks q \<and> value_ok v \<and>
      NL \<notin> set t \<and> (t = [] \<or> blank (hd t)))"

fun entries :: "conf_line list \<Rightarrow> (string \<times> string) list" where
  "entries [] = []"
| "entries (Entry i k p q v t # ls) = (k, v) # entries ls"
| "entries (_ # ls) = entries ls"

lemma blank_not [simp]: "\<not> blank CHR ''=''" "\<not> blank CHR ''#''" "\<not> blank NL"
  by (simp_all add: blank_def)

lemma no_NL:
  "blanks s \<Longrightarrow> NL \<notin> set s" "attr_ok s \<Longrightarrow> NL \<notin> set s" "value_ok s \<Longrightarrow> NL \<notin> set s"
  unfolding blanks_def attr_ok_def value_ok_def using blank_not(3) by blast+

lemma blanks_not_eq: "blanks s \<Longrightarrow> \<forall>c\<in>set s. c \<noteq> CHR ''=''"
  unfolding blanks_def using blank_not(1) by blast

lemma attr_okD:
  "attr_ok k \<Longrightarrow> k \<noteq> []" "attr_ok k \<Longrightarrow> hd k \<noteq> CHR ''#''"
  "attr_ok k \<Longrightarrow> \<forall>c\<in>set k. \<not> blank c \<and> c \<noteq> CHR ''=''" "attr_ok k \<Longrightarrow> \<not> blank (hd k)"
  unfolding attr_ok_def using hd_in_set by blast+

lemma value_okD:
  "value_ok v \<Longrightarrow> v \<noteq> []" "value_ok v \<Longrightarrow> \<forall>c\<in>set v. \<not> blank c" "value_ok v \<Longrightarrow> \<not> blank (hd v)"
  unfolding value_ok_def using hd_in_set by blast+

lemma blanks_hd: "blanks p \<Longrightarrow> p \<noteq> [] \<Longrightarrow> blank (hd p)"
  by (simp add: blanks_def)

lemma parse_line_entry:
  assumes "line_ok (Entry i k p q v t)"
  shows "parse_line (render_line (Entry i k p q v t)) = Some (k, v)"
proof -
  let ?s = "i @ k @ p @ CHR ''='' # q @ v @ t"
  have i: "\<forall>c\<in>set i. blank c" and k: "attr_ok k" and p: "blanks p" and q: "\<forall>c\<in>set q. blank c"
    and v: "value_ok v" and t: "t = [] \<or> blank (hd t)"
    using assms by (simp_all add: blanks_def)
  have "scan_while blank ([] @ i @ k @ p @ CHR ''='' # q @ v @ t) 0 = length ([] :: string) + length i"
    using attr_okD [OF k] i by (intro scan_while_append) simp_all
  then have s1: "scan_while blank ?s 0 = length i" by simp
  have s2: "scan_while (\<lambda>c. \<not> blank c \<and> c \<noteq> CHR ''='') ?s (length i) = length i + length k"
    using attr_okD [OF k] blanks_hd [OF p] by (intro scan_while_append) (cases p; simp)+
  have "scan_while (\<lambda>c. c \<noteq> CHR ''='') ((i @ k) @ p @ CHR ''='' # q @ v @ t) (length i + length k) =
      length (i @ k) + length p"
    using blanks_not_eq [OF p] by (intro scan_while_append) simp_all
  then have s3: "scan_while (\<lambda>c. c \<noteq> CHR ''='') ?s (length i + length k) = length i + length k + length p"
    by simp
  have "scan_while blank ((i @ k @ p @ ''='') @ q @ v @ t) (Suc (length i + length k + length p)) =
      length (i @ k @ p @ ''='') + length q"
    using value_okD [OF v] q by (intro scan_while_append) simp_all
  then have s4: "scan_while blank ?s (Suc (length i + length k + length p)) =
      Suc (length i + length k + length p + length q)" by simp
  have "scan_while (\<lambda>c. \<not> blank c) ((i @ k @ p @ ''='' @ q) @ v @ t)
      (Suc (length i + length k + length p + length q)) = length (i @ k @ p @ ''='' @ q) + length v"
    using value_okD [OF v] t by (intro scan_while_append) auto
  then have s5: "scan_while (\<lambda>c. \<not> blank c) ?s (Suc (length i + length k + length p + length q)) =
      Suc (length i + length k + length p + length q + length v)" by simp
  have sk: "substr ?s (length i) (length k) = k"
    using substr_middle [of i k] by simp
  have sv: "substr ?s (Suc (length i + length k + length p + length q)) (length v) = v"
    using substr_middle [of "i @ k @ p @ ''='' @ q" v t] by (simp add: add.assoc)
  show ?thesis
    using attr_okD(1) [OF k] value_okD(1) [OF v]
    by (simp add: parse_line_def Let_def s1 s2 s3 s4 s5 sk sv)
qed

definition is_entry :: "conf_line \<Rightarrow> bool" where
  "is_entry l \<longleftrightarrow> (case l of Entry _ _ _ _ _ _ \<Rightarrow> True | _ \<Rightarrow> False)"

lemma render_kept:
  "line_ok l \<Longrightarrow> (render_line l \<noteq> [] \<and> render_line l ! 0 \<noteq> CHR ''#'') = is_entry l"
proof (cases l)
  case (Entry i k p q v t)
  assume "line_ok l"
  with Entry show ?thesis
    using attr_okD(1,2) [of k] by (cases i; cases k) (auto simp: is_entry_def blanks_def)
qed (simp_all add: is_entry_def)

lemma render_no_NL: "line_ok l \<Longrightarrow> NL \<notin> set (render_line l)"
  by (cases l) (simp_all add: no_NL)

lemma parse_entries:
  "\<forall>l\<in>set ls. line_ok l \<Longrightarrow>
    list_all2 (\<lambda>t kv. parse_line t = Some kv) (map render_line (filter is_entry ls)) (entries ls)"
proof (induction ls)
  case (Cons l ls)
  then show ?case
    by (cases l) (simp_all add: is_entry_def parse_line_entry del: render_line.simps line_ok.simps)
qed simp

text \<open>
  A configuration file is understood as it is written: for every file of comments, empty lines
  and entries \<open>attribute = value\<close> (blanks allowed in front of the attribute, around the equals sign,
  and anything behind a blank after the value), the parser ends with exactly the attributes of the
  entries, each with its value, and the first of several entries for one attribute counts.
\<close>

theorem init_from_file_reads:
  assumes "\<forall>l\<in>set ls. line_ok l" "path \<noteq> []"
    and "open_file path = Some (unlines (map render_line ls))"
  shows "ini_result (init_from_file empty_parser path open_file) = map_of (entries ls)"
proof -
  let ?ok = "\<lambda>t. t \<noteq> [] \<and> t ! 0 \<noteq> CHR ''#''"
  have "filter ?ok (map render_line ls) = map render_line (filter is_entry ls)"
    using assms(1) render_kept by (simp add: filter_map o_def cong: filter_cong)
  moreover have "split_lines (unlines (map render_line ls)) 0 = map render_line ls"
    using assms(1) by (intro split_unlines) (auto dest: render_no_NL)
  moreover have "split_lines (unlines (map render_line (filter is_entry ls))) 0 =
      map render_line (filter is_entry ls)"
    using assms(1) by (intro split_unlines) (auto dest: render_no_NL)
  ultimately show ?thesis
    using assms parse_lines_map_of [OF parse_entries [OF assms(1)], of Map.empty]
    by (simp add: init_from_file_def ini_parse_def empty_parser_def read_context_unlines Let_def)
qed

theorem init_from_file_reads_witness:
  "ini_result (init_from_file empty_parser ''db.ini''
     (\<lambda>p. Some (unlines [''# pool'', '' PORT = 33 x'', ''PORT=1'']))) ''PORT'' = Some ''33''"
proof -
  let ?ls = "[Comment '' pool'', Entry '' '' ''PORT'' '' '' '' '' ''33'' '' x'', Entry [] ''PORT'' [] [] ''1'' []]"
  have "\<forall>l\<in>set ?ls. line_ok l" by code_simp
  from init_from_file_reads [OF this, of "''db.ini''" "\<lambda>p. Some (unlines (map render_line ?ls))"]
  show ?thesis by simp
qed

section \<open>The connection parameters\<close>

lemma conf_int_num:
  "res key = Some (nat_str n) \<Longrightarrow> int n \<le> int_max \<Longrightarrow> conf_int res key old [] = (int n, [])"
  by (simp add: conf_int_def ss_put_def ss_get_int_nat_str)

lemma conf_uint_num:
  "res key = Some (nat_str n) \<Longrightarrow> n < 2 ^ w \<Longrightarrow> conf_uint w res key old [] = (n, [])"
  by (simp add: conf_uint_def ss_put_def ss_get_uint_nat_str)

lemma conf_int_stuck:
  "res key = Some s \<Longrightarrow> ss_stuck ss \<Longrightarrow> conf_int res key old ss = (0, ss @ s)"
  using ss_stuck_put [of ss s] by (simp add: conf_int_def ss_put_def ss_stuck_get_int)

lemma conf_uint_stuck:
  "res key = Some s \<Longrightarrow> ss_stuck ss \<Longrightarrow> conf_uint w res key old ss = (0, ss @ s)"
  by (auto simp: conf_uint_def ss_put_def ss_get_uint_def ss_stuck_def ss_sign_def Let_def)

lemma ss_stuck_append: "ss_stuck ss \<Longrightarrow> ss_stuck (ss @ s)"
  using ss_stuck_put by (simp add: ss_put_def)

lemma conf_int_range:
  "int_min \<le> old \<Longrightarrow> old \<le> int_max \<Longrightarrow> conf_int res key old ss = (v, ss') \<Longrightarrow>
    int_min \<le> v \<and> v \<le> int_max"
  using ss_get_int_range [of int_min int_max old]
  by (auto simp: conf_int_def split: option.splits) (metis fst_conv)+

lemma ss_get_uint_range: "old < 2 ^ w \<Longrightarrow> fst (ss_get_uint w ss old) < 2 ^ w"
  by (simp add: ss_get_uint_def Let_def split: prod.split)

lemma conf_uint_range:
  "old < 2 ^ w \<Longrightarrow> conf_uint w res key old ss = (v, ss') \<Longrightarrow> v < 2 ^ w"
  using ss_get_uint_range [of old w] by (auto simp: conf_uint_def split: option.splits) (metis fst_conv)

definition db_info_range :: "db_info \<Rightarrow> bool" where
  "db_info_range d \<longleftrightarrow> int_min \<le> MAX_CONN d \<and> MAX_CONN d \<le> int_max \<and>
     int_min \<le> MAX_IDLE d \<and> MAX_IDLE d \<le> int_max \<and> int_min \<le> MIN_IDLE d \<and> MIN_IDLE d \<le> int_max \<and>
     int_min \<le> SLEEP d \<and> SLEEP d \<le> int_max \<and> CLIENT_FLAG d < 2 ^ 64 \<and> PORT d < 2 ^ 32"

lemma read_db_info_range: "db_info_range d \<Longrightarrow> db_info_range (read_db_info res d)"
  by (auto simp: db_info_range_def read_db_info_def Let_def split: prod.splits
      dest: conf_int_range [rotated -1] conf_uint_range [rotated -1])

lemma fix_db_info_valid:
  "db_info_range d \<Longrightarrow> fix_db_info d = Some d' \<Longrightarrow>
    db_info_range d' \<and> 1 \<le> MIN_IDLE d' \<and> MIN_IDLE d' \<le> MAX_IDLE d' \<and> 1 \<le> MAX_CONN d' \<and> 0 \<le> SLEEP d'"
  by (auto simp: fix_db_info_def db_info_range_def Let_def split: if_splits)

text \<open>
  Whatever the configuration file holds, the parameters a pool is created with are usable: all
  integers fit their C++ types, at least one connection is allowed and kept idle, the idle bounds
  are in order and the waiting time is not negative.
\<close>

theorem set_db_conf_path_valid:
  assumes "set_db_conf_path path open_file = Some d"
  shows "1 \<le> MIN_IDLE d \<and> MIN_IDLE d \<le> MAX_IDLE d \<and> MAX_IDLE d \<le> int_max \<and>
    1 \<le> MAX_CONN d \<and> MAX_CONN d \<le> int_max \<and> 0 \<le> SLEEP d \<and> CLIENT_FLAG d < 2 ^ 64 \<and> PORT d < 2 ^ 32"
proof -
  have "db_info_range db_info_default" by (simp add: db_info_range_def db_info_default_def)
  from fix_db_info_valid [OF read_db_info_range [OF this]] assms
  show ?thesis by (auto simp: set_db_conf_path_def db_info_range_def)
qed

theorem set_db_conf_path_valid_witness:
  "\<exists>d. set_db_conf_path ''db.ini'' (\<lambda>p. Some ''MAX_IDLE=2'') = Some d \<and> MIN_IDLE d \<le> MAX_IDLE d"
proof -
  have "set_db_conf_path ''db.ini'' (\<lambda>p. Some ''MAX_IDLE=2'') \<noteq> None" by code_simp
  then obtain d where d: "set_db_conf_path ''db.ini'' (\<lambda>p. Some ''MAX_IDLE=2'') = Some d" by blast
  from set_db_conf_path_valid [OF d] d show ?thesis by blast
qed

text \<open>
  A file whose numbers are plain decimal numerals in range is taken at its word: with
  \<open>1 \<le> MIN_IDLE \<le> MAX_IDLE\<close> and \<open>1 \<le> MAX_CONN\<close> no correction applies, and the parameters are the
  numbers of the file.
\<close>

theorem db_info_reads_numbers:
  assumes "res ''MAX_CONN'' = Some (nat_str a)" "res ''MAX_IDLE'' = Some (nat_str b)"
    "res ''MIN_IDLE'' = Some (nat_str c)" "res ''SLEEP'' = Some (nat_str s)"
    "res ''CLIENT_FLAG'' = None" "res ''PORT'' = Some (nat_str p)"
    and "1 \<le> a" "int a \<le> int_max" "1 \<le> c" "c \<le> b" "int b \<le> int_max" "int s \<le> int_max" "p < 2 ^ 32"
  shows "\<exists>d. fix_db_info (read_db_info res db_info_default) = Some d \<and> MAX_CONN d = int a \<and>
    MAX_IDLE d = int b \<and> MIN_IDLE d = int c \<and> SLEEP d = int s \<and> CLIENT_FLAG d = 0 \<and> PORT d = p"
proof -
  have "int c \<le> int_max" using assms by linarith
  moreover have "conf_uint 64 res ''CLIENT_FLAG'' 0 [] = (0, [])"
    using assms by (simp add: conf_uint_def)
  ultimately show ?thesis
    using assms
    by (simp add: read_db_info_def db_info_default_def Let_def conf_int_num conf_uint_num fix_db_info_def)
qed

theorem db_info_reads_numbers_witness:
  "\<exists>d. fix_db_info (read_db_info [''MAX_CONN'' \<mapsto> nat_str 9, ''MAX_IDLE'' \<mapsto> nat_str 5,
     ''MIN_IDLE'' \<mapsto> nat_str 2, ''SLEEP'' \<mapsto> nat_str 1, ''PORT'' \<mapsto> nat_str 3307] db_info_default) = Some d \<and>
     MAX_IDLE d = 5 \<and> PORT d = 3307"
proof -
  let ?r = "[''MAX_CONN'' \<mapsto> nat_str 9, ''MAX_IDLE'' \<mapsto> nat_str 5,
     ''MIN_IDLE'' \<mapsto> nat_str 2, ''SLEEP'' \<mapsto> nat_str 1, ''PORT'' \<mapsto> nat_str 3307]"
  from db_info_reads_numbers [of ?r 9 5 2 1 3307] show ?thesis by auto
qed

text \<open>
  One malformed number spoils the rest of the file: a \<open>MAX_CONN\<close> with anything but a digit,
  sign or blank behind its digits is itself read correctly, but the rest stays in the shared
  \<open>stringstream\<close> (\<open>clear\<close> resets the flags only), so every number read after it is 0, the
  port included, whatever the file says.
\<close>

theorem db_info_poisoned:
  assumes "res ''MAX_CONN'' = Some (nat_str n @ junk)" "int n \<le> int_max" "ss_stuck junk"
    and "res ''MAX_IDLE'' = Some a" "res ''MIN_IDLE'' = Some b" "res ''SLEEP'' = Some s"
      "res ''PORT'' = Some p"
  shows "let d = read_db_info res db_info_default in
    MAX_CONN d = int n \<and> MAX_IDLE d = 0 \<and> MIN_IDLE d = 0 \<and> SLEEP d = 0 \<and> PORT d = 0"
proof -
  have tw: "takeWhile is_digit junk = []" "dropWhile is_digit junk = junk"
    using assms(3) by (auto simp: ss_stuck_def)
  have "conf_int res ''MAX_CONN'' 100 [] = (int n, junk)"
    using assms(1,2) by (simp add: conf_int_def ss_put_def ss_get_int_def Let_def tw)
  moreover have "\<exists>v t. conf_uint 64 res ''CLIENT_FLAG'' 0 ss = (v, t) \<and> ss_stuck t"
    if "ss_stuck ss" for ss
    using that conf_uint_stuck [of res "''CLIENT_FLAG''"] ss_stuck_append [of ss]
    by (cases "res ''CLIENT_FLAG''") (auto simp: conf_uint_def)
  moreover note flag = this
  have "ss_stuck (((junk @ a) @ b) @ s)" using assms(3) by (intro ss_stuck_append)
  then obtain v t where vt: "conf_uint 64 res ''CLIENT_FLAG'' 0 (((junk @ a) @ b) @ s) = (v, t)" "ss_stuck t"
    using flag by blast
  moreover have "conf_int res ''MAX_IDLE'' 30 junk = (0, junk @ a)"
    "conf_int res ''MIN_IDLE'' 3 (junk @ a) = (0, (junk @ a) @ b)"
    "conf_int res ''SLEEP'' 3 ((junk @ a) @ b) = (0, ((junk @ a) @ b) @ s)"
    using assms(3-6) by (simp_all only: conf_int_stuck ss_stuck_append)
  moreover have "conf_uint 32 res ''PORT'' 3306 t = (0, t @ p)"
    using assms(7) vt(2) by (rule conf_uint_stuck)
  ultimately show ?thesis
    by (simp add: read_db_info_def db_info_default_def Let_def)
qed

theorem db_info_poisoned_witness:
  "PORT (read_db_info [''MAX_CONN'' \<mapsto> nat_str 9 @ ''x'', ''MAX_IDLE'' \<mapsto> ''5'', ''MIN_IDLE'' \<mapsto> ''2'',
     ''SLEEP'' \<mapsto> ''1'', ''PORT'' \<mapsto> ''3306''] db_info_default) = 0"
proof -
  have "ss_stuck ''x''" by (simp add: ss_stuck_def is_space_def is_digit_code code_def)
  from db_info_poisoned [of "[''MAX_CONN'' \<mapsto> nat_str 9 @ ''x'', ''MAX_IDLE'' \<mapsto> ''5'', ''MIN_IDLE'' \<mapsto> ''2'',
     ''SLEEP'' \<mapsto> ''1'', ''PORT'' \<mapsto> ''3306'']" 9 "''x''" "''5''" "''2''" "''1''" "''3306''"] this
  show ?thesis by (simp add: Let_def)
qed

end
