(* ===== verification/PoolList.thy ===== *)
theory PoolList
  imports Prelude
begin

text \<open>
  \<open>DBPoolList\<close> (\<open>src/db/db_pool_list.hpp\<close>): the singly linked list of database connections the pool is
  made of.  A list object is its counter \<open>node_numbers\<close> and the chain of nodes from \<open>next\<close> on; a node is
  its own address and the connection pointer it carries (0 is \<open>nullptr\<close>).  The overloads for a
  connection and for a node have names of their own.  The locale \<open>conn_list\<close> is the contract the
  pool relies on.
\<close>

record pool_node =
  node_addr :: nat
  node_conn :: nat

record pool_list =
  node_numbers :: int
  nodes :: "pool_node list"

definition new_pool_list :: pool_list where
  "new_pool_list = \<lparr>node_numbers = 0, nodes = []\<rparr>"

section \<open>The operations\<close>

definition if_exist_conn :: "pool_list \<Rightarrow> nat \<Rightarrow> bool" where
  "if_exist_conn l c =
     (if node_numbers l = 0 then False
      else if c = 0 then True
      else list_ex (\<lambda>n. node_conn n = c) (nodes l))"

definition if_exist_node :: "pool_list \<Rightarrow> pool_node option \<Rightarrow> bool" where
  "if_exist_node l nd =
     (if node_numbers l = 0 then False
      else case nd of None \<Rightarrow> True
      | Some n \<Rightarrow> if if_exist_conn l (node_conn n) then True
                  else list_ex (\<lambda>m. node_addr m = node_addr n) (nodes l))"

definition add_node_ptr :: "pool_list \<Rightarrow> pool_node \<Rightarrow> pool_list" where
  "add_node_ptr l n =
     (if if_exist_node l (Some n) \<and> node_numbers l > 0 then l
      else l\<lparr>nodes := n # nodes l, node_numbers := node_numbers l + 1\<rparr>)"

text \<open>The address is what \<open>new DBPoolNode(connection)\<close> returns.\<close>

definition add_node_conn :: "nat \<Rightarrow> pool_list \<Rightarrow> nat \<Rightarrow> pool_list" where
  "add_node_conn addr l c =
     (if if_exist_conn l c then l else add_node_ptr l \<lparr>node_addr = addr, node_conn = c\<rparr>)"

text \<open>The walk with the two work pointers: the first node that matches, and the chain without it.\<close>

fun unlink :: "(pool_node \<Rightarrow> bool) \<Rightarrow> pool_node list \<Rightarrow> (pool_node \<times> pool_node list) option" where
  "unlink P [] = None"
| "unlink P (n # ns) =
     (if P n then Some (n, ns)
      else case unlink P ns of None \<Rightarrow> None | Some (m, ms) \<Rightarrow> Some (m, n # ms))"

definition delete_node_conn :: "pool_list \<Rightarrow> nat \<Rightarrow> pool_list" where
  "delete_node_conn l c =
     (if \<not> if_exist_conn l c \<or> c = 0 then l
      else case unlink (\<lambda>n. node_conn n = c) (nodes l) of None \<Rightarrow> l
      | Some (_, ns) \<Rightarrow> l\<lparr>nodes := ns, node_numbers := node_numbers l - 1\<rparr>)"

text \<open>
  The node overload advances with \<open>q = 0\<close>: the trailing pointer stays null, so the branch for the head
  is taken wherever the node was found.
\<close>

definition delete_node_ptr :: "pool_list \<Rightarrow> pool_node option \<Rightarrow> pool_list" where
  "delete_node_ptr l nd =
     (if \<not> if_exist_node l nd then l
      else case nd of None \<Rightarrow> l
      | Some n \<Rightarrow>
          if list_ex (\<lambda>m. node_addr m = node_addr n) (nodes l)
          then l\<lparr>nodes := tl (nodes l), node_numbers := node_numbers l - 1\<rparr>
          else l)"

definition list_head :: "pool_list \<Rightarrow> pool_node option" where
  "list_head l = (case nodes l of [] \<Rightarrow> None | n # _ \<Rightarrow> Some n)"

definition delete_head :: "pool_list \<Rightarrow> pool_list" where
  "delete_head l = delete_node_ptr l (list_head l)"

definition head_connection :: "pool_list \<Rightarrow> nat" where
  "head_connection l = (case list_head l of None \<Rightarrow> 0 | Some n \<Rightarrow> node_conn n)"

definition move_node :: "pool_list \<Rightarrow> pool_list \<Rightarrow> nat \<Rightarrow> pool_list \<times> pool_list" where
  "move_node l dest c =
     (if c = 0 \<or> if_exist_conn dest c \<or> \<not> if_exist_conn l c then (l, dest)
      else case unlink (\<lambda>n. node_conn n = c) (nodes l) of None \<Rightarrow> (l, dest)
      | Some (n, ns) \<Rightarrow>
          (l\<lparr>nodes := ns, node_numbers := node_numbers l - 1\<rparr>, add_node_ptr dest n))"

text \<open>The flag says that \<open>dest\<close> is null or the list itself, which is then left alone.\<close>

definition pop_connection2 :: "bool \<Rightarrow> pool_list \<Rightarrow> pool_list \<Rightarrow> nat \<Rightarrow> nat \<times> pool_list \<times> pool_list" where
  "pop_connection2 null_or_self l dest c =
     (if null_or_self then (c, l, dest)
      else case move_node l dest c of (l', dest') \<Rightarrow> (c, l', dest'))"

text \<open>\<open>pop_connection2(dest)\<close> takes the head.\<close>

definition pop_head2 :: "bool \<Rightarrow> pool_list \<Rightarrow> pool_list \<Rightarrow> nat \<times> pool_list \<times> pool_list" where
  "pop_head2 null_or_self l dest = pop_connection2 null_or_self l dest (head_connection l)"

text \<open>The destructor: the addresses it frees, in order.\<close>

fun free_chain :: "pool_node \<Rightarrow> pool_node list \<Rightarrow> nat list" where
  "free_chain p [] = [node_addr p]"
| "free_chain p (q # qs) = node_addr p # free_chain q qs"

definition destroy_list :: "pool_list \<Rightarrow> nat list" where
  "destroy_list l =
     (if node_numbers l = 0 then []
      else case nodes l of [] \<Rightarrow> [] | p # ps \<Rightarrow> free_chain p ps)"

section \<open>The contract of a connection list\<close>

text \<open>
  \<open>abs\<close> reads a list object as the connections it holds, in order.  The laws say what each operation
  does to them, for connections that are not null, and that the invariant is kept.
\<close>

locale conn_list =
  fixes inv :: "'l \<Rightarrow> bool"
    and abs :: "'l \<Rightarrow> nat list"
    and nodes_of :: "'l \<Rightarrow> nat set"
    and empty :: 'l
    and count :: "'l \<Rightarrow> int"
    and has :: "'l \<Rightarrow> nat \<Rightarrow> bool"
    and add :: "nat \<Rightarrow> 'l \<Rightarrow> nat \<Rightarrow> 'l"
    and del :: "'l \<Rightarrow> nat \<Rightarrow> 'l"
    and del_head :: "'l \<Rightarrow> 'l"
    and first :: "'l \<Rightarrow> nat"
    and move :: "'l \<Rightarrow> 'l \<Rightarrow> nat \<Rightarrow> 'l \<times> 'l"
  assumes inv_empty: "inv empty" and abs_empty: "abs empty = []" and nodes_empty: "nodes_of empty = {}"
    and abs_inv: "inv l \<Longrightarrow> distinct (abs l) \<and> 0 \<notin> set (abs l)"
    and count_abs: "inv l \<Longrightarrow> count l = int (length (abs l))"
    and has_abs: "inv l \<Longrightarrow> c \<noteq> 0 \<Longrightarrow> has l c \<longleftrightarrow> c \<in> set (abs l)"
    and first_abs: "inv l \<Longrightarrow> first l = (case abs l of [] \<Rightarrow> 0 | c # _ \<Rightarrow> c)"
    and add_abs: "inv l \<Longrightarrow> c \<noteq> 0 \<Longrightarrow> c \<notin> set (abs l) \<Longrightarrow> a \<notin> nodes_of l \<Longrightarrow>
      inv (add a l c) \<and> abs (add a l c) = c # abs l \<and> nodes_of (add a l c) = insert a (nodes_of l)"
    and del_abs: "inv l \<Longrightarrow> c \<in> set (abs l) \<Longrightarrow>
      inv (del l c) \<and> abs (del l c) = remove1 c (abs l) \<and> nodes_of (del l c) \<subseteq> nodes_of l"
    and del_head_abs: "inv l \<Longrightarrow>
      inv (del_head l) \<and> abs (del_head l) = tl (abs l) \<and> nodes_of (del_head l) \<subseteq> nodes_of l"
    and move_abs: "inv l \<Longrightarrow> inv d \<Longrightarrow> c \<in> set (abs l) \<Longrightarrow> c \<notin> set (abs d) \<Longrightarrow>
      nodes_of l \<inter> nodes_of d = {} \<Longrightarrow> move l d c = (l', d') \<Longrightarrow>
      inv l' \<and> inv d' \<and> abs l' = remove1 c (abs l) \<and> abs d' = c # abs d \<and>
      nodes_of l' \<inter> nodes_of d' = {} \<and> nodes_of l' \<union> nodes_of d' = nodes_of l \<union> nodes_of d"
begin

lemma first_in: "inv l \<Longrightarrow> abs l \<noteq> [] \<Longrightarrow> first l \<in> set (abs l) \<and> first l \<noteq> 0"
  using abs_inv [of l] by (cases "abs l") (auto simp: first_abs)

lemma abs_nonempty: "inv l \<Longrightarrow> 0 < count l \<Longrightarrow> abs l \<noteq> []"
  by (auto simp: count_abs)

text \<open>Moving keeps what two disjoint lists hold together, and keeps them disjoint.\<close>

lemma move_partition:
  assumes "inv l" "inv d" "set (abs l) \<inter> set (abs d) = {}" "nodes_of l \<inter> nodes_of d = {}"
    and "c \<in> set (abs l)" "move l d c = (l', d')"
  shows "set (abs l') \<union> set (abs d') = set (abs l) \<union> set (abs d)"
    and "set (abs l') \<inter> set (abs d') = {}"
    and "count l' = count l - 1" "count d' = count d + 1"
proof -
  have m: "inv l' \<and> inv d' \<and> abs l' = remove1 c (abs l) \<and> abs d' = c # abs d"
    using move_abs [OF assms(1,2,5) _ assms(4,6)] assms(3,5) by blast
  have d: "distinct (abs l)" using abs_inv [OF assms(1)] by blast
  show "set (abs l') \<union> set (abs d') = set (abs l) \<union> set (abs d)"
    "set (abs l') \<inter> set (abs d') = {}"
    using m d assms(3,5) by (auto simp: set_remove1_eq)
  have "abs l \<noteq> []" using assms(5) by auto
  then show "count l' = count l - 1" "count d' = count d + 1"
    using m assms(1,2,5) by (simp_all add: count_abs length_remove1)
qed

lemma count_del: "inv l \<Longrightarrow> c \<in> set (abs l) \<Longrightarrow> count (del l c) = count l - 1"
  using del_abs [of l c] by (cases "abs l = []") (simp_all add: count_abs length_remove1)

lemma count_add: "inv l \<Longrightarrow> c \<noteq> 0 \<Longrightarrow> c \<notin> set (abs l) \<Longrightarrow> a \<notin> nodes_of l \<Longrightarrow>
    count (add a l c) = count l + 1"
  using add_abs [of l c a] by (simp add: count_abs)

lemma count_del_head: "inv l \<Longrightarrow> abs l \<noteq> [] \<Longrightarrow> count (del_head l) = count l - 1"
  using del_head_abs [of l] by (cases "abs l") (simp_all add: count_abs)

end

section \<open>DBPoolList meets the contract\<close>

definition pl_inv :: "pool_list \<Rightarrow> bool" where
  "pl_inv l \<longleftrightarrow> node_numbers l = int (length (nodes l)) \<and> distinct (map node_conn (nodes l)) \<and>
     distinct (map node_addr (nodes l)) \<and> 0 \<notin> set (map node_conn (nodes l))"

definition conns :: "pool_list \<Rightarrow> nat list" where
  "conns l = map node_conn (nodes l)"

definition addrs :: "pool_list \<Rightarrow> nat set" where
  "addrs l = node_addr ` set (nodes l)"

lemma if_exist_conn_iff: "pl_inv l \<Longrightarrow> c \<noteq> 0 \<Longrightarrow> if_exist_conn l c \<longleftrightarrow> c \<in> set (conns l)"
  by (auto simp: if_exist_conn_def pl_inv_def conns_def list_ex_iff)

lemma if_exist_node_iff:
  assumes "pl_inv l" "node_conn n \<noteq> 0"
  shows "if_exist_node l (Some n) \<longleftrightarrow> node_conn n \<in> set (conns l) \<or> node_addr n \<in> addrs l"
proof (cases "nodes l")
  case Nil
  with assms(1) show ?thesis
    by (simp add: if_exist_node_def pl_inv_def conns_def addrs_def)
next
  case (Cons m ms)
  then have "node_numbers l \<noteq> 0" using assms(1) by (simp add: pl_inv_def)
  moreover have "list_ex (\<lambda>m. node_addr m = node_addr n) (nodes l) \<longleftrightarrow> node_addr n \<in> addrs l"
    unfolding addrs_def list_ex_iff image_iff by metis
  ultimately show ?thesis
    using if_exist_conn_iff [OF assms] by (simp add: if_exist_node_def)
qed

lemma unlink_Some:
  "unlink P ns = Some (n, ms) \<Longrightarrow> \<exists>us vs. ns = us @ n # vs \<and> ms = us @ vs \<and> P n \<and> (\<forall>u\<in>set us. \<not> P u)"
proof (induction ns arbitrary: ms)
  case (Cons m ns)
  show ?case
  proof (cases "P m")
    case True
    with Cons.prems show ?thesis by (intro exI [of _ "[]"] exI [of _ ms]) simp
  next
    case False
    with Cons.prems obtain ks where ks: "unlink P ns = Some (n, ks)" "ms = m # ks"
      by (auto split: option.splits)
    with Cons.IH obtain us vs where "ns = us @ n # vs" "ks = us @ vs" "P n" "\<forall>u\<in>set us. \<not> P u" by blast
    with ks False show ?thesis by (intro exI [of _ "m # us"] exI [of _ vs]) simp
  qed
qed simp

lemma unlink_None: "unlink P ns = None \<longleftrightarrow> (\<forall>n\<in>set ns. \<not> P n)"
  by (induction ns) (auto split: option.splits)

lemma unlink_conn:
  assumes "c \<in> set (conns l)"
  obtains us n vs where "unlink (\<lambda>n. node_conn n = c) (nodes l) = Some (n, us @ vs)"
    "nodes l = us @ n # vs" "node_conn n = c" "c \<notin> node_conn ` set us"
proof -
  have "unlink (\<lambda>n. node_conn n = c) (nodes l) \<noteq> None"
    using assms by (auto simp: unlink_None conns_def)
  then obtain n ms where u: "unlink (\<lambda>n. node_conn n = c) (nodes l) = Some (n, ms)" by auto
  from unlink_Some [OF u] obtain us vs where "nodes l = us @ n # vs" "ms = us @ vs" "node_conn n = c"
    "\<forall>u\<in>set us. node_conn u \<noteq> c" by blast
  moreover from this have "c \<notin> node_conn ` set us" by blast
  ultimately show ?thesis using u by (intro that [of n us vs]) simp_all
qed

lemma add_node_ptr_new:
  "pl_inv l \<Longrightarrow> node_conn n \<noteq> 0 \<Longrightarrow> node_conn n \<notin> set (conns l) \<Longrightarrow> node_addr n \<notin> addrs l \<Longrightarrow>
    add_node_ptr l n = l\<lparr>nodes := n # nodes l, node_numbers := node_numbers l + 1\<rparr>"
  by (simp add: add_node_ptr_def if_exist_node_iff)

lemma add_node_conn_spec:
  assumes "pl_inv l" "c \<noteq> 0" "c \<notin> set (conns l)" "a \<notin> addrs l"
  shows "pl_inv (add_node_conn a l c) \<and> conns (add_node_conn a l c) = c # conns l \<and>
    addrs (add_node_conn a l c) = insert a (addrs l)"
proof -
  have "add_node_conn a l c =
      l\<lparr>nodes := \<lparr>node_addr = a, node_conn = c\<rparr> # nodes l, node_numbers := node_numbers l + 1\<rparr>"
    using assms add_node_ptr_new [of l "\<lparr>node_addr = a, node_conn = c\<rparr>"]
    by (simp add: add_node_conn_def if_exist_conn_iff)
  with assms show ?thesis by (auto simp: pl_inv_def conns_def addrs_def)
qed

lemma delete_node_conn_spec:
  assumes "pl_inv l" "c \<in> set (conns l)"
  shows "pl_inv (delete_node_conn l c) \<and> conns (delete_node_conn l c) = remove1 c (conns l) \<and>
    addrs (delete_node_conn l c) \<subseteq> addrs l"
proof -
  have c: "c \<noteq> 0" using assms by (auto simp: pl_inv_def conns_def)
  obtain us n vs where u: "unlink (\<lambda>n. node_conn n = c) (nodes l) = Some (n, us @ vs)"
    "nodes l = us @ n # vs" "node_conn n = c" "c \<notin> node_conn ` set us"
    using unlink_conn [OF assms(2)] .
  have "delete_node_conn l c = l\<lparr>nodes := us @ vs, node_numbers := node_numbers l - 1\<rparr>"
    using assms c by (simp add: delete_node_conn_def if_exist_conn_iff u(1))
  with assms(1) u(2-4) show ?thesis
    by (auto simp: pl_inv_def conns_def addrs_def remove1_append)
qed

lemma delete_head_spec:
  assumes "pl_inv l"
  shows "pl_inv (delete_head l) \<and> conns (delete_head l) = tl (conns l) \<and> addrs (delete_head l) \<subseteq> addrs l"
proof (cases "nodes l")
  case Nil
  with assms show ?thesis
    by (simp add: delete_head_def delete_node_ptr_def list_head_def if_exist_node_def pl_inv_def conns_def)
next
  case (Cons n ns)
  with assms have "if_exist_node l (Some n)"
    by (simp add: if_exist_node_iff pl_inv_def conns_def)
  with Cons assms show ?thesis
    by (auto simp: delete_head_def delete_node_ptr_def list_head_def pl_inv_def conns_def addrs_def)
qed

lemma move_node_spec:
  assumes "pl_inv l" "pl_inv d" "c \<in> set (conns l)" "c \<notin> set (conns d)" "addrs l \<inter> addrs d = {}"
    and "move_node l d c = (l', d')"
  shows "pl_inv l' \<and> pl_inv d' \<and> conns l' = remove1 c (conns l) \<and> conns d' = c # conns d \<and>
    addrs l' \<inter> addrs d' = {} \<and> addrs l' \<union> addrs d' = addrs l \<union> addrs d"
proof -
  have c: "c \<noteq> 0" using assms(1,3) by (auto simp: pl_inv_def conns_def)
  obtain us n vs where u: "unlink (\<lambda>n. node_conn n = c) (nodes l) = Some (n, us @ vs)"
    "nodes l = us @ n # vs" "node_conn n = c" "c \<notin> node_conn ` set us"
    using unlink_conn [OF assms(3)] .
  have a: "node_addr n \<in> addrs l" "node_addr n \<notin> addrs d" using u(2) assms(5) by (auto simp: addrs_def)
  have "l' = l\<lparr>nodes := us @ vs, node_numbers := node_numbers l - 1\<rparr>" "d' = add_node_ptr d n"
    using assms(6) assms(1-4) c by (simp_all add: move_node_def if_exist_conn_iff u(1))
  moreover have "add_node_ptr d n = d\<lparr>nodes := n # nodes d, node_numbers := node_numbers d + 1\<rparr>"
    using assms(2,4) c u(3) a by (intro add_node_ptr_new) simp_all
  ultimately show ?thesis
    using assms(1,2,4,5) u(2-4) a c
    by (auto simp: pl_inv_def conns_def addrs_def remove1_append)
qed

interpretation pl: conn_list pl_inv conns addrs new_pool_list node_numbers if_exist_conn
    add_node_conn delete_node_conn delete_head head_connection move_node
proof unfold_locales
  fix l d l' d' :: pool_list and c a :: nat
  show "pl_inv new_pool_list" "conns new_pool_list = []" "addrs new_pool_list = {}"
    by (simp_all add: pl_inv_def conns_def addrs_def new_pool_list_def)
  show "pl_inv l \<Longrightarrow> distinct (conns l) \<and> 0 \<notin> set (conns l)"
    "pl_inv l \<Longrightarrow> node_numbers l = int (length (conns l))"
    by (simp_all add: pl_inv_def conns_def)
  show "pl_inv l \<Longrightarrow> head_connection l = (case conns l of [] \<Rightarrow> 0 | c # _ \<Rightarrow> c)"
    by (cases "nodes l") (simp_all add: head_connection_def list_head_def conns_def)
qed (rule if_exist_conn_iff add_node_conn_spec delete_node_conn_spec delete_head_spec
      move_node_spec; assumption)+

section \<open>Properties\<close>

text \<open>
  Handing a connection over from one list to the other is exact: with disjoint well-formed
  lists, \<open>pop_connection2\<close> of a connection of the first takes it out there, puts it at the front of
  the second, changes nothing else about the order, and both stay well formed and disjoint, counters
  included.
\<close>

theorem pop_connection2_moves:
  assumes "pl_inv l" "pl_inv d" "set (conns l) \<inter> set (conns d) = {}" "addrs l \<inter> addrs d = {}"
    and "c \<in> set (conns l)" "pop_connection2 False l d c = (r, l', d')"
  shows "r = c \<and> pl_inv l' \<and> pl_inv d' \<and> conns l' = remove1 c (conns l) \<and> conns d' = c # conns d \<and>
    set (conns l') \<inter> set (conns d') = {} \<and> addrs l' \<inter> addrs d' = {} \<and>
    node_numbers l' = node_numbers l - 1 \<and> node_numbers d' = node_numbers d + 1"
proof -
  have m: "r = c" "move_node l d c = (l', d')"
    using assms(6) by (auto simp: pop_connection2_def split: prod.splits)
  have "c \<notin> set (conns d)" using assms(3,5) by blast
  from pl.move_abs [OF assms(1,2,5) this assms(4) m(2)] pl.move_partition [OF assms(1-5) m(2)] m(1)
  show ?thesis by simp
qed

theorem pop_connection2_moves_witness:
  "pop_connection2 False (add_node_conn 11 (add_node_conn 12 new_pool_list 2) 5) (add_node_conn 13 new_pool_list 3) 2 =
    (2, add_node_conn 11 new_pool_list 5, add_node_conn 12 (add_node_conn 13 new_pool_list 3) 2) \<and>
   node_numbers (add_node_conn 11 new_pool_list 5) = 1"
proof -
  let ?l = "add_node_conn 11 (add_node_conn 12 new_pool_list 2) 5"
  let ?d = "add_node_conn 13 new_pool_list 3"
  have v: "?l = \<lparr>node_numbers = 2, nodes = [\<lparr>node_addr = 11, node_conn = 5\<rparr>, \<lparr>node_addr = 12, node_conn = 2\<rparr>]\<rparr>"
    "?d = \<lparr>node_numbers = 1, nodes = [\<lparr>node_addr = 13, node_conn = 3\<rparr>]\<rparr>"
    by code_simp+
  have e: "pop_connection2 False ?l ?d 2 =
      (2, add_node_conn 11 new_pool_list 5, add_node_conn 12 (add_node_conn 13 new_pool_list 3) 2)"
    by code_simp
  have "pl_inv ?l" "pl_inv ?d" "set (conns ?l) \<inter> set (conns ?d) = {}" "addrs ?l \<inter> addrs ?d = {}"
    "2 \<in> set (conns ?l)" "node_numbers ?l = 2"
    unfolding v by (simp_all add: pl_inv_def conns_def addrs_def)
  from pop_connection2_moves [OF this(1-5) e] e this(6) show ?thesis by simp
qed

text \<open>
  The overload of \<open>delete_node\<close> for a node does not delete that node but the head, because its
  loop forgets the predecessor: asked for any node of a well-formed list it behaves like
  \<open>delete_node()\<close>, and a node that is not the head stays in the list.
\<close>

theorem delete_node_ptr_drops_head:
  assumes "pl_inv l" "n \<in> set (nodes l)"
  shows "delete_node_ptr l (Some n) = delete_head l \<and> conns (delete_node_ptr l (Some n)) = tl (conns l) \<and>
    (n \<noteq> hd (nodes l) \<longrightarrow> n \<in> set (nodes (delete_node_ptr l (Some n))))"
proof -
  obtain m ms where ms: "nodes l = m # ms" using assms(2) by (cases "nodes l") auto
  have nz: "node_conn k \<noteq> 0" if "k \<in> set (nodes l)" for k
    using assms(1) that by (force simp: pl_inv_def)
  have ex: "if_exist_node l (Some k)" if "k \<in> set (nodes l)" for k
    using if_exist_node_iff [OF assms(1) nz [OF that]] that by (auto simp: conns_def)
  have "delete_node_ptr l (Some k) = l\<lparr>nodes := ms, node_numbers := node_numbers l - 1\<rparr>"
    if "k \<in> set (nodes l)" for k
    using ex [OF that] that by (auto simp: delete_node_ptr_def list_ex_iff ms)
  with assms(2) ms show ?thesis
    by (auto simp: delete_head_def list_head_def conns_def)
qed

theorem delete_node_ptr_drops_head_witness:
  "conns (delete_node_ptr (add_node_conn 11 (add_node_conn 12 new_pool_list 2) 5)
     (Some \<lparr>node_addr = 12, node_conn = 2\<rparr>)) = [2]"
proof -
  let ?l = "add_node_conn 11 (add_node_conn 12 new_pool_list 2) 5"
  have v: "?l = \<lparr>node_numbers = 2, nodes = [\<lparr>node_addr = 11, node_conn = 5\<rparr>, \<lparr>node_addr = 12, node_conn = 2\<rparr>]\<rparr>"
    by code_simp
  have "pl_inv ?l" "\<lparr>node_addr = 12, node_conn = 2\<rparr> \<in> set (nodes ?l)" "conns ?l = [5, 2]"
    unfolding v by (simp_all add: pl_inv_def conns_def)
  note facts = this
  from delete_node_ptr_drops_head [OF facts(1,2)]
  have "conns (delete_node_ptr ?l (Some \<lparr>node_addr = 12, node_conn = 2\<rparr>)) = tl (conns ?l)" by blast
  then show ?thesis by (simp only: facts(3) list.sel)
qed

text \<open>
  The destructor frees every node exactly once: the addresses it deletes are those of the list,
  in order and without repetition.
\<close>

theorem destroy_list_frees_once:
  assumes "pl_inv l"
  shows "destroy_list l = map node_addr (nodes l) \<and> distinct (destroy_list l)"
proof -
  have chain: "free_chain p ps = map node_addr (p # ps)" for p ps
    by (induction p ps rule: free_chain.induct) simp_all
  have "destroy_list l = map node_addr (nodes l)"
    using assms chain by (cases "nodes l") (simp_all add: destroy_list_def pl_inv_def)
  with assms show ?thesis by (simp add: pl_inv_def)
qed

theorem destroy_list_frees_once_witness:
  "destroy_list (add_node_conn 11 (add_node_conn 12 new_pool_list 2) 5) = [11, 12]"
proof -
  let ?l = "add_node_conn 11 (add_node_conn 12 new_pool_list 2) 5"
  have v: "?l = \<lparr>node_numbers = 2, nodes = [\<lparr>node_addr = 11, node_conn = 5\<rparr>, \<lparr>node_addr = 12, node_conn = 2\<rparr>]\<rparr>"
    by code_simp
  have "pl_inv ?l" unfolding v by (simp add: pl_inv_def)
  from destroy_list_frees_once [OF this] show ?thesis by (simp add: v)
qed

end
