(* ===== verification/ConnPool.thy ===== *)
theory ConnPool
  imports PoolList IniConf
begin

text \<open>
  \<open>SqlDBPool\<close> (\<open>src/db/sql_db_pool.hpp\<close>, on the two lists and the two mutexes that \<open>DBPoolInterface\<close>,
  \<open>src/interface/db_pool.h\<close>, declares).  What the operations do when one thread
  uses the pool, and what holds after any history of them; PoolThreads interleaves any number of threads.  Opening a MySQL
  connection is not code of this repository: the model takes the answers of \<open>maria_real_connect\<close>, in
  order, as a list of booleans, and numbers the objects \<open>new\<close> returns.
\<close>

section \<open>The pool\<close>

record pool =
  cfg :: db_info
  unused_pool :: pool_list
  used_pool :: pool_list
  next_addr :: nat          \<comment> \<open>what the next \<open>new\<close> returns\<close>
  open_conns :: "nat list"  \<comment> \<open>connections opened and not closed with \<open>mysql_close\<close>\<close>

text \<open>One turn of the loop of \<open>add_connection\<close>; a failed connect ends the process.\<close>

fun add_turns :: "nat \<Rightarrow> bool list \<Rightarrow> pool \<Rightarrow> (pool \<times> bool list) option" where
  "add_turns 0 os p = Some (p, os)"
| "add_turns (Suc k) [] p = None"
| "add_turns (Suc k) (ok # os) p =
     (if \<not> ok then None
      else let mysql = next_addr p in
        add_turns k os
          (p\<lparr>unused_pool := add_node_conn (mysql + 1) (unused_pool p) mysql,
             next_addr := mysql + 2, open_conns := mysql # open_conns p\<rparr>))"

definition clamp_add :: "pool \<Rightarrow> int \<Rightarrow> int" where
  "clamp_add p add_numbers =
     (if node_numbers (unused_pool p) + add_numbers > MAX_IDLE (cfg p)
      then MAX_IDLE (cfg p) - node_numbers (unused_pool p) else add_numbers)"

definition add_connection :: "int \<Rightarrow> bool list \<Rightarrow> pool \<Rightarrow> (pool \<times> bool list) option" where
  "add_connection add_numbers os p = add_turns (nat (clamp_add p add_numbers)) os p"

fun delete_turns :: "nat \<Rightarrow> pool \<Rightarrow> pool" where
  "delete_turns 0 p = p"
| "delete_turns (Suc k) p = delete_turns k (p\<lparr>unused_pool := delete_head (unused_pool p)\<rparr>)"

definition delete_connection :: "int \<Rightarrow> pool \<Rightarrow> pool" where
  "delete_connection delete_numbers p =
     (let d = (if node_numbers (unused_pool p) - delete_numbers < MIN_IDLE (cfg p)
               then node_numbers (unused_pool p) - MIN_IDLE (cfg p) else delete_numbers)
      in delete_turns (nat d) p)"

text \<open>The constructor: two empty lists and \<open>add_connection(MIN_IDLE)\<close>.\<close>

definition new_pool :: "db_info \<Rightarrow> bool list \<Rightarrow> (pool \<times> bool list) option" where
  "new_pool d os = add_connection (MIN_IDLE d) os
     \<lparr>cfg = d, unused_pool = new_pool_list, used_pool = new_pool_list, next_addr = 1, open_conns = []\<rparr>"

text \<open>
  \<open>get_connection\<close>: one pass from the label \<open>again\<close> either goes back to it (\<open>Again\<close>), after sleeping or
  adding connections, or pops a connection, or dies in \<open>add_connection\<close>.
\<close>

datatype pass = Again pool "bool list" | Popped nat pool "bool list" | Died

definition get_pass :: "bool list \<Rightarrow> pool \<Rightarrow> pass" where
  "get_pass os p =
     (if node_numbers (used_pool p) = MAX_CONN (cfg p) then Again p os
      else if node_numbers (unused_pool p) \<le> MIN_IDLE (cfg p)
      then (case add_connection (MIN_IDLE (cfg p) - node_numbers (unused_pool p) + 1) os p of
              None \<Rightarrow> Died | Some (p', os') \<Rightarrow> Again p' os')
      else case pop_head2 False (unused_pool p) (used_pool p) of
             (c, un, us) \<Rightarrow> Popped c (p\<lparr>unused_pool := un, used_pool := us\<rparr>) os)"

datatype got = Connection nat pool "bool list" | Exited | Looping

fun get_connection :: "nat \<Rightarrow> bool list \<Rightarrow> pool \<Rightarrow> got" where
  "get_connection 0 os p = Looping"
| "get_connection (Suc fuel) os p =
     (case get_pass os p of
        Again p' os' \<Rightarrow> get_connection fuel os' p'
      | Popped c p' os' \<Rightarrow> Connection c p' os'
      | Died \<Rightarrow> Exited)"

definition recycle_body :: "nat \<Rightarrow> pool \<Rightarrow> pool" where
  "recycle_body c p =
     (if node_numbers (unused_pool p) = MAX_IDLE (cfg p)
      then p\<lparr>used_pool := delete_node_conn (used_pool p) c\<rparr>
      else case pop_connection2 False (used_pool p) (unused_pool p) c of
             (_, us, un) \<Rightarrow> p\<lparr>used_pool := us, unused_pool := un\<rparr>)"

definition recycle_connection :: "nat \<Rightarrow> pool \<Rightarrow> pool" where
  "recycle_connection c p = (if \<not> if_exist_conn (used_pool p) c then p else recycle_body c p)"

text \<open>The destructor closes and frees the head of a list while its counter is positive.\<close>

fun close_all :: "nat \<Rightarrow> pool_list \<Rightarrow> nat list \<Rightarrow> pool_list \<times> nat list" where
  "close_all 0 l live = (l, live)"
| "close_all (Suc k) l live =
     (if node_numbers l > 0 then close_all k (delete_head l) (remove1 (head_connection l) live)
      else (l, live))"

definition destroy_pool :: "pool \<Rightarrow> pool" where
  "destroy_pool p =
     (case close_all (nat (node_numbers (used_pool p))) (used_pool p) (open_conns p) of
        (us, live) \<Rightarrow> case close_all (nat (node_numbers (unused_pool p))) (unused_pool p) live of
          (un, live) \<Rightarrow> p\<lparr>used_pool := us, unused_pool := un, open_conns := live\<rparr>)"

section \<open>The invariant\<close>

definition cfg_ok :: "db_info \<Rightarrow> bool" where
  "cfg_ok d \<longleftrightarrow> 1 \<le> MIN_IDLE d \<and> MIN_IDLE d \<le> MAX_IDLE d \<and> 1 \<le> MAX_CONN d"

definition pool_inv :: "pool \<Rightarrow> bool" where
  "pool_inv p \<longleftrightarrow> cfg_ok (cfg p) \<and> pl_inv (unused_pool p) \<and> pl_inv (used_pool p) \<and>
     set (conns (unused_pool p)) \<inter> set (conns (used_pool p)) = {} \<and>
     addrs (unused_pool p) \<inter> addrs (used_pool p) = {} \<and>
     set (conns (unused_pool p)) \<union> set (conns (used_pool p)) \<subseteq> set (open_conns p) \<and>
     distinct (open_conns p) \<and> 0 < next_addr p \<and>
     set (open_conns p) \<subseteq> {..<next_addr p} \<and> addrs (unused_pool p) \<union> addrs (used_pool p) \<subseteq> {..<next_addr p} \<and>
     node_numbers (unused_pool p) \<le> MAX_IDLE (cfg p) \<and> node_numbers (used_pool p) \<le> MAX_CONN (cfg p)"

lemma pool_invD [dest]:
  assumes "pool_inv p"
  shows "pl_inv (unused_pool p)" "pl_inv (used_pool p)"
    "set (conns (unused_pool p)) \<inter> set (conns (used_pool p)) = {}"
    "addrs (unused_pool p) \<inter> addrs (used_pool p) = {}"
    "node_numbers (unused_pool p) \<le> MAX_IDLE (cfg p)" "node_numbers (used_pool p) \<le> MAX_CONN (cfg p)"
  using assms by (simp_all add: pool_inv_def)

text \<open>One opened connection.\<close>

lemma add_turn_inv:
  assumes "pool_inv p" "node_numbers (unused_pool p) < MAX_IDLE (cfg p)"
  defines "q \<equiv> p\<lparr>unused_pool := add_node_conn (next_addr p + 1) (unused_pool p) (next_addr p),
    next_addr := next_addr p + 2, open_conns := next_addr p # open_conns p\<rparr>"
  shows "pool_inv q \<and> conns (unused_pool q) = next_addr p # conns (unused_pool p)"
proof -
  let ?m = "next_addr p"
  have m: "?m \<noteq> 0" "?m \<notin> set (conns (unused_pool p))" "?m \<notin> set (conns (used_pool p))"
    "?m + 1 \<notin> addrs (unused_pool p)" "?m + 1 \<notin> addrs (used_pool p)" "?m \<notin> set (open_conns p)"
    using assms(1) unfolding pool_inv_def by (auto simp: subset_iff)
  have pl: "pl_inv (unused_pool p)" using assms(1) by blast
  note a = pl.add_abs [OF pl m(1,2,4)] pl.count_add [OF pl m(1,2,4)]
  show ?thesis
    using assms(1,2) m a unfolding pool_inv_def q_def by (auto simp: subset_iff less_Suc_eq)
qed


text \<open>Handing over, dropping a used node and dropping the head of the unused list.\<close>

lemma move_inv:
  assumes "pool_inv p" "c \<in> set (conns (unused_pool p))" "node_numbers (used_pool p) < MAX_CONN (cfg p)"
    and "move_node (unused_pool p) (used_pool p) c = (un, us)"
  shows "pool_inv (p\<lparr>unused_pool := un, used_pool := us\<rparr>)"
    and "conns un = remove1 c (conns (unused_pool p))" "conns us = c # conns (used_pool p)"
proof -
  note d = pool_invD [OF assms(1)]
  have c: "c \<notin> set (conns (used_pool p))" using d(3) assms(2) by blast
  note a = pl.move_abs [OF d(1,2) assms(2) c d(4) assms(4)] pl.move_partition [OF d(1-4) assms(2,4)]
  show "conns un = remove1 c (conns (unused_pool p))" "conns us = c # conns (used_pool p)" using a by auto
  show "pool_inv (p\<lparr>unused_pool := un, used_pool := us\<rparr>)"
    using assms(1,3) a unfolding pool_inv_def by simp
qed

lemma move_back_inv:
  assumes "pool_inv p" "c \<in> set (conns (used_pool p))" "node_numbers (unused_pool p) < MAX_IDLE (cfg p)"
    and "move_node (used_pool p) (unused_pool p) c = (us, un)"
  shows "pool_inv (p\<lparr>used_pool := us, unused_pool := un\<rparr>)"
    and "conns us = remove1 c (conns (used_pool p))" "conns un = c # conns (unused_pool p)"
proof -
  note d = pool_invD [OF assms(1)]
  have e: "set (conns (used_pool p)) \<inter> set (conns (unused_pool p)) = {}"
    "addrs (used_pool p) \<inter> addrs (unused_pool p) = {}" using d(3,4) by blast+
  have c: "c \<notin> set (conns (unused_pool p))" using d(3) assms(2) by blast
  note a = pl.move_abs [OF d(2,1) assms(2) c e(2) assms(4)] pl.move_partition [OF d(2,1) e assms(2,4)]
  show "conns us = remove1 c (conns (used_pool p))" "conns un = c # conns (unused_pool p)" using a by auto
  show "pool_inv (p\<lparr>used_pool := us, unused_pool := un\<rparr>)"
    using assms(1,3) a unfolding pool_inv_def by (simp add: Int_commute Un_commute)
qed

lemma pool_inv_shrink:
  assumes "pool_inv p" "pl_inv un" "pl_inv us"
    and "set (conns un) \<subseteq> set (conns (unused_pool p))" "set (conns us) \<subseteq> set (conns (used_pool p))"
    and "addrs un \<subseteq> addrs (unused_pool p)" "addrs us \<subseteq> addrs (used_pool p)"
    and "node_numbers un \<le> node_numbers (unused_pool p)" "node_numbers us \<le> node_numbers (used_pool p)"
  shows "pool_inv (p\<lparr>unused_pool := un, used_pool := us\<rparr>)"
proof -
  have "set (conns un) \<inter> set (conns us) = {}" "addrs un \<inter> addrs us = {}"
    using pool_invD(3,4) [OF assms(1)] assms(4-7) by blast+
  moreover have "set (conns un) \<union> set (conns us) \<subseteq> set (open_conns p)"
    "addrs un \<union> addrs us \<subseteq> {..<next_addr p}"
    using assms(1,4-7) unfolding pool_inv_def by blast+
  moreover have "node_numbers un \<le> MAX_IDLE (cfg p)" "node_numbers us \<le> MAX_CONN (cfg p)"
    using pool_invD(5,6) [OF assms(1)] assms(8,9) by linarith+
  ultimately show ?thesis using assms(1-3) unfolding pool_inv_def by simp
qed

lemma drop_inv:
  assumes "pool_inv p" "c \<in> set (conns (used_pool p))"
  shows "pool_inv (p\<lparr>used_pool := delete_node_conn (used_pool p) c\<rparr>)"
    "conns (delete_node_conn (used_pool p) c) = remove1 c (conns (used_pool p))"
proof -
  note d = pool_invD [OF assms(1)]
  note a = pl.del_abs [OF d(2) assms(2)] pl.count_del [OF d(2) assms(2)]
  have s: "set (remove1 c (conns (used_pool p))) \<subseteq> set (conns (used_pool p))" by (rule set_remove1_subset)
  show "conns (delete_node_conn (used_pool p) c) = remove1 c (conns (used_pool p))" using a by simp
  show "pool_inv (p\<lparr>used_pool := delete_node_conn (used_pool p) c\<rparr>)"
    using pool_inv_shrink [OF assms(1) d(1), of "delete_node_conn (used_pool p) c"] a s by simp
qed

lemma drop_head_inv:
  assumes "pool_inv p"
  shows "pool_inv (p\<lparr>unused_pool := delete_head (unused_pool p)\<rparr>)"
    "conns (delete_head (unused_pool p)) = tl (conns (unused_pool p))"
proof -
  note d = pool_invD [OF assms(1)]
  note a = pl.del_head_abs [OF d(1)]
  have "node_numbers (delete_head (unused_pool p)) \<le> node_numbers (unused_pool p)"
    using pl.count_abs [of "delete_head (unused_pool p)"] pl.count_abs [OF d(1)] a by simp
  moreover have "set (tl (conns (unused_pool p))) \<subseteq> set (conns (unused_pool p))"
    by (cases "conns (unused_pool p)") auto
  ultimately show "pool_inv (p\<lparr>unused_pool := delete_head (unused_pool p)\<rparr>)"
    using pool_inv_shrink [OF assms(1) _ d(2), of "delete_head (unused_pool p)"] a by simp
  show "conns (delete_head (unused_pool p)) = tl (conns (unused_pool p))" using a by simp
qed

section \<open>The operations keep it\<close>

lemma add_turns_spec:
  assumes "pool_inv p" "node_numbers (unused_pool p) + int k \<le> MAX_IDLE (cfg p)"
    and "add_turns k os p = Some (p', os')"
  shows "pool_inv p' \<and> node_numbers (unused_pool p') = node_numbers (unused_pool p) + int k \<and>
    used_pool p' = used_pool p \<and> cfg p' = cfg p \<and> os' = drop k os"
  using assms
proof (induction k os p rule: add_turns.induct)
  case (3 k ok os p)
  let ?q = "p\<lparr>unused_pool := add_node_conn (next_addr p + 1) (unused_pool p) (next_addr p),
    next_addr := next_addr p + 2, open_conns := next_addr p # open_conns p\<rparr>"
  have t: "pool_inv ?q \<and> conns (unused_pool ?q) = next_addr p # conns (unused_pool p)"
    using 3 by (intro add_turn_inv) simp_all
  then have n: "node_numbers (unused_pool ?q) = node_numbers (unused_pool p) + 1"
    using "3.prems"(1) by (auto simp: pl.count_abs dest!: pool_invD(1))
  have ok: ok and r: "add_turns k os ?q = Some (p', os')"
    using "3.prems"(3) by (simp_all add: Let_def split: if_splits)
  have "pool_inv p' \<and> node_numbers (unused_pool p') = node_numbers (unused_pool ?q) + int k \<and>
      used_pool p' = used_pool ?q \<and> cfg p' = cfg ?q \<and> os' = drop k os"
    using "3.IH" [OF _ refl] ok t n r "3.prems"(2) by (simp add: Let_def)
  then show ?case using n by simp
qed simp_all

lemma add_turns_succeeds:
  "k \<le> length os \<Longrightarrow> list_all id (take k os) \<Longrightarrow> \<exists>p'. add_turns k os p = Some (p', drop k os)"
  by (induction k os p rule: add_turns.induct) (auto simp: Let_def)

lemma clamp_add_le: "pool_inv p \<Longrightarrow> node_numbers (unused_pool p) + int (nat (clamp_add p k)) \<le> MAX_IDLE (cfg p)"
  using pool_invD(5) [of p] by (simp add: clamp_add_def)

lemma add_connection_inv:
  assumes "pool_inv p" "add_connection k os p = Some (p', os')"
  shows "pool_inv p' \<and> node_numbers (unused_pool p') = node_numbers (unused_pool p) + max 0 (clamp_add p k) \<and>
    used_pool p' = used_pool p \<and> cfg p' = cfg p"
  using add_turns_spec [OF assms(1) clamp_add_le [OF assms(1)]] assms(2) by (simp add: add_connection_def)

lemma delete_turns_inv: "pool_inv p \<Longrightarrow> pool_inv (delete_turns k p) \<and>
    conns (unused_pool (delete_turns k p)) = drop k (conns (unused_pool p)) \<and>
    used_pool (delete_turns k p) = used_pool p \<and> open_conns (delete_turns k p) = open_conns p \<and>
    cfg (delete_turns k p) = cfg p"
  by (induction k p rule: delete_turns.induct) (simp_all add: drop_head_inv drop_Suc)

lemma empty_pool_inv: "cfg_ok d \<Longrightarrow> pool_inv \<lparr>cfg = d, unused_pool = new_pool_list,
    used_pool = new_pool_list, next_addr = 1, open_conns = []\<rparr>"
  using pl.inv_empty pl.abs_empty pl.nodes_empty
  by (simp add: pool_inv_def cfg_ok_def new_pool_list_def)


lemma delete_connection_inv: "pool_inv p \<Longrightarrow> pool_inv (delete_connection k p) \<and>
    used_pool (delete_connection k p) = used_pool p \<and> open_conns (delete_connection k p) = open_conns p"
  by (simp add: delete_connection_def Let_def delete_turns_inv)

lemma recycle_back:
  assumes "pool_inv p" "c \<in> set (conns (used_pool p))" "node_numbers (unused_pool p) \<noteq> MAX_IDLE (cfg p)"
  shows "pool_inv (recycle_connection c p)"
    "conns (used_pool (recycle_connection c p)) = remove1 c (conns (used_pool p))"
    "conns (unused_pool (recycle_connection c p)) = c # conns (unused_pool p)"
    "open_conns (recycle_connection c p) = open_conns p" "cfg (recycle_connection c p) = cfg p"
proof -
  have c: "c \<noteq> 0" using pl.abs_inv [OF pool_invD(2) [OF assms(1)]] assms(2) by metis
  obtain us un where m: "move_node (used_pool p) (unused_pool p) c = (us, un)" by force
  have r: "recycle_connection c p = p\<lparr>used_pool := us, unused_pool := un\<rparr>"
    using assms(2,3) c pool_invD(2) [OF assms(1)]
    by (simp add: recycle_connection_def recycle_body_def pl.has_abs pop_connection2_def m)
  have n: "node_numbers (unused_pool p) < MAX_IDLE (cfg p)" using pool_invD(5) [OF assms(1)] assms(3) by simp
  note b = move_back_inv [OF assms(1,2) n m]
  show "pool_inv (recycle_connection c p)"
    "conns (used_pool (recycle_connection c p)) = remove1 c (conns (used_pool p))"
    "conns (unused_pool (recycle_connection c p)) = c # conns (unused_pool p)"
    "open_conns (recycle_connection c p) = open_conns p" "cfg (recycle_connection c p) = cfg p"
    unfolding r using b by simp_all
qed

lemma recycle_drop:
  assumes "pool_inv p" "c \<in> set (conns (used_pool p))" "node_numbers (unused_pool p) = MAX_IDLE (cfg p)"
  shows "recycle_connection c p = p\<lparr>used_pool := delete_node_conn (used_pool p) c\<rparr>"
proof -
  have "c \<noteq> 0" using pl.abs_inv [OF pool_invD(2) [OF assms(1)]] assms(2) by metis
  then show ?thesis using assms pool_invD(2) [OF assms(1)] by (simp add: recycle_connection_def recycle_body_def pl.has_abs)
qed

text \<open>Anything the used list does not hold, the null pointer included, is ignored.\<close>

lemma recycle_ignored:
  assumes "pool_inv p" "c \<notin> set (conns (used_pool p))"
  shows "recycle_connection c p = p"
proof (cases "c = 0")
  case True
  then show ?thesis
    by (simp add: recycle_connection_def recycle_body_def delete_node_conn_def pop_connection2_def move_node_def)
next
  case False
  then show ?thesis using assms pool_invD(2) [OF assms(1)] by (simp add: recycle_connection_def recycle_body_def pl.has_abs)
qed

lemma recycle_inv: "pool_inv p \<Longrightarrow> pool_inv (recycle_connection c p)"
  by (cases "c \<in> set (conns (used_pool p))"; cases "node_numbers (unused_pool p) = MAX_IDLE (cfg p)")
    (simp_all add: recycle_back recycle_drop recycle_ignored drop_inv)

lemma get_pass_pop:
  assumes "pool_inv p" "node_numbers (used_pool p) \<noteq> MAX_CONN (cfg p)"
    and "MIN_IDLE (cfg p) < node_numbers (unused_pool p)"
  shows "\<exists>c p'. get_pass os p = Popped c p' os \<and> pool_inv p' \<and> conns (unused_pool p) = c # conns (unused_pool p') \<and>
    conns (used_pool p') = c # conns (used_pool p) \<and> c \<notin> set (conns (used_pool p)) \<and>
    cfg p' = cfg p \<and> open_conns p' = open_conns p"
proof -
  note d = pool_invD [OF assms(1)]
  let ?c = "head_connection (unused_pool p)"
  have "0 < node_numbers (unused_pool p)" using assms(1,3) by (simp add: pool_inv_def cfg_ok_def)
  then have ne: "conns (unused_pool p) \<noteq> []" by (rule pl.abs_nonempty [OF d(1)])
  then have c: "?c \<in> set (conns (unused_pool p))" using pl.first_in [OF d(1)] by blast
  have hd: "conns (unused_pool p) = ?c # tl (conns (unused_pool p))"
    using ne pl.first_abs [OF d(1)] by (cases "conns (unused_pool p)") simp_all
  obtain un us where m: "move_node (unused_pool p) (used_pool p) ?c = (un, us)" by force
  have u: "node_numbers (used_pool p) < MAX_CONN (cfg p)" using d(6) assms(2) by simp
  have g: "get_pass os p = Popped ?c (p\<lparr>unused_pool := un, used_pool := us\<rparr>) os"
    using assms(2,3) by (simp add: get_pass_def pop_head2_def pop_connection2_def m)
  have t: "conns un = tl (conns (unused_pool p))" using move_inv(2) [OF assms(1) c u m] hd
    by (metis remove1.simps(2))
  have "?c \<notin> set (conns (used_pool p))" using c d(3) by blast
  with g t hd move_inv [OF assms(1) c u m] show ?thesis by (intro exI) (auto)
qed

lemma get_pass_inv:
  assumes "pool_inv p" "get_pass os p = Again p' os'"
  shows "pool_inv p' \<and> used_pool p' = used_pool p \<and> cfg p' = cfg p"
proof (cases "node_numbers (used_pool p) = MAX_CONN (cfg p)")
  case False
  show ?thesis
  proof (cases "node_numbers (unused_pool p) \<le> MIN_IDLE (cfg p)")
    case True
    then show ?thesis using assms False
      by (auto simp: get_pass_def split: option.splits dest: add_connection_inv)
  next
    case low: False
    then show ?thesis using assms False get_pass_pop [OF assms(1) False, of os] by auto
  qed
qed (use assms in \<open>simp add: get_pass_def\<close>)


lemma new_pool_inv:
  assumes "cfg_ok d" "new_pool d os = Some (p, os')"
  shows "pool_inv p \<and> node_numbers (unused_pool p) = MIN_IDLE d \<and> used_pool p = new_pool_list \<and>
    cfg p = d \<and> os' = drop (nat (MIN_IDLE d)) os"
proof -
  let ?e = "\<lparr>cfg = d, unused_pool = new_pool_list, used_pool = new_pool_list, next_addr = 1, open_conns = []\<rparr>"
  have i: "pool_inv ?e" using assms(1) by (rule empty_pool_inv)
  have k: "clamp_add ?e (MIN_IDLE d) = MIN_IDLE d" and b: "node_numbers (unused_pool ?e) + int (nat (MIN_IDLE d)) \<le> MAX_IDLE (cfg ?e)"
    using assms(1) by (simp_all add: clamp_add_def new_pool_list_def cfg_ok_def)
  have t: "add_turns (nat (MIN_IDLE d)) os ?e = Some (p, os')"
    using assms(2) k by (simp add: new_pool_def add_connection_def)
  from add_turns_spec [OF i b t] assms(1) show ?thesis by (simp add: new_pool_list_def cfg_ok_def)
qed

text \<open>One refill makes an idle connection available.\<close>

lemma get_connection_refill:
  assumes "pool_inv p" "MIN_IDLE (cfg p) < MAX_IDLE (cfg p)" "node_numbers (used_pool p) \<noteq> MAX_CONN (cfg p)"
    and "list_all id os" "nat (MIN_IDLE (cfg p) + 1) \<le> length os"
  obtains q os1 where "pool_inv q" "used_pool q = used_pool p" "cfg q = cfg p"
    "MIN_IDLE (cfg q) < node_numbers (unused_pool q)"
    "\<forall>c p2 fuel. get_pass os1 q = Popped c p2 os1 \<longrightarrow> 2 \<le> fuel \<longrightarrow> get_connection fuel os p = Connection c p2 os1"
proof (cases "node_numbers (unused_pool p) \<le> MIN_IDLE (cfg p)")
  case False
  have "get_connection fuel os p = Connection c p2 os"
    if "get_pass os p = Popped c p2 os" "2 \<le> fuel" for c p2 fuel
    using that by (cases fuel) simp_all
  with False assms(1) show ?thesis by (intro that [of p os]) simp_all
next
  case True
  let ?k = "MIN_IDLE (cfg p) - node_numbers (unused_pool p) + 1"
  have k: "clamp_add p ?k = ?k" using assms(2) True by (simp add: clamp_add_def)
  have nn: "0 \<le> node_numbers (unused_pool p)" using pl.count_abs [OF pool_invD(1) [OF assms(1)]] by simp
  obtain q where q: "add_connection ?k os p = Some (q, drop (nat ?k) os)"
    using add_turns_succeeds [of "nat ?k" os p] assms(4,5) nn k
    by (fastforce simp: add_connection_def list_all_iff dest: in_set_takeD)
  have g: "get_pass os p = Again q (drop (nat ?k) os)" using assms(3) True q by (simp add: get_pass_def)
  have "get_connection fuel os p = Connection c p2 (drop (nat ?k) os)"
    if "get_pass (drop (nat ?k) os) q = Popped c p2 (drop (nat ?k) os)" "2 \<le> fuel" for c p2 fuel
  proof -
    from that(2) obtain m where "fuel = Suc (Suc m)" by (metis Suc_le_D numeral_2_eq_2 Suc_le_mono)
    then show ?thesis using g that(1) by simp
  qed
  with add_connection_inv [OF assms(1) q] k True show ?thesis
    by (intro that [of q "drop (nat ?k) os"]) auto
qed

section \<open>Properties of the pool\<close>

text \<open>
  Creating a pool: if the database accepts the first \<open>MIN_IDLE\<close> connections, the constructor ends
  with exactly that many idle connections and none in use, and the pool is well formed.
\<close>

theorem new_pool_ready:
  assumes "cfg_ok d" "nat (MIN_IDLE d) \<le> length os" "list_all id (take (nat (MIN_IDLE d)) os)"
  shows "\<exists>p. new_pool d os = Some (p, drop (nat (MIN_IDLE d)) os) \<and> pool_inv p \<and>
    node_numbers (unused_pool p) = MIN_IDLE d \<and> node_numbers (used_pool p) = 0"
proof -
  let ?e = "\<lparr>cfg = d, unused_pool = new_pool_list, used_pool = new_pool_list, next_addr = 1, open_conns = []\<rparr>"
  have "clamp_add ?e (MIN_IDLE d) = MIN_IDLE d"
    using assms(1) by (simp add: clamp_add_def new_pool_list_def cfg_ok_def)
  then obtain p where p: "new_pool d os = Some (p, drop (nat (MIN_IDLE d)) os)"
    using add_turns_succeeds [OF assms(2,3), of ?e] by (auto simp: new_pool_def add_connection_def)
  from new_pool_inv [OF assms(1) p] p show ?thesis by (intro exI [of _ p]) (simp add: new_pool_list_def)
qed

definition example_conf :: "int \<Rightarrow> int \<Rightarrow> int \<Rightarrow> db_info" where
  "example_conf min_idle max_idle max_conn =
     db_info_default\<lparr>MIN_IDLE := min_idle, MAX_IDLE := max_idle, MAX_CONN := max_conn\<rparr>"

lemma example_conf_ok: "cfg_ok (example_conf i j k) \<longleftrightarrow> 1 \<le> i \<and> i \<le> j \<and> 1 \<le> k"
  by (simp add: example_conf_def cfg_ok_def)

theorem new_pool_ready_witness:
  "\<exists>p. new_pool (example_conf 2 4 5) [True, True, True] = Some (p, [True]) \<and> node_numbers (unused_pool p) = 2"
  using new_pool_ready [of "example_conf 2 4 5" "[True, True, True]"]
  by (simp add: example_conf_ok) (auto simp: example_conf_def)

text \<open>
  C4.  \<open>get_connection\<close> returns: when \<open>MIN_IDLE < MAX_IDLE\<close>, fewer than \<open>MAX_CONN\<close> connections are in
  use and the database accepts connections, two passes through the label \<open>again\<close> are enough.  The
  connection returned was not in use before, is in use afterwards, the others are untouched, at least
  \<open>MIN_IDLE\<close> stay idle, and the pool is well formed.
\<close>

theorem get_connection_serves:
  assumes "pool_inv p" "MIN_IDLE (cfg p) < MAX_IDLE (cfg p)" "node_numbers (used_pool p) < MAX_CONN (cfg p)"
    and "list_all id os" "nat (MIN_IDLE (cfg p) + 1) \<le> length os"
  shows "\<exists>c p' os'. (\<forall>fuel\<ge>2. get_connection fuel os p = Connection c p' os') \<and> pool_inv p' \<and>
    c \<notin> set (conns (used_pool p)) \<and> conns (used_pool p') = c # conns (used_pool p) \<and>
    MIN_IDLE (cfg p) \<le> node_numbers (unused_pool p')"
proof -
  have room: "node_numbers (used_pool p) \<noteq> MAX_CONN (cfg p)" using assms(3) by simp
  obtain q os1 where q: "pool_inv q" "used_pool q = used_pool p" "cfg q = cfg p"
    "MIN_IDLE (cfg q) < node_numbers (unused_pool q)"
    and g: "\<forall>c p2 fuel. get_pass os1 q = Popped c p2 os1 \<longrightarrow> 2 \<le> fuel \<longrightarrow>
      get_connection fuel os p = Connection c p2 os1"
    using get_connection_refill [OF assms(1,2) room assms(4,5)] .
  obtain c p2 where c: "get_pass os1 q = Popped c p2 os1" "pool_inv p2"
    "conns (unused_pool q) = c # conns (unused_pool p2)" "c \<notin> set (conns (used_pool q))"
    "conns (used_pool p2) = c # conns (used_pool q)"
    using get_pass_pop [OF q(1) _ q(4), of os1] room q(2,3) by auto
  have "node_numbers (unused_pool q) = node_numbers (unused_pool p2) + 1"
    using c(3) pl.count_abs [OF pool_invD(1) [OF q(1)]] pl.count_abs [OF pool_invD(1) [OF c(2)]] by simp
  with c q g show ?thesis by (intro exI [of _ c] exI [of _ p2] exI [of _ os1]) simp
qed

theorem get_connection_serves_witness:
  "\<exists>p c p' os'. new_pool (example_conf 2 4 5) (replicate 9 True) = Some (p, replicate 7 True) \<and>
     get_connection 2 (replicate 7 True) p = Connection c p' os' \<and> conns (used_pool p') = [c]"
proof -
  let ?d = "example_conf 2 4 5"
  have "new_pool ?d (replicate 9 True) \<noteq> None" by code_simp
  then obtain p os where n: "new_pool ?d (replicate 9 True) = Some (p, os)" by auto
  have c: "cfg_ok ?d" by (simp add: example_conf_ok)
  note i = new_pool_inv [OF c n]
  have os: "os = replicate 7 True" using i by (simp add: example_conf_def)
  obtain c p' os' where "get_connection 2 os p = Connection c p' os'" "conns (used_pool p') = c # conns (used_pool p)"
    using get_connection_serves [of p os] i os by (auto simp: example_conf_def new_pool_list_def list_all_iff)
  then show ?thesis using n i os by (auto simp: new_pool_list_def conns_def)
qed

text \<open>
  The bounds \<open>DBInfo\<close> accepts include \<open>MIN_IDLE = MAX_IDLE\<close>, and with them a fresh pool never hands
  out a connection: \<open>add_connection\<close> has no room to get above \<open>MIN_IDLE\<close>, and \<open>get_connection\<close> goes back
  to \<open>again\<close> however often it is tried.
\<close>

theorem get_connection_livelock:
  assumes "cfg_ok d" "MIN_IDLE d = MAX_IDLE d" "new_pool d os = Some (p, os')"
  shows "get_connection fuel os' p = Looping"
proof -
  note i = new_pool_inv [OF assms(1,3)]
  have "get_pass os' p = Again p os'"
    using i assms(1,2) by (simp add: get_pass_def add_connection_def clamp_add_def)
  then show ?thesis by (induction fuel) simp_all
qed

theorem get_connection_livelock_witness:
  "\<exists>p. new_pool (example_conf 3 3 5) (replicate 9 True) = Some (p, replicate 6 True) \<and>
     get_connection 1000 (replicate 6 True) p = Looping"
proof -
  let ?d = "example_conf 3 3 5"
  have "new_pool ?d (replicate 9 True) \<noteq> None" by code_simp
  then obtain p os where n: "new_pool ?d (replicate 9 True) = Some (p, os)" by auto
  have c: "cfg_ok ?d" "MIN_IDLE ?d = MAX_IDLE ?d" by (simp_all add: example_conf_ok) (simp add: example_conf_def)
  have "os = replicate 6 True" using new_pool_inv [OF c(1) n] by (simp add: example_conf_def)
  with get_connection_livelock [OF c n] n show ?thesis by blast
qed

text \<open>
  A thread that holds the last connection the bound \<open>MAX_CONN\<close> allows and asks for another one
  waits for ever: the first request is served, and no number of passes serves the second.
\<close>

theorem get_connection_exhausted:
  assumes "pool_inv p" "MIN_IDLE (cfg p) < MAX_IDLE (cfg p)" "MAX_CONN (cfg p) = node_numbers (used_pool p) + 1"
    and "list_all id os" "nat (MIN_IDLE (cfg p) + 1) \<le> length os"
  shows "\<exists>c p' os'. get_connection 2 os p = Connection c p' os' \<and>
    (\<forall>fuel os''. get_connection fuel os'' p' = Looping)"
proof -
  have stuck: "get_connection fuel os'' q = Looping"
    if "node_numbers (used_pool q) = MAX_CONN (cfg q)" for fuel os'' q
    using that by (induction fuel) (simp_all add: get_pass_def)
  have room: "node_numbers (used_pool p) \<noteq> MAX_CONN (cfg p)" using assms(3) by simp
  obtain q os1 where q: "pool_inv q" "used_pool q = used_pool p" "cfg q = cfg p"
    "MIN_IDLE (cfg q) < node_numbers (unused_pool q)"
    and g: "\<forall>c p2 fuel. get_pass os1 q = Popped c p2 os1 \<longrightarrow> 2 \<le> fuel \<longrightarrow>
      get_connection fuel os p = Connection c p2 os1"
    using get_connection_refill [OF assms(1,2) room assms(4,5)] .
  obtain c p2 where c: "get_pass os1 q = Popped c p2 os1" "pool_inv p2"
    "conns (used_pool p2) = c # conns (used_pool q)" "cfg p2 = cfg q"
    using get_pass_pop [OF q(1), of os1] room q by auto
  have "node_numbers (used_pool p2) = MAX_CONN (cfg p2)"
    using c q(2,3) assms(1,3) by (simp add: pl.count_abs pool_invD)
  with c(1) g show ?thesis by (intro exI [of _ c] exI [of _ p2] exI [of _ os1]) (simp add: stuck)
qed


theorem get_connection_exhausted_witness:
  "\<exists>p c p' os'. new_pool (example_conf 2 4 1) (replicate 9 True) = Some (p, replicate 7 True) \<and>
     get_connection 2 (replicate 7 True) p = Connection c p' os' \<and> get_connection 1000 os' p' = Looping"
proof -
  let ?d = "example_conf 2 4 1"
  have "new_pool ?d (replicate 9 True) \<noteq> None" by code_simp
  then obtain p os where n: "new_pool ?d (replicate 9 True) = Some (p, os)" by auto
  have c: "cfg_ok ?d" by (simp add: example_conf_ok)
  note i = new_pool_inv [OF c n]
  have os: "os = replicate 7 True" using i by (simp add: example_conf_def)
  show ?thesis using get_connection_exhausted [of p os] i os n
    by (auto simp: example_conf_def new_pool_list_def list_all_iff)
qed

text \<open>
  \<open>recycle_connection\<close> undoes a hand-out and is safe to repeat: a connection in use goes to the
  front of the idle list, unless that is full, nothing else changes, and recycling it again, or
  recycling a pointer the pool never handed out (the null pointer included), does nothing.
\<close>

theorem recycle_connection_returns:
  assumes "pool_inv p" "node_numbers (unused_pool p) < MAX_IDLE (cfg p)"
  shows "pool_inv (recycle_connection c p) \<and>
    (if c \<in> set (conns (used_pool p))
     then conns (unused_pool (recycle_connection c p)) = c # conns (unused_pool p) \<and>
       conns (used_pool (recycle_connection c p)) = remove1 c (conns (used_pool p)) \<and>
       recycle_connection c (recycle_connection c p) = recycle_connection c p
     else recycle_connection c p = p)"
proof (cases "c \<in> set (conns (used_pool p))")
  case True
  note b = recycle_back [OF assms(1) True] 
  have n: "node_numbers (unused_pool p) \<noteq> MAX_IDLE (cfg p)" using assms(2) by simp
  have "c \<notin> set (conns (used_pool (recycle_connection c p)))"
    using b(2) [OF n] pl.abs_inv [OF pool_invD(2) [OF assms(1)]] by simp
  with b [OF n] recycle_ignored [OF b(1) [OF n]] True show ?thesis by simp
qed (use assms in \<open>simp add: recycle_ignored\<close>)

theorem recycle_connection_returns_witness:
  "\<exists>p c p' os'. new_pool (example_conf 2 4 5) (replicate 9 True) = Some (p, replicate 7 True) \<and>
     get_connection 2 (replicate 7 True) p = Connection c p' os' \<and> c \<in> set (conns (used_pool p')) \<and>
     conns (unused_pool (recycle_connection c p')) = c # conns (unused_pool p')"
proof -
  let ?d = "example_conf 2 4 5"
  have "new_pool ?d (replicate 9 True) \<noteq> None" by code_simp
  then obtain p os where n: "new_pool ?d (replicate 9 True) = Some (p, os)" by auto
  have c: "cfg_ok ?d" by (simp add: example_conf_ok)
  note i = new_pool_inv [OF c n]
  have os: "os = replicate 7 True" using i by (simp add: example_conf_def)
  obtain q os1 where q: "pool_inv q" "used_pool q = used_pool p" "cfg q = cfg p"
    "MIN_IDLE (cfg q) < node_numbers (unused_pool q)"
    and g: "\<forall>c p2 fuel. get_pass os1 q = Popped c p2 os1 \<longrightarrow> 2 \<le> fuel \<longrightarrow>
      get_connection fuel os p = Connection c p2 os1"
    using get_connection_refill [of p os] i os by (auto simp: example_conf_def new_pool_list_def list_all_iff)
  obtain c p2 where c2: "get_pass os1 q = Popped c p2 os1" "pool_inv p2" "cfg p2 = cfg q"
    "conns (unused_pool q) = c # conns (unused_pool p2)" "conns (used_pool p2) = c # conns (used_pool q)"
    using get_pass_pop [OF q(1) _ q(4), of os1] q(2,3) i by (auto simp: example_conf_def new_pool_list_def)
  have "node_numbers (unused_pool q) = node_numbers (unused_pool p2) + 1"
    using c2(4) pl.count_abs [OF pool_invD(1) [OF q(1)]] pl.count_abs [OF pool_invD(1) [OF c2(2)]] by simp
  moreover have "node_numbers (unused_pool q) \<le> MAX_IDLE (cfg p2)" using pool_invD(5) [OF q(1)] c2(3) by simp
  ultimately have "node_numbers (unused_pool p2) < MAX_IDLE (cfg p2)" by simp
  from recycle_connection_returns [OF c2(2) this, of c] c2(5) g c2(1) n os
  show ?thesis by (intro exI [of _ p] exI [of _ c] exI [of _ p2] exI [of _ os1]) simp
qed


section \<open>Every history of calls\<close>

inductive pool_run :: "db_info \<Rightarrow> pool \<Rightarrow> bool" for d where
  start: "new_pool d os = Some (p, os') \<Longrightarrow> pool_run d p"
| add: "pool_run d p \<Longrightarrow> add_connection k os p = Some (p', os') \<Longrightarrow> pool_run d p'"
| delete: "pool_run d p \<Longrightarrow> pool_run d (delete_connection k p)"
| get: "pool_run d p \<Longrightarrow> get_connection fuel os p = Connection c p' os' \<Longrightarrow> pool_run d p'"
| recycle: "pool_run d p \<Longrightarrow> pool_run d (recycle_connection c p)"

definition pool_good :: "db_info \<Rightarrow> pool \<Rightarrow> bool" where
  "pool_good d p \<longleftrightarrow> pool_inv p \<and> cfg p = d \<and> MIN_IDLE d \<le> node_numbers (unused_pool p)"

lemma delete_connection_good:
  assumes "pool_good d p"
  shows "pool_good d (delete_connection k p)"
proof -
  let ?n = "nat (if node_numbers (unused_pool p) - k < MIN_IDLE (cfg p)
    then node_numbers (unused_pool p) - MIN_IDLE (cfg p) else k)"
  have i: "pool_inv p" "cfg p = d" "MIN_IDLE d \<le> node_numbers (unused_pool p)"
    using assms by (simp_all add: pool_good_def)
  have q: "delete_connection k p = delete_turns ?n p" by (simp add: delete_connection_def Let_def)
  note t = delete_turns_inv [OF i(1), of ?n]
  have "node_numbers (unused_pool (delete_turns ?n p)) = int (length (drop ?n (conns (unused_pool p))))"
    using t pl.count_abs [OF pool_invD(1)] by metis
  moreover have "node_numbers (unused_pool p) = int (length (conns (unused_pool p)))"
    using pl.count_abs [OF pool_invD(1) [OF i(1)]] .
  ultimately show ?thesis using t i unfolding q pool_good_def by (simp split: if_splits)
qed

lemma recycle_good: "pool_good d p \<Longrightarrow> pool_good d (recycle_connection c p)"
  unfolding pool_good_def
  using pl.count_abs [OF pool_invD(1), of "recycle_connection c p"] pl.count_abs [OF pool_invD(1), of p]
  by (cases "c \<in> set (conns (used_pool p))"; cases "node_numbers (unused_pool p) = MAX_IDLE (cfg p)")
    (auto simp: recycle_inv recycle_ignored recycle_drop recycle_back drop_inv(1))

lemma get_pass_good:
  assumes "pool_good d p"
  shows "get_pass os p = Again p' os' \<Longrightarrow> pool_good d p'" "get_pass os p = Popped c p' os' \<Longrightarrow> pool_good d p'"
proof -
  have i: "pool_inv p" "cfg p = d" "MIN_IDLE d \<le> node_numbers (unused_pool p)"
    using assms by (simp_all add: pool_good_def)
  show "pool_good d p'" if "get_pass os p = Again p' os'"
    using that assms add_connection_inv [OF i(1), of _ os p' os']
    by (auto simp: get_pass_def pool_good_def split: if_splits option.splits prod.splits)
  show "pool_good d p'" if g: "get_pass os p = Popped c p' os'"
  proof -
    have h: "node_numbers (used_pool p) \<noteq> MAX_CONN (cfg p)" "MIN_IDLE (cfg p) < node_numbers (unused_pool p)"
      using g by (auto simp: get_pass_def split: if_splits option.splits)
    have j: "pool_inv p'" "conns (unused_pool p) = c # conns (unused_pool p')" "cfg p' = cfg p"
      using get_pass_pop [OF i(1) h, of os] g by auto
    then have "node_numbers (unused_pool p) = node_numbers (unused_pool p') + 1"
      using pl.count_abs [OF pool_invD(1) [OF i(1)]] pl.count_abs [OF pool_invD(1) [OF j(1)]] by simp
    with h j i show ?thesis by (simp add: pool_good_def)
  qed
qed

lemma get_connection_good:
  "get_connection fuel os p = Connection c p' os' \<Longrightarrow> pool_good d p \<Longrightarrow> pool_good d p'"
  by (induction fuel os p rule: get_connection.induct) (auto split: pass.splits dest: get_pass_good)

lemma pool_run_good: "pool_run d p \<Longrightarrow> cfg_ok d \<Longrightarrow> pool_good d p"
proof (induction rule: pool_run.induct)
  case (start os p os')
  then show ?case using new_pool_inv [OF start(2,1)] by (simp add: pool_good_def)
next
  case (add p k os p' os')
  then show ?case using add_connection_inv [of p k os p' os'] by (auto simp: pool_good_def)
qed (simp_all add: delete_connection_good recycle_good get_connection_good)




lemma close_all_spec:
  assumes "pl_inv l" "distinct live" "set (conns l) \<subseteq> set live"
  shows "close_all (nat (node_numbers l)) l live = (l', live') \<Longrightarrow>
    conns l' = [] \<and> set live' = set live - set (conns l) \<and> distinct live'"
  using assms
proof (induction "nat (node_numbers l)" arbitrary: l live)
  case 0
  then show ?case using pl.count_abs [OF "0.prems"(2)] by simp
next
  case (Suc k)
  have n: "0 < node_numbers l" using Suc.hyps(2) by simp
  obtain c cs where cs: "conns l = c # cs" using pl.abs_nonempty [OF Suc.prems(2) n] by (cases "conns l") auto
  have h: "head_connection l = c" using pl.first_abs [OF Suc.prems(2)] cs by simp
  have d: "pl_inv (delete_head l)" "conns (delete_head l) = cs"
    using pl.del_head_abs [OF Suc.prems(2)] cs by auto
  have m: "k = nat (node_numbers (delete_head l))"
    using Suc.hyps(2) pl.count_del_head [OF Suc.prems(2)] cs by simp
  have e: "close_all (nat (node_numbers (delete_head l))) (delete_head l) (remove1 c live) = (l', live')"
    using Suc.prems(1) Suc.hyps(2) [symmetric] n h m by simp
  have "c \<notin> set cs" using pl.abs_inv [OF Suc.prems(2)] cs by simp
  then have "set cs \<subseteq> set (remove1 c live)" using Suc.prems(3,4) cs by (auto simp: set_remove1_eq)
  from Suc.hyps(1) [OF m e d(1) _ this [folded d(2)]] Suc.prems(3) d(2) cs
  show ?case by (auto simp: set_remove1_eq distinct_remove1)
qed

lemma destroy_pool_closes:
  assumes "pool_inv p"
  shows "conns (unused_pool (destroy_pool p)) = [] \<and> conns (used_pool (destroy_pool p)) = [] \<and>
    set (open_conns (destroy_pool p)) =
      set (open_conns p) - set (conns (unused_pool p)) - set (conns (used_pool p))"
proof -
  note i = pool_invD [OF assms]
  have o: "distinct (open_conns p)" "set (conns (used_pool p)) \<subseteq> set (open_conns p)"
    "set (conns (unused_pool p)) \<subseteq> set (open_conns p)" using assms unfolding pool_inv_def by blast+
  obtain us l1 where u: "close_all (nat (node_numbers (used_pool p))) (used_pool p) (open_conns p) = (us, l1)"
    by force
  note u1 = close_all_spec [OF i(2) o(1,2) u]
  obtain un l2 where v: "close_all (nat (node_numbers (unused_pool p))) (unused_pool p) l1 = (un, l2)"
    by force
  have "set (conns (unused_pool p)) \<subseteq> set l1" using u1 o(3) i(3) by blast
  note v1 = close_all_spec [OF i(1) _ this v]
  show ?thesis using u1 v1 by (auto simp: destroy_pool_def u v)
qed

text \<open>
  What recycling into a full idle list costs: the connection is dropped from the pool without
  \<open>mysql_close\<close>, so it stays open, and even the destructor, which closes everything the two lists hold,
  no longer reaches it.
\<close>

theorem recycle_connection_leaks:
  assumes "pool_inv p" "c \<in> set (conns (used_pool p))" "node_numbers (unused_pool p) = MAX_IDLE (cfg p)"
  shows "c \<notin> set (conns (used_pool (recycle_connection c p)) @ conns (unused_pool (recycle_connection c p))) \<and>
    c \<in> set (open_conns (destroy_pool (recycle_connection c p))) \<and>
    set (open_conns (destroy_pool p)) = set (open_conns p) - set (conns (unused_pool p) @ conns (used_pool p))"
proof -
  note i = pool_invD [OF assms(1)]
  note r = recycle_drop [OF assms] drop_inv [OF assms(1,2)]
  have "c \<notin> set (conns (unused_pool p))" using i(3) assms(2) by blast
  moreover have "c \<notin> set (remove1 c (conns (used_pool p)))" using pl.abs_inv [OF i(2)] by simp
  moreover have "c \<in> set (open_conns p)" using assms(1,2) unfolding pool_inv_def by blast
  ultimately show ?thesis
    using r destroy_pool_closes [OF r(2)] destroy_pool_closes [OF assms(1)] by auto
qed

theorem recycle_connection_leaks_witness:
  "\<exists>p c. c \<in> set (open_conns (destroy_pool (recycle_connection c p))) \<and> cfg p = example_conf 1 2 5"
proof -
  let ?d = "example_conf 1 2 5"
  let ?q = "the (new_pool ?d (replicate 9 True))"
  let ?go = "\<lambda>p. case get_connection 2 (replicate 9 True) p of Connection c p' os' \<Rightarrow> p' | _ \<Rightarrow> p"
  let ?p = "case add_connection 9 (replicate 9 True) (?go (fst ?q)) of Some (p, _) \<Rightarrow> p"
  have v: "?p = \<lparr>cfg = ?d,
      unused_pool = \<lparr>node_numbers = 2, nodes = [\<lparr>node_addr = 6, node_conn = 5\<rparr>, \<lparr>node_addr = 2, node_conn = 1\<rparr>]\<rparr>,
      used_pool = \<lparr>node_numbers = 1, nodes = [\<lparr>node_addr = 4, node_conn = 3\<rparr>]\<rparr>,
      next_addr = 7, open_conns = [5, 3, 1]\<rparr>"
    by code_simp
  have "pool_inv ?p" "3 \<in> set (conns (used_pool ?p))" "node_numbers (unused_pool ?p) = MAX_IDLE (cfg ?p)"
    unfolding v by (simp_all add: pool_inv_def conns_def addrs_def pl_inv_def example_conf_ok)
      (simp_all add: example_conf_def)
  from recycle_connection_leaks [OF this] show ?thesis by (intro exI [of _ ?p] exI [of _ 3]) (simp add: v)
qed

end
