(* ===== verification/PoolThreads.thy ===== *)
theory PoolThreads
  imports ConnPool
begin

text \<open>
  The pool with any number of threads (\<open>src/db/sql_db_pool.hpp\<close>, the two mutexes of
  \<open>src/interface/db_pool.h\<close>).  A thread stands between two calls, or at one of the points of
  \<open>get_connection\<close> and \<open>recycle_connection\<close> where it takes or releases a mutex; what it does while it
  holds the mutexes it needs is one step.  A client recycles only connections it holds.  A failed
  connect ends the process: there is no step after it.
\<close>

section \<open>States and steps\<close>

datatype pc =
    Outside
  | Get_Unused            \<comment> \<open>\<open>again\<close>: about to lock \<open>unused_lock\<close>\<close>
  | Get_Used              \<comment> \<open>has \<open>unused_lock\<close>, about to lock \<open>used_lock\<close>\<close>
  | Get_Test              \<comment> \<open>has both: the two tests, or the pop\<close>
  | Get_Full              \<comment> \<open>\<open>MAX_CONN\<close> in use: has \<open>unused_lock\<close>, will release it and sleep\<close>
  | Get_Low               \<comment> \<open>too few idle: has \<open>used_lock\<close>, will release it\<close>
  | Get_Count             \<comment> \<open>reads the idle counter without a mutex\<close>
  | Add_Lock int          \<comment> \<open>\<open>add_connection\<close>: about to lock \<open>unused_lock\<close>\<close>
  | Add_Body int
  | Add_Unlock
  | Get_Popped            \<comment> \<open>has both, will release \<open>used_lock\<close>\<close>
  | Get_Popped2           \<comment> \<open>has \<open>unused_lock\<close>, will release it and return\<close>
  | Rec_Used nat          \<comment> \<open>\<open>recycle_connection\<close>: about to lock \<open>used_lock\<close>\<close>
  | Rec_Test nat          \<comment> \<open>has \<open>used_lock\<close>\<close>
  | Rec_Unused nat        \<comment> \<open>has \<open>used_lock\<close>, about to lock \<open>unused_lock\<close>\<close>
  | Rec_Body nat          \<comment> \<open>has both\<close>
  | Rec_Done              \<comment> \<open>has both, will release \<open>used_lock\<close>\<close>
  | Rec_Done2             \<comment> \<open>has \<open>unused_lock\<close>, will release it and return\<close>

record sys =
  shared :: pool
  unused_lock :: "nat option"   \<comment> \<open>the thread that has the mutex\<close>
  used_lock :: "nat option"
  at :: "nat \<Rightarrow> pc"
  held :: "nat \<Rightarrow> nat list"     \<comment> \<open>the connections a thread got and has not recycled\<close>
  answers :: "bool list"

definition goto_pc :: "nat \<Rightarrow> pc \<Rightarrow> sys \<Rightarrow> sys" where
  "goto_pc t l \<sigma> = \<sigma>\<lparr>at := (at \<sigma>)(t := l)\<rparr>"

definition lock_unused :: "nat \<Rightarrow> pc \<Rightarrow> sys \<Rightarrow> sys option" where
  "lock_unused t l \<sigma> = (if unused_lock \<sigma> = None then Some (goto_pc t l (\<sigma>\<lparr>unused_lock := Some t\<rparr>)) else None)"

definition lock_used :: "nat \<Rightarrow> pc \<Rightarrow> sys \<Rightarrow> sys option" where
  "lock_used t l \<sigma> = (if used_lock \<sigma> = None then Some (goto_pc t l (\<sigma>\<lparr>used_lock := Some t\<rparr>)) else None)"

definition unlock_unused :: "nat \<Rightarrow> pc \<Rightarrow> sys \<Rightarrow> sys option" where
  "unlock_unused t l \<sigma> = Some (goto_pc t l (\<sigma>\<lparr>unused_lock := None\<rparr>))"

definition unlock_used :: "nat \<Rightarrow> pc \<Rightarrow> sys \<Rightarrow> sys option" where
  "unlock_used t l \<sigma> = Some (goto_pc t l (\<sigma>\<lparr>used_lock := None\<rparr>))"

definition pop_step :: "nat \<Rightarrow> sys \<Rightarrow> sys" where
  "pop_step t \<sigma> =
     (case pop_head2 False (unused_pool (shared \<sigma>)) (used_pool (shared \<sigma>)) of
        (c, un, us) \<Rightarrow> goto_pc t Get_Popped
          (\<sigma>\<lparr>shared := (shared \<sigma>)\<lparr>unused_pool := un, used_pool := us\<rparr>,
             held := (held \<sigma>)(t := c # held \<sigma> t)\<rparr>))"

definition recycle_step :: "nat \<Rightarrow> nat \<Rightarrow> sys \<Rightarrow> sys" where
  "recycle_step t c \<sigma> = goto_pc t Rec_Done
     (\<sigma>\<lparr>shared := recycle_body c (shared \<sigma>), held := (held \<sigma>)(t := remove1 c (held \<sigma> t))\<rparr>)"

text \<open>The next step of thread \<open>t\<close>; \<open>None\<close> when it is blocked or between two calls.\<close>

definition turn :: "nat \<Rightarrow> sys \<Rightarrow> sys option" where
  "turn t \<sigma> = (case at \<sigma> t of
       Outside \<Rightarrow> None
     | Get_Unused \<Rightarrow> lock_unused t Get_Used \<sigma>
     | Get_Used \<Rightarrow> lock_used t Get_Test \<sigma>
     | Get_Test \<Rightarrow>
         if node_numbers (used_pool (shared \<sigma>)) = MAX_CONN (cfg (shared \<sigma>)) then unlock_used t Get_Full \<sigma>
         else if node_numbers (unused_pool (shared \<sigma>)) \<le> MIN_IDLE (cfg (shared \<sigma>))
         then unlock_unused t Get_Low \<sigma>
         else Some (pop_step t \<sigma>)
     | Get_Full \<Rightarrow> unlock_unused t Get_Unused \<sigma>
     | Get_Low \<Rightarrow> unlock_used t Get_Count \<sigma>
     | Get_Count \<Rightarrow>
         Some (goto_pc t (Add_Lock (MIN_IDLE (cfg (shared \<sigma>)) - node_numbers (unused_pool (shared \<sigma>)) + 1)) \<sigma>)
     | Add_Lock k \<Rightarrow> lock_unused t (Add_Body k) \<sigma>
     | Add_Body k \<Rightarrow>
         (case add_connection k (answers \<sigma>) (shared \<sigma>) of None \<Rightarrow> None
          | Some (p, os) \<Rightarrow> Some (goto_pc t Add_Unlock (\<sigma>\<lparr>shared := p, answers := os\<rparr>)))
     | Add_Unlock \<Rightarrow> unlock_unused t Get_Unused \<sigma>
     | Get_Popped \<Rightarrow> unlock_used t Get_Popped2 \<sigma>
     | Get_Popped2 \<Rightarrow> unlock_unused t Outside \<sigma>
     | Rec_Used c \<Rightarrow> lock_used t (Rec_Test c) \<sigma>
     | Rec_Test c \<Rightarrow>
         if \<not> if_exist_conn (used_pool (shared \<sigma>)) c then unlock_used t Outside \<sigma>
         else Some (goto_pc t (Rec_Unused c) \<sigma>)
     | Rec_Unused c \<Rightarrow> lock_unused t (Rec_Body c) \<sigma>
     | Rec_Body c \<Rightarrow> Some (recycle_step t c \<sigma>)
     | Rec_Done \<Rightarrow> unlock_used t Rec_Done2 \<sigma>
     | Rec_Done2 \<Rightarrow> unlock_unused t Outside \<sigma>)"

datatype event = Call_Get nat | Call_Recycle nat nat | Turn nat

fun fire :: "event \<Rightarrow> sys \<Rightarrow> sys option" where
  "fire (Call_Get t) \<sigma> = (if at \<sigma> t = Outside then Some (goto_pc t Get_Unused \<sigma>) else None)"
| "fire (Call_Recycle t c) \<sigma> =
     (if at \<sigma> t = Outside \<and> c \<in> set (held \<sigma> t) then Some (goto_pc t (Rec_Used c) \<sigma>) else None)"
| "fire (Turn t) \<sigma> = turn t \<sigma>"

fun run :: "event list \<Rightarrow> sys \<Rightarrow> sys option" where
  "run [] \<sigma> = Some \<sigma>"
| "run (e # es) \<sigma> = (case fire e \<sigma> of None \<Rightarrow> None | Some \<sigma>' \<Rightarrow> run es \<sigma>')"

definition start_sys :: "pool \<Rightarrow> bool list \<Rightarrow> sys" where
  "start_sys p os = \<lparr>shared = p, unused_lock = None, used_lock = None, at = (\<lambda>_. Outside),
     held = (\<lambda>_. []), answers = os\<rparr>"

lemmas step_defs = goto_pc_def lock_unused_def lock_used_def unlock_unused_def unlock_used_def

section \<open>Mutual exclusion\<close>

fun has_unused :: "pc \<Rightarrow> bool" where
  "has_unused Get_Used = True"
| "has_unused Get_Test = True"
| "has_unused Get_Full = True"
| "has_unused (Add_Body k) = True"
| "has_unused Add_Unlock = True"
| "has_unused Get_Popped = True"
| "has_unused Get_Popped2 = True"
| "has_unused (Rec_Body c) = True"
| "has_unused Rec_Done = True"
| "has_unused Rec_Done2 = True"
| "has_unused _ = False"

fun has_used :: "pc \<Rightarrow> bool" where
  "has_used Get_Test = True"
| "has_used Get_Low = True"
| "has_used Get_Popped = True"
| "has_used (Rec_Test c) = True"
| "has_used (Rec_Unused c) = True"
| "has_used (Rec_Body c) = True"
| "has_used Rec_Done = True"
| "has_used _ = False"

definition locks_inv :: "sys \<Rightarrow> bool" where
  "locks_inv \<sigma> \<longleftrightarrow> (\<forall>t. has_unused (at \<sigma> t) = (unused_lock \<sigma> = Some t)) \<and>
     (\<forall>t. has_used (at \<sigma> t) = (used_lock \<sigma> = Some t))"

lemma turn_locks:
  assumes "locks_inv \<sigma>" "turn t \<sigma> = Some \<sigma>'"
  shows "locks_inv \<sigma>'"
proof -
  have l: "has_unused (at \<sigma> u) = (unused_lock \<sigma> = Some u)" "has_used (at \<sigma> u) = (used_lock \<sigma> = Some u)" for u
    using assms(1) by (simp_all add: locks_inv_def)
  show ?thesis
    using assms(2) l [of t] l
    by (cases "at \<sigma> t")
      (auto simp: turn_def step_defs pop_step_def recycle_step_def locks_inv_def
        split: if_splits option.splits prod.splits)
qed

lemma call_locks:
  "locks_inv \<sigma> \<Longrightarrow> at \<sigma> t = Outside \<Longrightarrow> \<not> has_unused l \<Longrightarrow> \<not> has_used l \<Longrightarrow> locks_inv (goto_pc t l \<sigma>)"
  unfolding locks_inv_def goto_pc_def by (simp, metis has_unused.simps(11) has_used.simps(8))

lemma fire_locks: "locks_inv \<sigma> \<Longrightarrow> fire e \<sigma> = Some \<sigma>' \<Longrightarrow> locks_inv \<sigma>'"
  by (cases e) (auto intro: call_locks turn_locks split: if_splits)

lemma run_locks: "locks_inv \<sigma> \<Longrightarrow> run es \<sigma> = Some \<sigma>' \<Longrightarrow> locks_inv \<sigma>'"
  by (induction es \<sigma> rule: run.induct) (auto split: option.splits dest: fire_locks)


section \<open>Ownership\<close>

fun recycling :: "pc \<Rightarrow> nat option" where
  "recycling (Rec_Used c) = Some c"
| "recycling (Rec_Test c) = Some c"
| "recycling (Rec_Unused c) = Some c"
| "recycling (Rec_Body c) = Some c"
| "recycling _ = None"

text \<open>
  The pool is well formed, what the threads hold is in use and held once, a connection being
  recycled is still held, and the test made before the pop is still true at the pop.
\<close>

definition owners_inv :: "sys \<Rightarrow> bool" where
  "owners_inv \<sigma> \<longleftrightarrow> pool_inv (shared \<sigma>) \<and>
     (\<forall>t. distinct (held \<sigma> t) \<and> set (held \<sigma> t) \<subseteq> set (conns (used_pool (shared \<sigma>)))) \<and>
     (\<forall>t u. t \<noteq> u \<longrightarrow> set (held \<sigma> t) \<inter> set (held \<sigma> u) = {}) \<and>
     (\<forall>t c. recycling (at \<sigma> t) = Some c \<longrightarrow> c \<in> set (held \<sigma> t))"

lemma owners_invD:
  assumes "owners_inv \<sigma>"
  shows "pool_inv (shared \<sigma>)" "distinct (held \<sigma> t)" "set (held \<sigma> t) \<subseteq> set (conns (used_pool (shared \<sigma>)))"
    "t \<noteq> u \<Longrightarrow> set (held \<sigma> t) \<inter> set (held \<sigma> u) = {}" "recycling (at \<sigma> t) = Some c \<Longrightarrow> c \<in> set (held \<sigma> t)"
  using assms unfolding owners_inv_def by blast+

text \<open>Steps that touch neither the lists in use nor the holdings.\<close>

lemma owners_goto:
  assumes "owners_inv \<sigma>" "recycling l = None \<or> recycling l = recycling (at \<sigma> t)"
  shows "owners_inv (goto_pc t l \<sigma>)"
  using assms unfolding owners_inv_def goto_pc_def by (auto split: if_splits)

lemma owners_lock: "owners_inv (\<sigma>\<lparr>unused_lock := x\<rparr>) = owners_inv \<sigma>" "owners_inv (\<sigma>\<lparr>used_lock := x\<rparr>) = owners_inv \<sigma>"
  by (simp_all add: owners_inv_def)

lemma owners_pool:
  assumes "owners_inv \<sigma>" "pool_inv p" "used_pool p = used_pool (shared \<sigma>)"
  shows "owners_inv (\<sigma>\<lparr>shared := p, answers := os\<rparr>)"
  using assms unfolding owners_inv_def by simp

lemma owners_change:
  assumes "pool_inv p" "\<And>u. distinct (h u)" "\<And>u. set (h u) \<subseteq> set (conns (used_pool p))"
    and "\<And>u v. u \<noteq> v \<Longrightarrow> set (h u) \<inter> set (h v) = {}"
    and "\<And>u k. u \<noteq> t \<Longrightarrow> recycling (at \<sigma> u) = Some k \<Longrightarrow> k \<in> set (h u)" "recycling l = None"
  shows "owners_inv (goto_pc t l (\<sigma>\<lparr>shared := p, held := h\<rparr>))"
  using assms unfolding owners_inv_def goto_pc_def by (simp add: fun_upd_def)

lemma owners_pop:
  assumes i: "owners_inv \<sigma>" and nt: "recycling (at \<sigma> t) = None"
    and room: "node_numbers (used_pool (shared \<sigma>)) \<noteq> MAX_CONN (cfg (shared \<sigma>))"
    and idle: "MIN_IDLE (cfg (shared \<sigma>)) < node_numbers (unused_pool (shared \<sigma>))"
  shows "owners_inv (pop_step t \<sigma>)"
proof -
  obtain c p' where g: "get_pass [] (shared \<sigma>) = Popped c p' []" "pool_inv p'"
    "conns (used_pool p') = c # conns (used_pool (shared \<sigma>))" "c \<notin> set (conns (used_pool (shared \<sigma>)))"
    using get_pass_pop [OF owners_invD(1) [OF i] room idle, of "[]"] by auto
  have e: "pop_step t \<sigma> = goto_pc t Get_Popped (\<sigma>\<lparr>shared := p', held := (held \<sigma>)(t := c # held \<sigma> t)\<rparr>)"
    using g(1) room idle by (auto simp: get_pass_def pop_step_def split: prod.splits)
  have h: "c \<notin> set (held \<sigma> u)" for u using owners_invD(3) [OF i] g(4) by blast
  note d = owners_invD [OF i]
  show ?thesis unfolding e
  proof (rule owners_change)
    show "distinct (((held \<sigma>)(t := c # held \<sigma> t)) u)" for u using d(2) h by simp
    show "set (((held \<sigma>)(t := c # held \<sigma> t)) u) \<subseteq> set (conns (used_pool p'))" for u
      using d(3) [of u] d(3) [of t] g(3) by auto
    show "set (((held \<sigma>)(t := c # held \<sigma> t)) u) \<inter> set (((held \<sigma>)(t := c # held \<sigma> t)) v) = {}"
      if "u \<noteq> v" for u v using that d(4) [OF that] h [of u] h [of v] by auto
    show "k \<in> set (((held \<sigma>)(t := c # held \<sigma> t)) u)" if "u \<noteq> t" "recycling (at \<sigma> u) = Some k" for u k
      using d(5) [OF that(2)] that(1) by simp
  qed (use g(2) in simp_all)
qed

lemma recycle_body_used:
  assumes "pool_inv p" "c \<in> set (conns (used_pool p))"
  shows "pool_inv (recycle_body c p) \<and> conns (used_pool (recycle_body c p)) = remove1 c (conns (used_pool p))"
proof -
  have "if_exist_conn (used_pool p) c"
    using assms pl.has_abs pl.abs_inv pool_invD(2) by metis
  then have "recycle_body c p = recycle_connection c p" by (simp add: recycle_connection_def)
  then show ?thesis
    using recycle_inv [OF assms(1)] recycle_back [OF assms] recycle_drop [OF assms] drop_inv [OF assms]
    by (cases "node_numbers (unused_pool p) = MAX_IDLE (cfg p)") simp_all
qed

lemma owners_recycle:
  assumes i: "owners_inv \<sigma>" and c: "at \<sigma> t = Rec_Body c"
  shows "owners_inv (recycle_step t c \<sigma>)"
proof -
  note d = owners_invD [OF i]
  have h: "c \<in> set (held \<sigma> t)" using d(5) c by simp
  have u: "c \<in> set (conns (used_pool (shared \<sigma>)))" using d(3) h by blast
  note r = recycle_body_used [OF d(1) u]
  have ds: "distinct (conns (used_pool (shared \<sigma>)))" using pl.abs_inv [OF pool_invD(2) [OF d(1)]] by blast
  have o: "c \<notin> set (held \<sigma> u)" if "u \<noteq> t" for u using d(4) [OF that] h by blast
  have s: "set (conns (used_pool (recycle_body c (shared \<sigma>)))) = set (conns (used_pool (shared \<sigma>))) - {c}"
    using r ds by simp
  have m: "set (remove1 c (held \<sigma> t)) = set (held \<sigma> t) - {c}" using d(2) by simp
  have sub: "set (held \<sigma> u) \<subseteq> set (conns (used_pool (shared \<sigma>))) - {c}" if "u \<noteq> t" for u
    using d(3) o [OF that] by blast
  show ?thesis unfolding recycle_step_def
  proof (rule owners_change)
    let ?h = "(held \<sigma>)(t := remove1 c (held \<sigma> t))"
    show "distinct (?h u)" for u using d(2) by simp
    show "set (?h u) \<subseteq> set (conns (used_pool (recycle_body c (shared \<sigma>))))" for u
      using sub [of u] d(3) [of t] m s by auto
    show "set (?h u) \<inter> set (?h v) = {}" if "u \<noteq> v" for u v
      using that d(4) [OF that] m by auto
    show "k \<in> set (?h u)" if "u \<noteq> t" "recycling (at \<sigma> u) = Some k" for u k
      using d(5) [OF that(2)] that(1) by simp
  qed (use r in simp_all)
qed

lemma turn_owners:
  assumes i: "owners_inv \<sigma>" and t: "turn t \<sigma> = Some \<sigma>'"
  shows "owners_inv \<sigma>'"
proof (cases "at \<sigma> t")
  case Get_Test
  then show ?thesis
    using i t owners_pop [OF i, of t]
    by (auto simp: turn_def unlock_used_def unlock_unused_def owners_lock intro!: owners_goto split: if_splits)
next
  case (Add_Body k)
  then obtain p os where p: "add_connection k (answers \<sigma>) (shared \<sigma>) = Some (p, os)"
    "\<sigma>' = goto_pc t Add_Unlock (\<sigma>\<lparr>shared := p, answers := os\<rparr>)"
    using t by (auto simp: turn_def split: option.splits)
  show ?thesis
    unfolding p(2) using add_connection_inv [OF owners_invD(1) [OF i] p(1)]
    by (intro owners_goto owners_pool [OF i]) simp_all
next
  case (Rec_Body c)
  then show ?thesis using t owners_recycle [OF i] by (auto simp: turn_def)
qed (use i t in \<open>auto simp: turn_def lock_unused_def lock_used_def unlock_unused_def unlock_used_def owners_lock
       intro!: owners_goto split: if_splits\<close>)

lemma call_owners: "owners_inv \<sigma> \<Longrightarrow> c \<in> set (held \<sigma> t) \<Longrightarrow> owners_inv (goto_pc t (Rec_Used c) \<sigma>)"
  unfolding owners_inv_def goto_pc_def by auto

lemma fire_owners: "owners_inv \<sigma> \<Longrightarrow> fire e \<sigma> = Some \<sigma>' \<Longrightarrow> owners_inv \<sigma>'"
  by (cases e) (auto intro: owners_goto call_owners turn_owners split: if_splits)

lemma run_owners: "owners_inv \<sigma> \<Longrightarrow> run es \<sigma> = Some \<sigma>' \<Longrightarrow> owners_inv \<sigma>'"
  by (induction es \<sigma> rule: run.induct) (auto split: option.splits dest: fire_owners)

lemma start_invs: "pool_inv p \<Longrightarrow> owners_inv (start_sys p os) \<and> locks_inv (start_sys p os)"
  by (simp add: owners_inv_def locks_inv_def start_sys_def)


section \<open>Properties\<close>

text \<open>
  C1.  Thread safety: in every interleaving of threads over a well-formed pool, each mutex has at most
  one owner and only a thread at a point of the code inside its critical section has it, the pool stays
  well formed, and a connection handed out is in use and belongs to one thread only.
\<close>

theorem pool_threads_safe:
  assumes "pool_inv p" "run es (start_sys p os) = Some \<sigma>"
  shows "pool_inv (shared \<sigma>) \<and>
    (\<forall>t. (has_unused (at \<sigma> t) \<longleftrightarrow> unused_lock \<sigma> = Some t) \<and> (has_used (at \<sigma> t) \<longleftrightarrow> used_lock \<sigma> = Some t)) \<and>
    (\<forall>t. distinct (held \<sigma> t) \<and> set (held \<sigma> t) \<subseteq> set (conns (used_pool (shared \<sigma>)))) \<and>
    (\<forall>t u. t \<noteq> u \<longrightarrow> set (held \<sigma> t) \<inter> set (held \<sigma> u) = {})"
proof -
  have "owners_inv \<sigma>" "locks_inv \<sigma>"
    using start_invs [OF assms(1)] run_owners [OF _ assms(2)] run_locks [OF _ assms(2)] by blast+
  then show ?thesis unfolding owners_inv_def locks_inv_def by blast
qed

definition example_pool :: pool where
  "example_pool = fst (the (add_connection 2 (replicate 9 True)
     (fst (the (new_pool (example_conf 2 5 5) (replicate 9 True))))))"

lemma example_pool_inv: "pool_inv example_pool"
proof -
  have v: "example_pool = \<lparr>cfg = example_conf 2 5 5,
      unused_pool = \<lparr>node_numbers = 4, nodes = [\<lparr>node_addr = 8, node_conn = 7\<rparr>, \<lparr>node_addr = 6, node_conn = 5\<rparr>,
        \<lparr>node_addr = 4, node_conn = 3\<rparr>, \<lparr>node_addr = 2, node_conn = 1\<rparr>]\<rparr>,
      used_pool = \<lparr>node_numbers = 0, nodes = []\<rparr>, next_addr = 9, open_conns = [7, 5, 3, 1]\<rparr>"
    by code_simp
  show ?thesis unfolding v
    by (simp_all add: pool_inv_def conns_def addrs_def pl_inv_def example_conf_ok) (simp_all add: example_conf_def)
qed

definition two_gets :: "event list" where
  "two_gets = [Call_Get 4, Call_Get 7] @ replicate 5 (Turn 4) @ replicate 5 (Turn 7)"

theorem pool_threads_safe_witness:
  "\<exists>\<sigma>. run two_gets (start_sys example_pool []) = Some \<sigma> \<and> held \<sigma> 4 = [7] \<and> held \<sigma> 7 = [5] \<and>
     pool_inv (shared \<sigma>)"
proof -
  have "map_option (\<lambda>\<sigma>. (held \<sigma> 4, held \<sigma> 7)) (run two_gets (start_sys example_pool [])) = Some ([7], [5])"
    by code_simp
  then obtain \<sigma> where s: "run two_gets (start_sys example_pool []) = Some \<sigma>" "held \<sigma> 4 = [7]" "held \<sigma> 7 = [5]"
    by auto
  from pool_threads_safe [OF example_pool_inv s(1)] s show ?thesis by blast
qed

text \<open>A thread that waits for a mutex another one has keeps waiting while the other one keeps it.\<close>

definition deadlocked :: "nat \<Rightarrow> nat \<Rightarrow> nat \<Rightarrow> sys \<Rightarrow> bool" where
  "deadlocked t u c \<sigma> \<longleftrightarrow> at \<sigma> t = Get_Used \<and> at \<sigma> u = Rec_Unused c"

lemma turn_other: "turn v \<sigma> = Some \<sigma>' \<Longrightarrow> w \<noteq> v \<Longrightarrow> at \<sigma>' w = at \<sigma> w"
  by (cases "at \<sigma> v") (auto simp: turn_def step_defs pop_step_def recycle_step_def
      split: if_splits option.splits prod.splits)

lemma deadlocked_fire:
  assumes "deadlocked t u c \<sigma>" "locks_inv \<sigma>" "fire e \<sigma> = Some \<sigma>'"
  shows "deadlocked t u c \<sigma>'"
proof -
  have a: "at \<sigma> t = Get_Used" "at \<sigma> u = Rec_Unused c" using assms(1) by (simp_all add: deadlocked_def)
  have "has_unused (at \<sigma> t) = (unused_lock \<sigma> = Some t)" "has_used (at \<sigma> u) = (used_lock \<sigma> = Some u)"
    using assms(2) by (simp_all add: locks_inv_def)
  then have l: "unused_lock \<sigma> = Some t" "used_lock \<sigma> = Some u" using a by simp_all
  show ?thesis
  proof (cases e)
    case (Turn v)
    have "turn t \<sigma> = None" "turn u \<sigma> = None" using a l by (simp_all add: turn_def lock_unused_def lock_used_def)
    then have "v \<noteq> t" "v \<noteq> u" using assms(3) Turn by auto
    then show ?thesis using turn_other [of v \<sigma> \<sigma>'] assms(3) Turn a by (simp add: deadlocked_def)
  qed (use a assms(3) in \<open>auto simp: deadlocked_def goto_pc_def split: if_splits\<close>)
qed

lemma deadlocked_run:
  "deadlocked t u c \<sigma> \<Longrightarrow> locks_inv \<sigma> \<Longrightarrow> run es \<sigma> = Some \<sigma>' \<Longrightarrow> deadlocked t u c \<sigma>'"
  by (induction es \<sigma> rule: run.induct) (auto split: option.splits dest: fire_locks deadlocked_fire)

text \<open>
  C2.  The two operations take the mutexes in opposite orders, and the pool can deadlock: from every
  reachable state in which both mutexes are free, one thread is between two calls and another one
  holds a connection, there is a continuation after which neither of them ever moves again, whatever
  the threads do from then on.
\<close>

theorem pool_deadlock:
  assumes "pool_inv p" "run es (start_sys p os) = Some \<sigma>" "unused_lock \<sigma> = None" "used_lock \<sigma> = None"
    and "t \<noteq> u" "at \<sigma> t = Outside" "at \<sigma> u = Outside" "c \<in> set (held \<sigma> u)"
  shows "\<exists>\<sigma>1. run [Call_Get t, Call_Recycle u c, Turn t, Turn u, Turn u] \<sigma> = Some \<sigma>1 \<and>
    (\<forall>es' \<sigma>2. run es' \<sigma>1 = Some \<sigma>2 \<longrightarrow> at \<sigma>2 t = Get_Used \<and> at \<sigma>2 u = Rec_Unused c)"
proof -
  have inv: "owners_inv \<sigma>" "locks_inv \<sigma>"
    using start_invs [OF assms(1)] run_owners [OF _ assms(2)] run_locks [OF _ assms(2)] by blast+
  note d = owners_invD [OF inv(1)]
  have c: "c \<in> set (conns (used_pool (shared \<sigma>)))" using d(3) assms(8) by blast
  then have "c \<noteq> 0" using pl.abs_inv [OF pool_invD(2) [OF d(1)]] by metis
  then have ex: "if_exist_conn (used_pool (shared \<sigma>)) c"
    using c pl.has_abs [OF pool_invD(2) [OF d(1)]] by blast
  let ?s = "\<sigma>\<lparr>at := (at \<sigma>)(t := Get_Used, u := Rec_Unused c), unused_lock := Some t, used_lock := Some u\<rparr>"
  have s: "run [Call_Get t, Call_Recycle u c, Turn t, Turn u, Turn u] \<sigma> = Some ?s"
    using assms(3-8) ex by (simp add: step_defs turn_def fun_upd_twist)
  have "deadlocked t u c ?s" using assms(5) by (simp add: deadlocked_def)
  then have stay: "deadlocked t u c \<sigma>2" if "run es' ?s = Some \<sigma>2" for es' \<sigma>2
    using deadlocked_run run_locks [OF inv(2) s] that by blast
  with s show ?thesis unfolding deadlocked_def by blast
qed

theorem pool_deadlock_witness:
  "\<exists>\<sigma> \<sigma>1. run two_gets (start_sys example_pool []) = Some \<sigma> \<and>
     run [Call_Get 4, Call_Recycle 7 5, Turn 4, Turn 7, Turn 7] \<sigma> = Some \<sigma>1 \<and>
     (\<forall>es' \<sigma>2. run es' \<sigma>1 = Some \<sigma>2 \<longrightarrow> at \<sigma>2 4 = Get_Used)"
proof -
  have "map_option (\<lambda>\<sigma>. (held \<sigma> 7, at \<sigma> 4, at \<sigma> 7, unused_lock \<sigma>, used_lock \<sigma>))
      (run two_gets (start_sys example_pool [])) = Some ([5], Outside, Outside, None, None)"
    by code_simp
  then obtain \<sigma> where s: "run two_gets (start_sys example_pool []) = Some \<sigma>" "5 \<in> set (held \<sigma> 7)"
    "at \<sigma> 4 = Outside" "at \<sigma> 7 = Outside" "unused_lock \<sigma> = None" "used_lock \<sigma> = None"
    by auto
  have ne: "(4::nat) \<noteq> 7" by simp
  obtain \<sigma>1 where r: "run [Call_Get 4, Call_Recycle 7 5, Turn 4, Turn 7, Turn 7] \<sigma> = Some \<sigma>1"
    "\<forall>es' \<sigma>2. run es' \<sigma>1 = Some \<sigma>2 \<longrightarrow> at \<sigma>2 4 = Get_Used \<and> at \<sigma>2 7 = Rec_Unused 5"
    using pool_deadlock [OF example_pool_inv s(1,5,6) ne s(3,4,2)] by blast
  show ?thesis using s(1) r by (intro exI [of _ \<sigma>] exI [of _ \<sigma>1]) (simp del: run.simps)
qed

end
