(* ===== verification/UrlFormat.thy ===== *)
theory UrlFormat
  imports Prelude
begin

text \<open>
  URL canonicalisation: \<open>format_url\<close> (\<open>src/utils/format_url.cc\<close>), which every link passes before it
  becomes a key of the crawl tables, and \<open>parse_url\<close> (\<open>src/utils/parse_url.cc\<close>), which splits a
  canonical address into host and page path.  The index arithmetic of the source is kept in the
  definitions; \<open>format_url_reference\<close> relates it to a description on lists, on which the other
  properties rest.  \<^term>\<open>None\<close> is a read outside the string.
\<close>

definition URL_SIZE :: nat where "URL_SIZE = 2048"

section \<open>The loops of format\_url\<close>

definition lower_char :: "char \<Rightarrow> char" where
  "lower_char c = (if char_between CHR ''A'' CHR ''Z'' c then char_of (code c + 32) else c)"

definition head_blank :: "char \<Rightarrow> bool" where
  "head_blank c \<longleftrightarrow> c = CHR '' '' \<or> c = TAB"

definition tail_blank :: "char \<Rightarrow> bool" where
  "tail_blank c \<longleftrightarrow> c = CHR '' '' \<or> c = TAB \<or> c = CHR ''/'' \<or> c = NL"

text \<open>
  \<open>for (j = len - 1; j >= i; --j) if (tail(url[j])) len = j; else break;\<close> with unsigned \<open>j\<close> and \<open>i\<close>:
  when \<open>j\<close> is 0 and \<open>i\<close> is 0 too, \<open>--j\<close> wraps around, the guard still holds, and \<open>url[SIZE_MAX]\<close> is
  read.  The last argument is the current \<open>len\<close>, so \<open>j = len - 1\<close>.
\<close>

fun cut_tail :: "string \<Rightarrow> nat \<Rightarrow> nat \<Rightarrow> nat option" where
  "cut_tail u i 0 = None"
| "cut_tail u i (Suc j) =
     (if i \<le> j then if tail_blank (u ! j) then cut_tail u i j else Some (Suc j)
      else Some (Suc j))"

text \<open>\<open>for (k = 0; j < len && k < p.size() && url[j] == p[k]; ++j, ++k);\<close> gives \<open>(j, k)\<close>.\<close>

fun match_run :: "string \<Rightarrow> nat \<Rightarrow> nat \<Rightarrow> string \<Rightarrow> nat \<times> nat" where
  "match_run u len j [] = (j, 0)"
| "match_run u len j (p # ps) =
     (if j < len \<and> u ! j = p then (case match_run u len (Suc j) ps of (j', k) \<Rightarrow> (j', Suc k))
      else (j, 0))"

definition skip_scheme :: "string \<Rightarrow> nat \<Rightarrow> nat \<Rightarrow> nat" where
  "skip_scheme u len g =
     (case match_run u len g ''http'' of (j, k) \<Rightarrow>
        if k \<noteq> 4 then g
        else let j = (if j < len \<and> u ! j = CHR ''s'' then Suc j else j) in
          case match_run u len j ''://'' of (j, k) \<Rightarrow> if k \<noteq> 3 then g else j)"

definition skip_www :: "string \<Rightarrow> nat \<Rightarrow> nat \<Rightarrow> nat" where
  "skip_www u len g = (case match_run u len g ''www.'' of (j, k) \<Rightarrow> if k \<noteq> 4 then g else j)"

definition is_javascript :: "string \<Rightarrow> nat \<Rightarrow> nat \<Rightarrow> bool" where
  "is_javascript u len i =
     (case match_run u len i ''javascript'' of (j, k) \<Rightarrow>
        i = len \<or> (k = 10 \<and> len - i = 10) \<or> (j < len \<and> u ! j = CHR '':''))"

text \<open>The final loop, from the second character on, with its flag \<open>pre\<close>.\<close>

fun dots_ok :: "bool \<Rightarrow> string \<Rightarrow> bool" where
  "dots_ok pre [] = pre"
| "dots_ok pre (c # cs) =
     (if c = CHR ''<'' \<or> c = CHR ''>'' \<or> c = CHR ''#'' \<or> (c = CHR ''/'' \<and> \<not> pre) then False
      else dots_ok (pre \<or> c = CHR ''.'') cs)"

definition bad_first :: "char \<Rightarrow> bool" where
  "bad_first c \<longleftrightarrow> c = CHR ''/'' \<or> c = CHR ''#'' \<or> c = CHR ''<'' \<or> c = CHR ''>'' \<or> c = CHR ''.''"

definition format_url :: "string \<Rightarrow> string option" where
  "format_url url =
     (if url = [] \<or> length url > URL_SIZE then Some []
      else let u = map lower_char url; i = scan_while head_blank u 0 in
        case cut_tail u i (length u) of
          None \<Rightarrow> None
        | Some len \<Rightarrow>
            let j = skip_scheme u len i; i = skip_www u len j;
                v = (if is_javascript u len i then [] else substr u i (len - i)) in
            if v = [] then Some []
            else if bad_first (v ! 0) then Some []
            else if dots_ok False (drop 1 v) then Some v
            else Some [])"

section \<open>parse\_url\<close>

definition parse_url :: "string \<Rightarrow> (string \<times> string) option" where
  "parse_url url =
     (case format_url url of
        None \<Rightarrow> None
      | Some u \<Rightarrow>
          if u = [] then Some ([], ''/'')
          else let i = scan_while (\<lambda>c. c \<noteq> CHR ''/'') u 0 in
            Some (substr u 0 i, if i < length u then substr u i (length u) else ''/''))"

section \<open>The same on lists\<close>

definition rstrip :: "string \<Rightarrow> string" where
  "rstrip s = rev (dropWhile tail_blank (rev s))"

definition strip_scheme :: "string \<Rightarrow> string" where
  "strip_scheme w =
     (if is_prefix ''http://'' w then drop 7 w
      else if is_prefix ''https://'' w then drop 8 w else w)"

definition strip_www :: "string \<Rightarrow> string" where
  "strip_www w = (if is_prefix ''www.'' w then drop 4 w else w)"

fun lcp :: "string \<Rightarrow> string \<Rightarrow> nat" where
  "lcp (c # cs) (p # ps) = (if c = p then Suc (lcp cs ps) else 0)"
| "lcp _ _ = 0"

definition js_reject :: "string \<Rightarrow> bool" where
  "js_reject v \<longleftrightarrow> v = [] \<or> v = ''javascript'' \<or>
     (lcp v ''javascript'' < length v \<and> v ! lcp v ''javascript'' = CHR '':'')"

definition url_shape :: "string \<Rightarrow> bool" where
  "url_shape v \<longleftrightarrow> v \<noteq> [] \<and> \<not> bad_first (hd v) \<and>
     set (tl v) \<inter> {CHR ''<'', CHR ''>'', CHR ''#''} = {} \<and>
     CHR ''.'' \<in> set (takeWhile (\<lambda>c. c \<noteq> CHR ''/'') (tl v))"

definition normal_url :: "string \<Rightarrow> string" where
  "normal_url w = (let v = strip_www (strip_scheme w) in
     if js_reject v \<or> \<not> url_shape v then [] else v)"

lemma cut_tail_rstrip:
  "i \<le> n \<Longrightarrow> n \<le> length u \<Longrightarrow> cut_tail u i n =
    (if i = 0 \<and> (\<forall>c\<in>set (take n u). tail_blank c) then None
     else Some (i + length (rstrip (drop i (take n u)))))"
proof (induction n)
  case (Suc j)
  show ?case
  proof (cases "i \<le> j")
    case True
    then have "take (Suc j) u = take j u @ [u ! j]" "drop i (take (Suc j) u) = drop i (take j u) @ [u ! j]"
      using Suc.prems by (simp_all add: take_Suc_conv_app_nth)
    with True Suc show ?thesis by (auto simp: rstrip_def)
  next
    case False
    with Suc.prems have "i = Suc j" by simp
    then show ?thesis by (simp add: rstrip_def)
  qed
qed simp

lemma match_run_lcp:
  "len \<le> length u \<Longrightarrow> match_run u len j p =
    (j + lcp (drop j (take len u)) p, lcp (drop j (take len u)) p)"
proof (induction p arbitrary: j)
  case (Cons c p)
  show ?case
  proof (cases "j < len")
    case True
    with Cons.prems have "drop j (take len u) = u ! j # drop (Suc j) (take len u)"
      by (simp add: Cons_nth_drop_Suc [symmetric])
    with True Cons show ?thesis by simp
  qed simp
qed simp

lemma lcp_le: "lcp v p \<le> length v" "lcp v p \<le> length p"
  by (induction v p rule: lcp.induct) auto

lemma lcp_prefix: "lcp v p = length p \<longleftrightarrow> is_prefix p v"
  by (induction v p rule: lcp.induct) (auto simp: is_prefix_iff elim: is_prefix.elims)

lemma match_or:
  assumes "len \<le> length u" "length p = n"
  shows "(case match_run u len j p of (j', k) \<Rightarrow> if k \<noteq> n then a else f j') =
    (if is_prefix p (drop j (take len u)) then f (j + n) else a)"
  using assms by (auto simp: match_run_lcp lcp_prefix [symmetric])

declare match_run.simps [simp del]

lemma nth_hd_drop:
  "j < len \<Longrightarrow> len \<le> length u \<Longrightarrow> drop j (take len u) = u ! j # drop (Suc j) (take len u)"
  by (simp add: Cons_nth_drop_Suc [symmetric])

lemma skip_www_eq:
  "len \<le> length u \<Longrightarrow>
    skip_www u len g = (if is_prefix ''www.'' (drop g (take len u)) then g + 4 else g)"
  unfolding skip_www_def by (rule match_or) simp_all

lemma is_prefix_le: "is_prefix p s \<Longrightarrow> length p \<le> length s"
  by (auto simp: is_prefix_iff)

lemma skip_scheme_eq:
  assumes len: "len \<le> length u"
  shows "skip_scheme u len g =
    (if is_prefix ''http://'' (drop g (take len u)) then g + 7
     else if is_prefix ''https://'' (drop g (take len u)) then g + 8 else g)"
proof -
  define w where "w = drop (g + 4) (take len u)"
  define j where "j = (if g + 4 < len \<and> u ! (g + 4) = CHR ''s'' then Suc (g + 4) else g + 4)"
  have "skip_scheme u len g =
      (if is_prefix ''http'' (drop g (take len u)) then
         if is_prefix ''://'' (drop j (take len u)) then j + 3 else g
       else g)"
    unfolding skip_scheme_def j_def Let_def
    by (subst match_or [OF len], simp, subst match_or [OF len], simp, rule refl)
  moreover have "drop g (take len u) = ''http'' @ w" if "is_prefix ''http'' (drop g (take len u))"
    using that by (auto simp: is_prefix_iff w_def add.commute [of g] simp flip: drop_drop)
  moreover have "\<not> is_prefix ''http://'' (drop g (take len u))" "\<not> is_prefix ''https://'' (drop g (take len u))"
    if "\<not> is_prefix ''http'' (drop g (take len u))"
    using that by (auto simp: is_prefix_iff)
  moreover have "drop j (take len u) = (if w \<noteq> [] \<and> hd w = CHR ''s'' then tl w else w)"
    using nth_hd_drop [of "g + 4" len u] len by (cases "g + 4 < len") (auto simp: w_def j_def)
  moreover have "j = (if w \<noteq> [] \<and> hd w = CHR ''s'' then g + 5 else g + 4)"
    using nth_hd_drop [of "g + 4" len u] len by (cases "g + 4 < len") (auto simp: w_def j_def)
  ultimately show ?thesis
    by (cases "is_prefix ''http'' (drop g (take len u))"; cases w) (auto simp: is_prefix_iff)
qed

lemma skip_www_drop:
  "len \<le> length u \<Longrightarrow> drop (skip_www u len g) (take len u) = strip_www (drop g (take len u))"
  by (simp add: skip_www_eq strip_www_def add.commute)

lemma skip_scheme_drop:
  "len \<le> length u \<Longrightarrow> drop (skip_scheme u len g) (take len u) = strip_scheme (drop g (take len u))"
  by (simp add: skip_scheme_eq strip_scheme_def add.commute)

lemma skip_www_le: "len \<le> length u \<Longrightarrow> g \<le> len \<Longrightarrow> skip_www u len g \<le> len"
  using is_prefix_le [of "''www.''" "drop g (take len u)"] by (auto simp: skip_www_eq)

lemma skip_scheme_le: "len \<le> length u \<Longrightarrow> g \<le> len \<Longrightarrow> skip_scheme u len g \<le> len"
  using is_prefix_le [of "''http://''" "drop g (take len u)"]
    is_prefix_le [of "''https://''" "drop g (take len u)"]
  by (auto simp: skip_scheme_eq)

lemma is_javascript_eq:
  assumes "len \<le> length u" "i \<le> len"
  shows "is_javascript u len i = js_reject (drop i (take len u))"
proof -
  define v where "v = drop i (take len u)"
  have len: "length v = len - i" using assms by (simp add: v_def)
  have nth: "k < length v \<Longrightarrow> u ! (i + k) = v ! k" for k
    using assms by (simp add: v_def)
  have less: "i + k < len \<longleftrightarrow> k < length v" for k
    using assms by (auto simp: len)
  have "(v = ''javascript'') = (lcp v ''javascript'' = 10 \<and> length v = 10)"
    using lcp_prefix [of v "''javascript''"] by (auto simp: is_prefix_iff)
  then show ?thesis
    using assms len
    by (auto simp: is_javascript_def match_run_lcp v_def [symmetric] js_reject_def less nth)
qed

lemma dots_ok_iff: "dots_ok pre cs \<longleftrightarrow>
    set cs \<inter> {CHR ''<'', CHR ''>'', CHR ''#''} = {} \<and>
    (pre \<or> CHR ''.'' \<in> set (takeWhile (\<lambda>c. c \<noteq> CHR ''/'') cs))"
  by (induction cs arbitrary: pre) auto

lemma url_shape_code:
  "v \<noteq> [] \<Longrightarrow> url_shape v \<longleftrightarrow> \<not> bad_first (v ! 0) \<and> dots_ok False (drop 1 v)"
  by (cases v) (auto simp: url_shape_def dots_ok_iff)

lemma tail_blank_lower [simp]: "tail_blank (lower_char c) = tail_blank c"
proof (cases "char_between CHR ''A'' CHR ''Z'' c")
  case True
  then have c: "65 \<le> code c" "code c \<le> 90" by (auto simp: char_between_code codes)
  have "tail_blank d \<Longrightarrow> code d < 65" for d by (auto simp: tail_blank_def codes)
  moreover have "code (lower_char c) = code c + 32"
    using True c by (simp add: lower_char_def)
  ultimately show ?thesis using c by force
qed (simp add: lower_char_def)

text \<open>
  The canonicaliser on lists: lower the case, drop leading blanks and trailing blanks, slashes and
  newlines, strip one scheme and one \<open>www.\<close>, and keep the rest if it looks like an address.
\<close>

lemma format_url_reference:
  "format_url url =
    (if url = [] \<or> length url > URL_SIZE then Some []
     else if \<not> head_blank (hd (map lower_char url)) \<and> (\<forall>c\<in>set url. tail_blank c) then None
     else Some (normal_url (rstrip (dropWhile head_blank (map lower_char url)))))"
proof (cases "url = [] \<or> length url > URL_SIZE")
  case False
  define u where "u = map lower_char url"
  define i where "i = scan_while head_blank u 0"
  have u: "u \<noteq> []" "length u = length url" using False by (simp_all add: u_def)
  have i: "i = length (takeWhile head_blank u)" "i \<le> length u"
    by (simp_all add: i_def scan_while_takeWhile length_takeWhile_le)
  then have di: "drop i u = dropWhile head_blank u"
    by (simp add: dropWhile_eq_drop)
  have i0: "i = 0 \<longleftrightarrow> \<not> head_blank (hd u)"
    using u i by (cases u) auto
  have all: "(\<forall>c\<in>set u. tail_blank c) = (\<forall>c\<in>set url. tail_blank c)"
    by (simp add: u_def)
  show ?thesis
  proof (cases "i = 0 \<and> (\<forall>c\<in>set u. tail_blank c)")
    case True
    with False i0 all show ?thesis
      by (simp add: format_url_def u_def [symmetric] i_def [symmetric] Let_def cut_tail_rstrip i)
  next
    case nf: False
    define len where "len = i + length (rstrip (drop i u))"
    have cut: "cut_tail u i (length u) = Some len"
      using nf i by (auto simp: cut_tail_rstrip len_def)
    have rs: "drop i u = rstrip (drop i u) @ rev (takeWhile tail_blank (rev (drop i u)))"
      by (simp add: rstrip_def flip: rev_append)
    have len: "len \<le> length u"
      using arg_cong [OF rs, of length] i by (simp add: len_def)
    have w: "drop i (take len u) = rstrip (drop i u)"
      using rs by (simp add: len_def drop_take) (metis append_eq_conv_conj)
    define j where "j = skip_scheme u len i"
    define k where "k = skip_www u len j"
    have j: "j \<le> len" "drop j (take len u) = strip_scheme (rstrip (drop i u))"
      using len w skip_scheme_le [OF len, of i] skip_scheme_drop [OF len, of i]
      by (simp_all add: j_def len_def)
    have k: "k \<le> len" "drop k (take len u) = strip_www (strip_scheme (rstrip (drop i u)))"
      using j skip_www_le [OF len, of j] skip_www_drop [OF len, of j] by (simp_all add: k_def)
    define v where "v = strip_www (strip_scheme (rstrip (drop i u)))"
    have sub: "substr u k (len - k) = v"
      using k by (simp add: v_def substr_def drop_take)
    have "format_url url = Some (if js_reject v then [] else if v = [] then []
        else if bad_first (v ! 0) then [] else if dots_ok False (drop 1 v) then v else [])"
      using False cut sub is_javascript_eq [OF len k(1)] k(2)
      by (simp add: format_url_def u_def [symmetric] i_def [symmetric] j_def [symmetric]
            k_def [symmetric] v_def [symmetric] Let_def del: One_nat_def)
    also have "\<dots> = Some (normal_url (rstrip (drop i u)))"
      using url_shape_code [of v] by (auto simp: normal_url_def v_def [symmetric] Let_def js_reject_def)
    finally show ?thesis
      using False nf i0 all by (simp add: u_def [symmetric] di)
  qed
qed (auto simp: format_url_def)

section \<open>Facts about the reference\<close>

lemma strip_suffix: "\<exists>p. w = p @ strip_www (strip_scheme w)"
  by (metis strip_www_def strip_scheme_def append_take_drop_id append_assoc append_Nil)

lemma rstrip_last: "rstrip s \<noteq> [] \<Longrightarrow> \<not> tail_blank (last (rstrip s))"
  by (simp add: rstrip_def last_rev hd_dropWhile)

lemma rstrip_append_blank: "set t \<subseteq> Collect tail_blank \<Longrightarrow> rstrip (s @ t) = rstrip s"
  by (auto simp: rstrip_def subset_iff intro!: dropWhile_append2)

lemma rstrip_id: "s \<noteq> [] \<Longrightarrow> \<not> tail_blank (last s) \<Longrightarrow> rstrip s = s"
  by (cases s rule: rev_cases) (simp_all add: rstrip_def)

lemma rstrip_prefix: "\<exists>t. s = rstrip s @ t"
proof -
  have "s = rstrip s @ rev (takeWhile tail_blank (rev s))"
    by (simp add: rstrip_def flip: rev_append)
  then show ?thesis by blast
qed

lemma lower_not_upper: "\<not> char_between CHR ''A'' CHR ''Z'' (lower_char c)"
proof (cases "char_between CHR ''A'' CHR ''Z'' c")
  case True
  then have "65 \<le> code c" "code c \<le> 90" by (auto simp: char_between_code codes)
  then have "code (lower_char c) = code c + 32" using True by (simp add: lower_char_def)
  with \<open>65 \<le> code c\<close> show ?thesis by (simp add: char_between_code codes)
qed (simp add: lower_char_def)

lemma lower_char_id [simp]: "lower_char (lower_char c) = lower_char c"
  using lower_not_upper [of c] by (simp add: lower_char_def [of "lower_char c"])

lemma normal_url_suffix: "normal_url w \<noteq> [] \<Longrightarrow> \<exists>p. w = p @ normal_url w"
  using strip_suffix [of w] by (auto simp: normal_url_def Let_def)

lemma normal_url_shape: "normal_url w \<noteq> [] \<Longrightarrow> url_shape (normal_url w)"
  by (auto simp: normal_url_def Let_def split: if_splits)

definition tail_chars :: "char set" where
  "tail_chars = {CHR '' '', TAB, CHR ''/'', NL}"

lemma tail_chars_iff: "c \<in> tail_chars \<longleftrightarrow> tail_blank c"
  by (auto simp: tail_chars_def tail_blank_def)

text \<open>An accepted result, taken apart.\<close>

lemma format_url_SomeD:
  assumes "format_url s = Some v" "v \<noteq> []"
  obtains p t where "map lower_char s = p @ v @ t" "url_shape v" "\<not> tail_blank (last v)"
    "length s \<le> URL_SIZE"
proof -
  let ?x = "dropWhile head_blank (map lower_char s)"
  from assms have v: "v = normal_url (rstrip ?x)" and len: "length s \<le> URL_SIZE"
    by (auto simp: format_url_reference split: if_splits)
  from normal_url_suffix [of "rstrip ?x"] v assms(2) obtain p where p: "rstrip ?x = p @ v" by auto
  from rstrip_prefix [of ?x] obtain t where t: "?x = rstrip ?x @ t" by blast
  have "map lower_char s = takeWhile head_blank (map lower_char s) @ ?x" by simp
  also have "?x = p @ v @ t" using p t by simp
  finally have "map lower_char s = (takeWhile head_blank (map lower_char s) @ p) @ v @ t" by simp
  moreover have "url_shape v" using v assms(2) normal_url_shape by blast
  moreover have "\<not> tail_blank (last v)"
    using rstrip_last [of ?x] p assms(2) by simp
  ultimately show ?thesis using len that by blast
qed

text \<open>An address that carries nothing the canonicaliser would take off.\<close>

definition plain_address :: "string \<Rightarrow> bool" where
  "plain_address v \<longleftrightarrow> url_shape v \<and> \<not> js_reject v \<and> \<not> head_blank (hd v) \<and> \<not> tail_blank (last v) \<and>
     strip_scheme v = v \<and> strip_www v = v"

definition url_prefixes :: "string list" where
  "url_prefixes = [[], ''http://'', ''https://'', ''www.'', ''http://www.'', ''https://www.'']"

lemma strip_prefix:
  "plain_address v \<Longrightarrow> pre \<in> set url_prefixes \<Longrightarrow> strip_www (strip_scheme (pre @ v)) = v"
  by (auto simp: url_prefixes_def plain_address_def strip_scheme_def [of "_ # _"]
      strip_www_def [of "_ # _"])

lemma url_shape_dot: "url_shape v \<Longrightarrow> CHR ''.'' \<in> set v"
  by (cases v) (auto simp: url_shape_def dest: set_takeWhileD)

lemma url_shape_dot_host: "url_shape v \<Longrightarrow> CHR ''.'' \<in> set (takeWhile (\<lambda>c. c \<noteq> CHR ''/'') v)"
  by (cases v) (auto simp: url_shape_def bad_first_def)

lemma hd_prefixed_not_blank:
  "plain_address v \<Longrightarrow> pre \<in> set url_prefixes \<Longrightarrow> \<not> head_blank (hd (pre @ v)) \<and> v \<noteq> []"
  by (auto simp: url_prefixes_def plain_address_def url_shape_def head_blank_def)

section \<open>Properties\<close>

text \<open>
  \<open>format_url\<close> reads outside its argument exactly on the non-empty strings that consist of
  blanks, slashes and newlines only and start with a slash or a newline: the trimming loop counts
  its unsigned index below 0.  The link \<open>href="/"\<close> is the shortest one.
\<close>

theorem format_url_out_of_bounds:
  "format_url s = None \<longleftrightarrow>
    s \<noteq> [] \<and> length s \<le> URL_SIZE \<and> hd s \<in> {CHR ''/'', NL} \<and> set s \<subseteq> tail_chars"
proof -
  have hb: "head_blank c = head_blank (lower_char c)" if "tail_blank c" for c
    using that by (auto simp: tail_blank_def lower_char_def char_between_code codes)
  have "\<not> head_blank (hd (map lower_char s)) \<longleftrightarrow> hd s \<in> {CHR ''/'', NL}"
    if "s \<noteq> []" "\<forall>c\<in>set s. tail_blank c"
    using that hb [of "hd s"] by (cases s) (auto simp: tail_blank_def head_blank_def)
  moreover have "set s \<subseteq> tail_chars \<longleftrightarrow> (\<forall>c\<in>set s. tail_blank c)"
    by (auto simp: tail_chars_iff)
  ultimately show ?thesis
    by (auto simp: format_url_reference split: if_splits)
qed



text \<open>
  One page, one key: an address written with any mix of upper and lower case, with or without
  \<open>http://\<close> or \<open>https://\<close>, with or without \<open>www.\<close>, and with blanks in front and blanks, slashes or
  newlines behind, is mapped to the same canonical string.
\<close>

theorem format_url_spellings:
  assumes "plain_address v" "pre \<in> set url_prefixes"
    and "map lower_char s = blanks @ pre @ v @ tails"
    and "set blanks \<subseteq> {CHR '' '', TAB}" "set tails \<subseteq> tail_chars" "length s \<le> URL_SIZE"
  shows "format_url s = Some v"
proof -
  have ne: "s \<noteq> []" using assms(1,3) by (auto simp: plain_address_def url_shape_def)
  have hd: "\<not> head_blank (hd (pre @ v))" "v \<noteq> []"
    using hd_prefixed_not_blank [OF assms(1,2)] by auto
  have "CHR ''.'' \<in> set v" using assms(1) by (simp add: plain_address_def url_shape_dot)
  then have "CHR ''.'' \<in> set (map lower_char s)" by (simp add: assms(3) del: set_map)
  then obtain c where c: "c \<in> set s" "lower_char c = CHR ''.''" by auto
  have "\<not> tail_blank (lower_char c)" unfolding c(2) by (simp add: tail_blank_def)
  with c(1) have nb: "\<not> (\<forall>c\<in>set s. tail_blank c)" by auto
  have "dropWhile head_blank (map lower_char s) = dropWhile head_blank (pre @ v @ tails)"
    using assms(4) by (auto simp: assms(3) subset_iff head_blank_def intro!: dropWhile_append2)
  also obtain c cs where cs: "pre @ v = c # cs" "\<not> head_blank c"
    using hd by (cases "pre @ v") auto
  then have "dropWhile head_blank (pre @ v @ tails) = (pre @ v) @ tails"
    by (simp flip: append_assoc)
  finally have "rstrip (dropWhile head_blank (map lower_char s)) = rstrip (pre @ v)"
    using rstrip_append_blank [of tails "pre @ v"] assms(5) by (simp add: subset_iff tail_chars_iff)
  also have "\<dots> = pre @ v"
    using assms(1) hd(2) by (intro rstrip_id) (auto simp: plain_address_def)
  finally show ?thesis
    using ne nb assms(1,6) strip_prefix [OF assms(1,2)]
    by (simp add: format_url_reference normal_url_def Let_def plain_address_def)
qed

theorem format_url_spellings_witness:
  "format_url '' HTTPS://www.google.COM/a/ '' = Some ''google.com/a''"
proof (rule format_url_spellings)
  show "plain_address ''google.com/a''" "''https://www.'' \<in> set url_prefixes"
    "map lower_char '' HTTPS://www.google.COM/a/ '' = '' '' @ ''https://www.'' @ ''google.com/a'' @ ''/ ''"
    by code_simp+
qed (simp_all add: tail_chars_def URL_SIZE_def)

text \<open>
  Canonicalising twice is not the same as once: a second \<open>www.\<close> survives the first pass and is
  taken off by the next one.  The workers do run it twice, on the link and again in \<open>parse_url\<close>,
  so the page recorded under \<open>www.a.com\<close> is fetched from \<open>a.com\<close>.
\<close>

theorem format_url_not_idempotent:
  "\<exists>s v host path. format_url s = Some v \<and> v \<noteq> [] \<and> format_url v \<noteq> Some v \<and>
     parse_url v = Some (host, path) \<and> host \<noteq> [] \<and> host @ path \<noteq> v @ ''/''"
proof -
  have "format_url ''www.www.a.com'' = Some ''www.a.com''" "format_url ''www.a.com'' = Some ''a.com''"
    "parse_url ''www.a.com'' = Some (''a.com'', ''/'')"
    by code_simp+
  then have "format_url ''www.www.a.com'' = Some ''www.a.com'' \<and> ''www.a.com'' \<noteq> [] \<and>
    format_url ''www.a.com'' \<noteq> Some ''www.a.com'' \<and> parse_url ''www.a.com'' = Some (''a.com'', ''/'') \<and>
    ''a.com'' \<noteq> [] \<and> ''a.com'' @ ''/'' \<noteq> ''www.a.com'' @ ''/''" by simp
  then show ?thesis by blast
qed

text \<open>
  \<open>parse_url\<close> splits what \<open>format_url\<close> accepts without losing a character: the host is
  not empty, holds a dot and no slash, the page path starts with a slash, and the two concatenate to
  the canonical address (or the path is the slash that stands for the root page).
\<close>

theorem parse_url_split:
  assumes "parse_url s = Some (host, path)" "host \<noteq> []"
  shows "CHR ''/'' \<notin> set host \<and> CHR ''.'' \<in> set host \<and> hd path = CHR ''/'' \<and>
    (format_url s = Some (host @ path) \<or> (path = ''/'' \<and> format_url s = Some host))"
proof -
  from assms obtain u where u: "format_url s = Some u" "u \<noteq> []"
    by (auto simp: parse_url_def split: option.splits if_splits)
  let ?P = "\<lambda>c. c \<noteq> CHR ''/''"
  have i: "scan_while ?P u 0 = length (takeWhile ?P u)" by (simp add: scan_while_takeWhile)
  have tw: "take (length (takeWhile ?P u)) u = takeWhile ?P u"
    "drop (length (takeWhile ?P u)) u = dropWhile ?P u"
    by (rule takeWhile_eq_take [symmetric], rule dropWhile_eq_drop [symmetric])
  have lt: "length (takeWhile ?P u) < length u \<longleftrightarrow> dropWhile ?P u \<noteq> []"
    using drop_eq_Nil [of "length (takeWhile ?P u)" u] by (simp add: tw(2) not_less [symmetric])
  have hp: "host = takeWhile ?P u"
    "path = (if dropWhile ?P u \<noteq> [] then dropWhile ?P u else ''/'')"
    using assms(1) u by (auto simp: parse_url_def Let_def i lt substr_def tw length_dropWhile_le)
  have "CHR ''.'' \<in> set host"
    using format_url_SomeD [OF u] hp(1) url_shape_dot_host by metis
  moreover have "CHR ''/'' \<notin> set host" by (auto simp: hp dest: set_takeWhileD)
  moreover have "hd path = CHR ''/''"
    using hd_dropWhile [of ?P u] unfolding hp(2) by (cases "dropWhile ?P u = []") simp_all
  moreover have "format_url s = Some (host @ path) \<or> path = ''/'' \<and> format_url s = Some host"
    using u(1) takeWhile_dropWhile_id [of ?P u] unfolding hp
    by (cases "dropWhile ?P u = []") (simp_all only: simp_thms append_Nil2 if_True if_False)
  ultimately show ?thesis by blast
qed

theorem parse_url_split_witness:
  "parse_url ''google.com/a'' = Some (''google.com'', ''/a'') \<and> CHR ''.'' \<in> set ''google.com''"
proof -
  have p: "parse_url ''google.com/a'' = Some (''google.com'', ''/a'')" by code_simp
  from parse_url_split [OF p] p show ?thesis by simp
qed

end
