(* ===== verification/HtmlTree.thy ===== *)
theory HtmlTree
  imports UrlFormat
begin

text \<open>
  What a page says and where it points: \<open>get_links_contents\<close> and \<open>find_title\<close>
  (\<open>src/utils/parse_html.cc\<close>), which walk the tree that the Gumbo parser builds.  The tree is a datatype
  with the node kinds and tags the code tells apart; how an attribute is looked up is Gumbo's
  (\<open>get_attribute\<close>, over attribute vectors of any type \<open>'a\<close>).  A link that \<open>format_url\<close> reads out of bounds
  on makes the whole walk undefined, which is \<open>None\<close>.
\<close>

section \<open>The tree and the walk\<close>

datatype tag = TAG_A | TAG_HEAD | TAG_TITLE | TAG_SCRIPT | TAG_STYLE | TAG_OTHER nat

datatype 'a gumbo_node =
    Node_Element tag 'a "'a gumbo_node list"
  | Node_Text string
  | Node_Whitespace string
  | Node_Other

text \<open>Gumbo hands texts out as C strings, which end at the first NUL.\<close>

definition c_str :: "string \<Rightarrow> string" where
  "c_str s = takeWhile (\<lambda>c. c \<noteq> NUL) s"

text \<open>The link of an anchor.\<close>

definition collect_link :: "('a \<Rightarrow> string \<Rightarrow> string option) \<Rightarrow> tag \<Rightarrow> 'a \<Rightarrow> string set \<Rightarrow> string set option" where
  "collect_link get_attribute tg attrs links =
     (if tg = TAG_A
      then (case get_attribute attrs ''href'' of
              None \<Rightarrow> Some links
            | Some href \<Rightarrow>
                (case format_url (c_str href) of
                   None \<Rightarrow> None
                 | Some u \<Rightarrow> Some (if u \<noteq> [] \<and> length u \<le> URL_SIZE then insert u links else links)))
      else Some links)"

fun get_links_contents ::
    "('a \<Rightarrow> string \<Rightarrow> string option) \<Rightarrow> 'a gumbo_node \<Rightarrow> string set \<times> string \<Rightarrow> (string set \<times> string) option"
and visit_children ::
    "('a \<Rightarrow> string \<Rightarrow> string option) \<Rightarrow> nat \<Rightarrow> 'a gumbo_node list \<Rightarrow> string set \<times> string \<Rightarrow>
     (string set \<times> string) option" where
  "get_links_contents ga (Node_Text s) (links, contents) = Some (links, contents @ c_str s)"
| "get_links_contents ga (Node_Element tg attrs children) (links, contents) =
     (if tg = TAG_SCRIPT \<or> tg = TAG_STYLE then Some (links, contents)
      else (case collect_link ga tg attrs links of
              None \<Rightarrow> None
            | Some links \<Rightarrow> visit_children ga 0 children (links, contents)))"
| "get_links_contents ga (Node_Whitespace s) st = Some st"
| "get_links_contents ga Node_Other st = Some st"
| "visit_children ga i [] st = Some st"
| "visit_children ga i (child # children) (links, contents) =
     (case get_links_contents ga child (links, contents) of
        None \<Rightarrow> None
      | Some (links', contents') \<Rightarrow>
          visit_children ga (i + 1) children
            (links', if i \<noteq> 0 \<and> contents \<noteq> contents' then contents' @ [NL] else contents'))"

section \<open>The title\<close>

fun is_element :: "tag \<Rightarrow> 'a gumbo_node \<Rightarrow> bool" where
  "is_element tg (Node_Element tg' _ _) = (tg' = tg)"
| "is_element tg _ = False"

fun children_of :: "'a gumbo_node \<Rightarrow> 'a gumbo_node list" where
  "children_of (Node_Element _ _ children) = children"
| "children_of _ = []"

text \<open>Both loops stop at the first child that is the element looked for.\<close>

fun first_child :: "tag \<Rightarrow> 'a gumbo_node list \<Rightarrow> 'a gumbo_node option" where
  "first_child tg [] = None"
| "first_child tg (c # cs) = (if is_element tg c then Some c else first_child tg cs)"

fun title_text :: "'a gumbo_node \<Rightarrow> string" where
  "title_text (Node_Text s) = c_str s"
| "title_text (Node_Whitespace s) = c_str s"
| "title_text _ = ''''"

definition find_title :: "'a gumbo_node \<Rightarrow> string" where
  "find_title root =
     (case first_child TAG_HEAD (children_of root) of
        None \<Rightarrow> ''''
      | Some head \<Rightarrow>
          (case first_child TAG_TITLE (children_of head) of
             None \<Rightarrow> ''''
           | Some title \<Rightarrow> (case children_of title of [t] \<Rightarrow> title_text t | _ \<Rightarrow> '''')))"

section \<open>What the walk computes\<close>

text \<open>
  The specification: the addresses in the anchors outside scripts and styles, and the text, where every
  child but the first that says something ends its line.
\<close>

fun hrefs :: "('a \<Rightarrow> string \<Rightarrow> string option) \<Rightarrow> 'a gumbo_node \<Rightarrow> string list" where
  "hrefs ga (Node_Element tg attrs children) =
     (if tg = TAG_SCRIPT \<or> tg = TAG_STYLE then []
      else (if tg = TAG_A then (case ga attrs ''href'' of None \<Rightarrow> [] | Some h \<Rightarrow> [c_str h]) else []) @
        concat (map (hrefs ga) children))"
| "hrefs ga _ = []"

definition end_line :: "string \<Rightarrow> string" where
  "end_line t = (if t = [] then [] else t @ [NL])"

fun text_of :: "'a gumbo_node \<Rightarrow> string" where
  "text_of (Node_Text s) = c_str s"
| "text_of (Node_Element tg attrs children) =
     (if tg = TAG_SCRIPT \<or> tg = TAG_STYLE then []
      else (case map text_of children of [] \<Rightarrow> [] | t # ts \<Rightarrow> t @ concat (map end_line ts)))"
| "text_of _ = []"

definition good_link :: "string \<Rightarrow> bool" where
  "good_link u \<longleftrightarrow> u \<noteq> [] \<and> length u \<le> URL_SIZE"

text \<open>All the addresses of a list, or \<open>None\<close> when one of them cannot be read.\<close>

definition add_links :: "string list \<Rightarrow> string set \<Rightarrow> string set option" where
  "add_links hs links =
     (if \<exists>h \<in> set hs. format_url h = None then None
      else Some (links \<union> {u. \<exists>h \<in> set hs. format_url h = Some u \<and> good_link u}))"

lemma add_links_Nil [simp]: "add_links [] links = Some links"
  by (simp add: add_links_def)

lemma add_links_append:
  "add_links (xs @ ys) links = (case add_links xs links of None \<Rightarrow> None | Some links \<Rightarrow> add_links ys links)"
  by (auto simp: add_links_def)

lemma collect_link_add:
  "collect_link ga tg attrs links =
     add_links (if tg = TAG_A then (case ga attrs ''href'' of None \<Rightarrow> [] | Some h \<Rightarrow> [c_str h]) else []) links"
proof (cases "tg = TAG_A")
  case True
  show ?thesis
  proof (cases "ga attrs ''href''")
    case (Some h)
    then show ?thesis using True
      by (cases "format_url (c_str h)") (auto simp: collect_link_def add_links_def good_link_def)
  qed (simp add: collect_link_def True)
qed (simp add: collect_link_def)

definition walked :: "string list \<Rightarrow> string \<Rightarrow> string set \<times> string \<Rightarrow> (string set \<times> string) option" where
  "walked hs t st = map_option (\<lambda>links. (links, snd st @ t)) (add_links hs (fst st))"

lemma walked_append:
  "walked (xs @ ys) (s @ t) st = (case walked xs s st of None \<Rightarrow> None | Some st \<Rightarrow> walked ys t st)"
  by (simp add: walked_def add_links_append split: option.split)

lemma walk_spec:
  "get_links_contents ga n st = walked (hrefs ga n) (text_of n) st"
  "visit_children ga i ns st =
     walked (concat (map (hrefs ga) ns))
       (concat (case map text_of ns of [] \<Rightarrow> [] | t # ts \<Rightarrow> (if i = 0 then t else end_line t) # map end_line ts)) st"
proof (induction ga n st and ga i ns st rule: get_links_contents_visit_children.induct)
  case (2 ga tg attrs children links contents)
  show ?case
  proof (cases "tg = TAG_SCRIPT \<or> tg = TAG_STYLE")
    case False
    have t: "text_of (Node_Element tg attrs children) = concat (case map text_of children of [] \<Rightarrow> [] |
        t # ts \<Rightarrow> t # map end_line ts)"
      using False by (simp split: list.split)
    show ?thesis
    proof (cases "collect_link ga tg attrs links")
      case None
      then show ?thesis using False
        by (simp add: collect_link_add walked_def add_links_append del: text_of.simps)
    next
      case (Some l)
      have "walked (concat (map (hrefs ga) children)) (text_of (Node_Element tg attrs children)) (l, contents) =
          visit_children ga 0 children (l, contents)"
        unfolding t 2(1)[OF False Some] by (simp cong: list.case_cong)
      then show ?thesis using False Some
        by (simp add: collect_link_add walked_def add_links_append del: text_of.simps)
    qed
  qed (auto simp: walked_def)
next
  case (6 ga i child children links contents)
  show ?case
  proof (cases "get_links_contents ga child (links, contents)")
    case None
    then have "add_links (hrefs ga child) links = None"
      using 6(1) by (simp add: walked_def)
    then show ?thesis using None by (simp add: walked_def add_links_append)
  next
    case (Some st')
    obtain links' contents' where st': "st' = (links', contents')" by fastforce
    have a: "add_links (hrefs ga child) links = Some links'" "contents' = contents @ text_of child"
      using 6(1)[symmetric] unfolding Some st' by (auto simp: walked_def)
    show ?thesis
      using 6(2)[OF Some st'[symmetric]] Some st' a
      by (auto simp: walked_def add_links_append end_line_def split: list.split option.split)
  qed
qed (auto simp: walked_def)

text \<open>
  C13. The recursive walk, which threads the set of links and the text through the whole tree and compares
  the text before and after every child, computes exactly this: it is undefined when an anchor outside
  scripts and styles has an address that \<open>format_url\<close> leaves the string on; otherwise it adds the normal
  forms of those addresses that are not empty and fit into \<open>URL_SIZE\<close>, no other address, and appends the
  text of the tree, whatever was collected before.
\<close>

theorem get_links_contents_collects:
  "get_links_contents ga n (links, contents) =
     (if \<exists>h \<in> set (hrefs ga n). format_url h = None then None
      else Some (links \<union> {u. u \<noteq> [] \<and> length u \<le> URL_SIZE \<and> (\<exists>h \<in> set (hrefs ga n). format_url h = Some u)},
                 contents @ text_of n))"
  by (auto simp: walk_spec(1) walked_def add_links_def good_link_def)

section \<open>A page that cannot be read\<close>

text \<open>The whole page is lost as soon as one anchor points to the root of its site.\<close>

definition root_link :: "string \<Rightarrow> string gumbo_node" where
  "root_link href = Node_Element TAG_A href [Node_Text ''home'']"

definition below :: "tag list \<Rightarrow> string gumbo_node \<Rightarrow> string gumbo_node" where
  "below tgs n = foldr (\<lambda>tg n. Node_Element tg '''' [Node_Text ''a'', n, Node_Text ''b'']) tgs n"

lemma below_Cons [simp]: "below (tg # tgs) n = Node_Element tg '''' [Node_Text ''a'', below tgs n, Node_Text ''b'']"
  by (simp add: below_def)

lemma hrefs_below:
  "set tgs \<inter> {TAG_SCRIPT, TAG_STYLE} = {} \<Longrightarrow> set (hrefs ga n) \<subseteq> set (hrefs ga (below tgs n))"
proof (induction tgs)
  case Nil
  show ?case by (simp add: below_def)
next
  case (Cons tg tgs)
  have t: "tg \<noteq> TAG_SCRIPT" "tg \<noteq> TAG_STYLE" "set tgs \<inter> {TAG_SCRIPT, TAG_STYLE} = {}"
    using Cons.prems by (simp_all add: eq_commute [of _ tg])
  then have "set (hrefs ga (below tgs n)) \<subseteq> set (hrefs ga (below (tg # tgs) n))"
    by (cases "tg = TAG_A") (simp_all add: le_supI2)
  then show ?case using Cons.IH t(3) by simp
qed

text \<open>
  A page with one anchor whose address is a slash, the root of its own site, is out of bounds for the
  walk, wherever the anchor stands outside scripts and styles.
\<close>

theorem root_link_loses_page:
  assumes "set tgs \<inter> {TAG_SCRIPT, TAG_STYLE} = {}"
  shows "get_links_contents (\<lambda>href a. Some href) (below tgs (root_link ''/'')) st = None"
proof -
  have "''/'' \<in> set (hrefs (\<lambda>href a. Some href) (below tgs (root_link ''/'')))"
    using hrefs_below [OF assms, of "\<lambda>href a. Some href" "root_link ''/''"] by (simp add: root_link_def c_str_def)
  moreover have "format_url ''/'' = None"
    by (simp add: format_url_reference URL_SIZE_def lower_char_def head_blank_def tail_blank_def char_between_code codes)
  ultimately have "add_links (hrefs (\<lambda>href a. Some href) (below tgs (root_link ''/''))) (fst st) = None"
    unfolding add_links_def by (simp del: hrefs.simps) blast
  then show ?thesis
    by (simp add: walk_spec(1) walked_def)
qed

theorem root_link_loses_page_witness:
  "get_links_contents (\<lambda>href a. Some href) (below [TAG_OTHER 0, TAG_OTHER 7] (root_link ''/'')) ({}, '''') = None"
  by (rule root_link_loses_page) simp

end
