(* ===== verification/SharedRing.thy ===== *)
theory SharedRing
  imports HtmlTree
begin

text \<open>
  The shared memory of the spider (\<open>src/spider/shmctrl.h\<close>) and the loops of \<open>crawl_worker.cc\<close>,
  \<open>parse_worker.cc\<close> and \<open>master.cc\<close> that put into its two ring queues and take from them.  A queue is an
  array of fixed-size character cells with a head and a tail subscript; a cell of the address queue holds an
  address, a cell of the page queue an address and a page.  What both rings promise is the locale
  \<open>shared_queue\<close>, a queue of readable values; the batch loops are proved on it.
\<close>

section \<open>The memory\<close>

definition HTML_SIZE :: nat where "HTML_SIZE = 1048576"
definition HTML_NUMS :: nat where "HTML_NUMS = 60"
definition URL_NUMS :: nat where "URL_NUMS = 20000"

record ring =
  cells :: "string list"
  head_pos :: nat
  tail_pos :: nat

record shmctrl =
  url_queue :: ring
  html_queue :: ring

text \<open>\<open>memset\<close> and the zero subscripts: \<open>n\<close> cells of \<open>w\<close> characters.\<close>

definition zero_ring :: "nat \<Rightarrow> nat \<Rightarrow> ring" where
  "zero_ring n w = \<lparr>cells = replicate n (replicate w NUL), head_pos = 0, tail_pos = 0\<rparr>"

definition new_shmctrl :: shmctrl where
  "new_shmctrl = \<lparr>url_queue = zero_ring URL_NUMS URL_SIZE, html_queue = zero_ring HTML_NUMS (HTML_SIZE + URL_SIZE)\<rparr>"

definition ring_empty :: "ring \<Rightarrow> bool" where
  "ring_empty r \<longleftrightarrow> head_pos r = tail_pos r"

definition ring_full :: "ring \<Rightarrow> bool" where
  "ring_full r \<longleftrightarrow> (tail_pos r + 1) mod length (cells r) = head_pos r"

definition url_insert_size :: "ring \<Rightarrow> nat" where
  "url_insert_size r =
     (if head_pos r = tail_pos r then length (cells r) - 1
      else nat ((int (head_pos r) - int (tail_pos r) + int (length (cells r))) mod int (length (cells r)) - 1))"

definition ring_front :: "ring \<Rightarrow> string" where
  "ring_front r = cells r ! head_pos r"

definition ring_advance :: "ring \<Rightarrow> ring" where
  "ring_advance r = r\<lparr>head_pos := (head_pos r + 1) mod length (cells r)\<rparr>"

definition ring_store :: "(string \<Rightarrow> string) \<Rightarrow> ring \<Rightarrow> ring" where
  "ring_store write r =
     r\<lparr>cells := (cells r)[tail_pos r := write (cells r ! tail_pos r)],
       tail_pos := (tail_pos r + 1) mod length (cells r)\<rparr>"

section \<open>Cells\<close>

text \<open>Copying \<open>s\<close> into an array from subscript \<open>at\<close> on, character by character.\<close>

fun copy_chars :: "string \<Rightarrow> nat \<Rightarrow> string \<Rightarrow> string" where
  "copy_chars [] at cell = cell"
| "copy_chars (c # s) at cell = copy_chars s (at + 1) (cell[at := c])"

definition end_str :: "nat \<Rightarrow> nat \<Rightarrow> string \<Rightarrow> string" where
  "end_str i bound cell = (if i < bound then cell[i := NUL] else cell)"

definition write_url_cell :: "string \<Rightarrow> string \<Rightarrow> string" where
  "write_url_cell url cell =
     (let s = take URL_SIZE url in end_str (length s) URL_SIZE (copy_chars s 0 cell))"

text \<open>The characters of an array before the first NUL, up to a bound.\<close>

definition read_chars :: "nat \<Rightarrow> nat \<Rightarrow> string \<Rightarrow> string" where
  "read_chars from to cell = c_str (drop from (take to cell))"

text \<open>Reading into the array \<open>work_url\<close>: a string that fills it is not terminated.\<close>

definition load_work :: "string \<Rightarrow> string \<Rightarrow> string" where
  "load_work cell work =
     (let s = read_chars 0 URL_SIZE cell in end_str (length s) URL_SIZE (copy_chars s 0 work))"

text \<open>A line of a file is copied without a bound; \<open>None\<close> is a write past the array.\<close>

definition load_line :: "string \<Rightarrow> string \<Rightarrow> string option" where
  "load_line buf work =
     (if URL_SIZE < length buf then None else Some (end_str (length buf) URL_SIZE (copy_chars buf 0 work)))"

text \<open>\<open>work_url\<close> as a C string; \<open>None\<close> is a read past the array.\<close>

definition work_string :: "string \<Rightarrow> string option" where
  "work_string work = (if NUL \<in> set work then Some (c_str work) else None)"

definition write_html_cell :: "string \<Rightarrow> string \<Rightarrow> string \<Rightarrow> string" where
  "write_html_cell work html cell =
     (let s = read_chars 0 URL_SIZE work;
          cell = end_str (length s) URL_SIZE (copy_chars s 0 cell);
          s = drop URL_SIZE (take HTML_SIZE html);
          i = URL_SIZE + length s
      in end_str i HTML_SIZE (copy_chars s URL_SIZE cell))"

definition read_html_cell :: "string \<Rightarrow> string \<Rightarrow> string \<times> string" where
  "read_html_cell cell work = (load_work cell work, read_chars URL_SIZE HTML_SIZE cell)"

section \<open>The batch loops\<close>

text \<open>Putting links until the size found before is used up; the rest is returned.\<close>

fun put_links :: "nat \<Rightarrow> string list \<Rightarrow> ring \<Rightarrow> ring \<times> string list" where
  "put_links (Suc k) (url # links) r = put_links k links (ring_store (write_url_cell url) r)"
| "put_links k links r = (r, links)"

definition insert_links :: "string list \<Rightarrow> ring \<Rightarrow> ring \<times> string list" where
  "insert_links links r = put_links (min (url_insert_size r) (length links)) links r"

text \<open>
  \<open>at_exit\<close> of \<open>master.cc\<close> empties the address queue into the file; with subscripts out of range the
  loop would not end, so it may be undefined.
\<close>

partial_function (option) drain_urls :: "ring \<Rightarrow> string list \<Rightarrow> (ring \<times> string list) option" where
  "drain_urls r out =
     (if ring_empty r then Some (r, out)
      else drain_urls (ring_advance r) (out @ [read_chars 0 URL_SIZE (ring_front r)]))"

section \<open>Lemmas on arrays\<close>

lemma copy_chars_length [simp]: "length (copy_chars s at cell) = length cell"
  by (induction s at cell rule: copy_chars.induct) simp_all

lemma copy_chars_take_drop:
  "at + length s \<le> length cell \<Longrightarrow> copy_chars s at cell = take at cell @ s @ drop (at + length s) cell"
proof (induction s at cell rule: copy_chars.induct)
  case (2 c s at cell)
  then have "at < length cell" by simp
  then have "take (at + 1) (cell[at := c]) = take at cell @ [c]" "drop (at + 1 + length s) (cell[at := c]) = drop (at + 1 + length s) cell"
    by (simp_all add: take_Suc_conv_app_nth)
  then show ?case using 2 by simp
qed simp

lemma end_str_length [simp]: "length (end_str i b cell) = length cell"
  by (simp add: end_str_def)

lemma c_str_no_NUL: "NUL \<notin> set (c_str s)"
  by (auto simp: c_str_def dest: set_takeWhileD)

lemma c_str_id: "NUL \<notin> set s \<Longrightarrow> c_str s = s"
  by (auto simp: c_str_def takeWhile_eq_all_conv)

lemma c_str_append_NUL: "c_str (s @ NUL # t) = c_str s"
  unfolding c_str_def by (induction s) auto

lemma c_str_length: "length (c_str s) \<le> length s"
  by (simp add: c_str_def length_takeWhile_le)

text \<open>What stands in an array after a copy that is ended inside its bound.\<close>

lemma copy_end_read:
  assumes "at + length s \<le> b" "b \<le> length cell"
  shows "read_chars at b (end_str (at + length s) b (copy_chars s at cell)) = c_str s"
proof (cases "at + length s < b")
  case True
  have e: "(take at cell @ s @ drop (at + length s) cell)[at + length s := NUL] =
      take at cell @ s @ NUL # drop (at + length s + 1) cell"
    using True assms by (simp add: list_update_append flip: Cons_nth_drop_Suc)
  obtain n where n: "b - (at + length s) = Suc n"
    using True by (metis Suc_diff_Suc)
  have "read_chars at b (end_str (at + length s) b (copy_chars s at cell)) =
      c_str (s @ take (b - (at + length s)) (NUL # drop (at + length s + 1) cell))"
    using True assms by (simp add: read_chars_def end_str_def copy_chars_take_drop e drop_take)
  also have "\<dots> = c_str s"
    by (simp add: n c_str_append_NUL)
  finally show ?thesis .
next
  case False
  then show ?thesis using assms by (simp add: read_chars_def end_str_def copy_chars_take_drop)
qed

lemma copy_end_take:
  assumes "at \<le> length cell" "at + length s \<le> length cell" "k \<le> at"
  shows "take k (end_str (at + length s) b (copy_chars s at cell)) = take k cell"
  using assms by (simp add: end_str_def copy_chars_take_drop)

section \<open>The rings as queues\<close>

definition ring_ok :: "nat \<Rightarrow> ring \<Rightarrow> bool" where
  "ring_ok w r \<longleftrightarrow> 2 \<le> length (cells r) \<and> head_pos r < length (cells r) \<and> tail_pos r < length (cells r) \<and>
     (\<forall>c \<in> set (cells r). length c = w)"

definition ring_used :: "ring \<Rightarrow> nat" where
  "ring_used r = (tail_pos r + length (cells r) - head_pos r) mod length (cells r)"

definition ring_pos :: "ring \<Rightarrow> nat \<Rightarrow> nat" where
  "ring_pos r i = (head_pos r + i) mod length (cells r)"

definition ring_items :: "ring \<Rightarrow> string list" where
  "ring_items r = map (\<lambda>i. cells r ! ring_pos r i) [0..<ring_used r]"

lemma mod_wrap: "a < 2 * n \<Longrightarrow> a mod n = (if a < n then a else a - (n::nat))"
  by (simp add: mod_if)

lemma used_cases:
  "ring_ok w r \<Longrightarrow> ring_used r =
     (if head_pos r \<le> tail_pos r then tail_pos r - head_pos r else tail_pos r + length (cells r) - head_pos r)"
  by (auto simp: ring_used_def ring_ok_def mod_wrap)

lemma pos_cases:
  "ring_ok w r \<Longrightarrow> i < length (cells r) \<Longrightarrow> ring_pos r i =
     (if head_pos r + i < length (cells r) then head_pos r + i else head_pos r + i - length (cells r))"
  by (auto simp: ring_pos_def ring_ok_def mod_wrap)

lemma next_cases:
  "i < n \<Longrightarrow> 2 \<le> n \<Longrightarrow> (i + 1) mod n = (if i + 1 = n then 0 else i + (1::nat))"
  by (simp add: mod_wrap)

lemma used_lt: "ring_ok w r \<Longrightarrow> ring_used r < length (cells r)"
  by (frule used_cases) (auto simp: ring_ok_def)

lemma empty_used: "ring_ok w r \<Longrightarrow> ring_empty r \<longleftrightarrow> ring_used r = 0"
  by (frule used_cases) (auto simp: ring_ok_def ring_empty_def split: if_splits)

lemma full_used: "ring_ok w r \<Longrightarrow> ring_full r \<longleftrightarrow> ring_used r = length (cells r) - 1"
proof -
  assume r: "ring_ok w r"
  then have "(tail_pos r + 1) mod length (cells r) = (if tail_pos r + 1 = length (cells r) then 0 else tail_pos r + 1)"
    by (intro next_cases) (simp_all add: ring_ok_def)
  then show ?thesis
    using r by (auto simp: used_cases[OF r] ring_full_def ring_ok_def)
qed

lemma insert_size_used: "ring_ok w r \<Longrightarrow> url_insert_size r = length (cells r) - 1 - ring_used r"
proof -
  assume r: "ring_ok w r"
  let ?n = "length (cells r)"
  have "(int (head_pos r) - int (tail_pos r) + int ?n) mod int ?n =
      (if head_pos r < tail_pos r then int (head_pos r) - int (tail_pos r) + int ?n else int (head_pos r) - int (tail_pos r))"
  proof (cases "head_pos r < tail_pos r")
    case True
    then show ?thesis using r by (intro mod_pos_pos_trivial[THEN trans]) (auto simp: ring_ok_def)
  next
    case False
    have "(int (head_pos r) - int (tail_pos r) + int ?n) mod int ?n = (int (head_pos r) - int (tail_pos r)) mod int ?n"
      by simp
    also have "\<dots> = int (head_pos r) - int (tail_pos r)"
      using False r by (intro mod_pos_pos_trivial) (auto simp: ring_ok_def)
    finally show ?thesis using False by simp
  qed
  then show ?thesis
    using r by (auto simp: url_insert_size_def used_cases[OF r] ring_ok_def nat_diff_distrib)
qed

lemma store_ok:
  "ring_ok w r \<Longrightarrow> (\<And>c. length c = w \<Longrightarrow> length (write c) = w) \<Longrightarrow> ring_ok w (ring_store write r)"
  by (auto simp: ring_ok_def ring_store_def set_conv_nth nth_list_update intro!: mod_less_divisor)

lemma store_items:
  assumes "ring_ok w r" "\<not> ring_full r"
  shows "ring_items (ring_store write r) = ring_items r @ [write (cells r ! tail_pos r)]"
proof -
  let ?n = "length (cells r)" and ?r = "ring_store write r"
  have lt: "head_pos r < ?n" "tail_pos r < ?n" "2 \<le> ?n" using assms by (auto simp: ring_ok_def)
  have u: "ring_used r < ?n - 1"
    using assms used_lt[OF assms(1)] full_used[OF assms(1)] by linarith
  have len: "length (cells ?r) = ?n" "head_pos ?r = head_pos r"
    "tail_pos ?r = (if tail_pos r + 1 = ?n then 0 else tail_pos r + 1)"
    using lt next_cases[of "tail_pos r" ?n] by (simp_all add: ring_store_def)
  have ok: "2 \<le> length (cells ?r)" "head_pos ?r < length (cells ?r)" "tail_pos ?r < length (cells ?r)"
    using lt len by auto
  have u': "ring_used ?r = ring_used r + 1"
    using u lt unfolding ring_used_def len by (auto simp: mod_wrap split: if_splits)
  have pos: "ring_pos ?r i = ring_pos r i" for i
    by (simp add: ring_pos_def len)
  have last_pos: "ring_pos r (ring_used r) = tail_pos r"
    using u lt by (auto simp: pos_cases[OF assms(1)] used_cases[OF assms(1)])
  have other: "tail_pos r \<noteq> ring_pos r i" if "i < ring_used r" for i
    using that u lt by (auto simp: pos_cases[OF assms(1)] used_cases[OF assms(1)] split: if_splits)
  show ?thesis
    using other lt by (simp add: ring_items_def u' pos last_pos) (simp add: ring_store_def nth_list_update_neq)
qed

lemma advance_ok: "ring_ok w r \<Longrightarrow> ring_ok w (ring_advance r)"
  by (auto simp: ring_ok_def ring_advance_def intro!: mod_less_divisor)

lemma advance_items:
  assumes "ring_ok w r" "\<not> ring_empty r"
  shows "ring_items r = ring_front r # ring_items (ring_advance r)"
proof -
  let ?n = "length (cells r)" and ?r = "ring_advance r"
  have lt: "head_pos r < ?n" "tail_pos r < ?n" "2 \<le> ?n" using assms by (auto simp: ring_ok_def)
  have h: "head_pos ?r = (if head_pos r + 1 = ?n then 0 else head_pos r + 1)" "cells ?r = cells r" "tail_pos ?r = tail_pos r"
    using lt next_cases[of "head_pos r" ?n] by (simp_all add: ring_advance_def)
  obtain u where u: "ring_used r = Suc u"
    using assms empty_used[OF assms(1)] by (metis not0_implies_Suc)
  have u': "ring_used ?r = u"
    using u lt unfolding ring_used_def h by (auto simp: mod_wrap split: if_splits)
  have pos: "ring_pos ?r i = ring_pos r (Suc i)" for i
    unfolding ring_pos_def by (simp add: ring_advance_def mod_add_left_eq)
  show ?thesis
    using lt by (simp add: ring_items_def u u' pos upt_conv_Cons map_Suc_upt[symmetric] comp_def del: upt_Suc)
      (simp add: ring_front_def ring_pos_def h)
qed

section \<open>The contract\<close>

locale shared_queue =
  fixes good :: "'q \<Rightarrow> bool" and contents :: "'q \<Rightarrow> 'b list" and capacity :: "'q \<Rightarrow> nat"
    and empty full :: "'q \<Rightarrow> bool" and room :: "'q \<Rightarrow> nat"
    and put :: "'a \<Rightarrow> 'q \<Rightarrow> 'q" and canon :: "'a \<Rightarrow> 'b" and front :: "'q \<Rightarrow> 'b" and advance :: "'q \<Rightarrow> 'q"
  assumes put_good: "good q \<Longrightarrow> good (put x q)"
    and put_capacity: "capacity (put x q) = capacity q"
    and put_contents: "good q \<Longrightarrow> \<not> full q \<Longrightarrow> contents (put x q) = contents q @ [canon x]"
    and advance_good: "good q \<Longrightarrow> good (advance q)"
    and advance_capacity: "capacity (advance q) = capacity q"
    and advance_contents: "good q \<Longrightarrow> \<not> empty q \<Longrightarrow> contents q = front q # contents (advance q)"
    and empty_contents: "good q \<Longrightarrow> empty q \<longleftrightarrow> contents q = []"
    and full_contents: "good q \<Longrightarrow> full q \<longleftrightarrow> length (contents q) = capacity q"
    and contents_capacity: "good q \<Longrightarrow> length (contents q) \<le> capacity q"
    and room_contents: "good q \<Longrightarrow> room q = capacity q - length (contents q)"
begin

lemma put_many:
  "good q \<Longrightarrow> length xs \<le> room q \<Longrightarrow>
     good (foldl (\<lambda>q x. put x q) q xs) \<and> contents (foldl (\<lambda>q x. put x q) q xs) = contents q @ map canon xs \<and>
     capacity (foldl (\<lambda>q x. put x q) q xs) = capacity q"
proof (induction xs arbitrary: q)
  case (Cons x xs)
  then have "\<not> full q"
    using contents_capacity[of q] by (auto simp: full_contents room_contents)
  with Cons show ?case
    by (simp add: put_good put_contents put_capacity room_contents)
qed simp

lemma advance_many:
  "good q \<Longrightarrow> k \<le> length (contents q) \<Longrightarrow>
     good ((advance ^^ k) q) \<and> contents q = take k (contents q) @ contents ((advance ^^ k) q)"
proof (induction k arbitrary: q)
  case (Suc k)
  then have e: "\<not> empty q" by (auto simp: empty_contents)
  note c = advance_contents[OF Suc.prems(1) e]
  have "k \<le> length (contents (advance q))" using Suc.prems(2) c by (metis Suc_le_mono length_Cons)
  with Suc.IH[OF advance_good[OF Suc.prems(1)]] show ?case
    by (subst (1 2) c) (simp add: funpow_swap1)
qed simp

end


definition url_contents :: "ring \<Rightarrow> string list" where
  "url_contents r = map (read_chars 0 URL_SIZE) (ring_items r)"

definition html_contents :: "ring \<Rightarrow> (string \<times> string) list" where
  "html_contents r = map (\<lambda>cell. (read_chars 0 URL_SIZE cell, read_chars URL_SIZE HTML_SIZE cell)) (ring_items r)"

text \<open>What the readers get of what the writers put.\<close>

definition url_seen :: "string \<Rightarrow> string" where
  "url_seen url = c_str (take URL_SIZE url)"

definition html_seen :: "string \<times> string \<Rightarrow> string \<times> string" where
  "html_seen = (\<lambda>(work, html). (read_chars 0 URL_SIZE work, c_str (drop URL_SIZE (take HTML_SIZE html))))"

definition ring_capacity :: "ring \<Rightarrow> nat" where
  "ring_capacity r = length (cells r) - 1"

lemma write_url_length [simp]: "length (write_url_cell u c) = length c"
  by (simp add: write_url_cell_def Let_def)

lemma write_html_length [simp]: "length (write_html_cell w h c) = length c"
  by (simp add: write_html_cell_def Let_def)

lemma read_write_url: "length c = URL_SIZE \<Longrightarrow> read_chars 0 URL_SIZE (write_url_cell u c) = url_seen u"
  using copy_end_read[of 0 "take URL_SIZE u" URL_SIZE c] by (simp add: write_url_cell_def Let_def url_seen_def)

lemma read_chars_length: "length (read_chars from to cell) \<le> to - from"
  unfolding read_chars_def using c_str_length[of "drop from (take to cell)"] by simp

lemma read_chars_take: "to \<le> k \<Longrightarrow> read_chars from to (take k cell) = read_chars from to cell"
  by (simp add: read_chars_def min_def)

lemma sizes: "URL_SIZE \<le> HTML_SIZE" "0 < URL_SIZE"
  by (simp_all add: URL_SIZE_def HTML_SIZE_def)

lemma read_write_html:
  assumes "length c = HTML_SIZE + URL_SIZE"
  shows "(read_chars 0 URL_SIZE (write_html_cell w h c), read_chars URL_SIZE HTML_SIZE (write_html_cell w h c)) = html_seen (w, h)"
proof -
  define s where "s = read_chars 0 URL_SIZE w"
  define c1 where "c1 = end_str (length s) URL_SIZE (copy_chars s 0 c)"
  define t where "t = drop URL_SIZE (take HTML_SIZE h)"
  have len: "length c1 = HTML_SIZE + URL_SIZE" "length s \<le> URL_SIZE" "URL_SIZE + length t \<le> HTML_SIZE"
    using assms read_chars_length[of 0 URL_SIZE w] sizes by (auto simp: c1_def s_def t_def)
  have w: "write_html_cell w h c = end_str (URL_SIZE + length t) HTML_SIZE (copy_chars t URL_SIZE c1)"
    by (simp add: write_html_cell_def Let_def s_def c1_def t_def)
  have "read_chars 0 URL_SIZE (write_html_cell w h c) = read_chars 0 URL_SIZE (take URL_SIZE (write_html_cell w h c))"
    by (simp add: read_chars_take)
  also have "\<dots> = read_chars 0 URL_SIZE (take URL_SIZE c1)"
    using len unfolding w by (subst copy_end_take) simp_all
  also have "\<dots> = c_str s"
    using copy_end_read[of 0 s URL_SIZE c] len assms by (simp add: read_chars_take c1_def)
  also have "\<dots> = s"
    unfolding s_def read_chars_def by (rule c_str_id[OF c_str_no_NUL])
  finally have "read_chars 0 URL_SIZE (write_html_cell w h c) = s" .
  moreover have "read_chars URL_SIZE HTML_SIZE (write_html_cell w h c) = c_str t"
    unfolding w using copy_end_read[of URL_SIZE t HTML_SIZE c1] len by simp
  ultimately show ?thesis
    by (simp add: html_seen_def s_def t_def)
qed

lemma ring_cell: "ring_ok w r \<Longrightarrow> length (cells r ! tail_pos r) = w"
  by (auto simp: ring_ok_def)

lemma ring_items_length [simp]: "length (ring_items r) = ring_used r"
  by (simp add: ring_items_def)

lemma ring_items_Nil: "ring_ok w r \<Longrightarrow> ring_items r = [] \<longleftrightarrow> ring_empty r"
  by (simp add: empty_used flip: length_0_conv)

interpretation url: shared_queue "ring_ok URL_SIZE" url_contents ring_capacity ring_empty ring_full url_insert_size
  "\<lambda>u. ring_store (write_url_cell u)" url_seen "\<lambda>r. read_chars 0 URL_SIZE (ring_front r)" ring_advance
proof
  fix q x
  show "ring_ok URL_SIZE q \<Longrightarrow> ring_ok URL_SIZE (ring_store (write_url_cell x) q)"
    by (rule store_ok) simp_all
  show "ring_capacity (ring_store (write_url_cell x) q) = ring_capacity q"
    by (simp add: ring_capacity_def ring_store_def)
  show "ring_ok URL_SIZE q \<Longrightarrow> \<not> ring_full q \<Longrightarrow>
      url_contents (ring_store (write_url_cell x) q) = url_contents q @ [url_seen x]"
    by (simp add: url_contents_def store_items read_write_url ring_cell)
qed (auto simp: url_contents_def advance_ok ring_capacity_def ring_advance_def[THEN arg_cong[of _ _ cells]]
  dest: ring_items_Nil full_used insert_size_used used_lt advance_items)

interpretation page: shared_queue "ring_ok (HTML_SIZE + URL_SIZE)" html_contents ring_capacity ring_empty ring_full
  url_insert_size "\<lambda>(w, h). ring_store (write_html_cell w h)" html_seen
  "\<lambda>r. (read_chars 0 URL_SIZE (ring_front r), read_chars URL_SIZE HTML_SIZE (ring_front r))" ring_advance
proof
  fix q and x :: "string \<times> string"
  obtain w h where x: "x = (w, h)" by fastforce
  show "ring_ok (HTML_SIZE + URL_SIZE) q \<Longrightarrow> ring_ok (HTML_SIZE + URL_SIZE) ((\<lambda>(w, h). ring_store (write_html_cell w h)) x q)"
    unfolding x prod.case by (rule store_ok) simp_all
  show "ring_capacity ((\<lambda>(w, h). ring_store (write_html_cell w h)) x q) = ring_capacity q"
    by (simp add: ring_capacity_def ring_store_def x)
  show "ring_ok (HTML_SIZE + URL_SIZE) q \<Longrightarrow> \<not> ring_full q \<Longrightarrow>
      html_contents ((\<lambda>(w, h). ring_store (write_html_cell w h)) x q) = html_contents q @ [html_seen x]"
    by (simp add: html_contents_def store_items read_write_html ring_cell x)
qed (auto simp: html_contents_def advance_ok ring_capacity_def ring_advance_def[THEN arg_cong[of _ _ cells]]
  dest: ring_items_Nil full_used insert_size_used used_lt advance_items)

section \<open>What the loops do to the queues\<close>

lemma put_links_foldl:
  "put_links k links r = (foldl (\<lambda>r u. ring_store (write_url_cell u) r) r (take k links), drop k links)"
  by (induction k links r rule: put_links.induct) simp_all

lemma insert_links_queue:
  fixes links :: "string list"
  assumes "ring_ok URL_SIZE r"
  defines "k \<equiv> min (ring_capacity r - length (url_contents r)) (length links)"
  shows "snd (insert_links links r) = drop k links" "ring_ok URL_SIZE (fst (insert_links links r))"
    "url_contents (fst (insert_links links r)) = url_contents r @ map url_seen (take k links)"
    "ring_capacity (fst (insert_links links r)) = ring_capacity r"
proof -
  have k: "min (url_insert_size r) (length links) = k"
    using url.room_contents[OF assms(1)] by (simp add: k_def)
  have "length (take k links) \<le> url_insert_size r" using k by simp
  note p = url.put_many[OF assms(1) this]
  show "snd (insert_links links r) = drop k links" "ring_ok URL_SIZE (fst (insert_links links r))"
    "url_contents (fst (insert_links links r)) = url_contents r @ map url_seen (take k links)"
    "ring_capacity (fst (insert_links links r)) = ring_capacity r"
    using p by (simp_all add: insert_links_def put_links_foldl k)
qed

lemma zero_ring_ok [simp]: "2 \<le> n \<Longrightarrow> ring_ok w (zero_ring n w)"
  by (simp add: ring_ok_def zero_ring_def)

lemma zero_ring_contents [simp]: "2 \<le> n \<Longrightarrow> url_contents (zero_ring n w) = []" "ring_capacity (zero_ring n w) = n - 1"
  by (simp_all add: url_contents_def ring_items_def ring_used_def zero_ring_def ring_capacity_def)

text \<open>
  What the processes see of the address queue: the critical sections under \<open>url_lock\<close>, in the order the
  mutex gives them.
\<close>

datatype url_event = Put_Links "string list" | Take_Url
datatype url_seen_event = Spilled "string list" | Got string | Nothing

fun ring_step :: "url_event \<Rightarrow> ring \<Rightarrow> ring \<times> url_seen_event" where
  "ring_step (Put_Links links) r = (case insert_links links r of (r, rest) \<Rightarrow> (r, Spilled rest))"
| "ring_step Take_Url r =
     (if ring_empty r then (r, Nothing) else (ring_advance r, Got (read_chars 0 URL_SIZE (ring_front r))))"

text \<open>The specification: a queue of strings with a bound.\<close>

fun fifo_step :: "nat \<Rightarrow> url_event \<Rightarrow> string list \<Rightarrow> string list \<times> url_seen_event" where
  "fifo_step cap (Put_Links links) q =
     (let k = min (cap - length q) (length links) in (q @ map url_seen (take k links), Spilled (drop k links)))"
| "fifo_step cap Take_Url [] = ([], Nothing)"
| "fifo_step cap Take_Url (u # q) = (q, Got u)"

fun history :: "('e \<Rightarrow> 's \<Rightarrow> 's \<times> 'o) \<Rightarrow> 'e list \<Rightarrow> 's \<Rightarrow> 's \<times> 'o list" where
  "history step [] s = (s, [])"
| "history step (e # es) s = (case step e s of (s, x) \<Rightarrow> (case history step es s of (s, xs) \<Rightarrow> (s, x # xs)))"

lemma ring_step_simulates:
  assumes "ring_ok URL_SIZE r"
  shows "ring_ok URL_SIZE (fst (ring_step e r)) \<and> ring_capacity (fst (ring_step e r)) = ring_capacity r \<and>
    fifo_step (ring_capacity r) e (url_contents r) = (url_contents (fst (ring_step e r)), snd (ring_step e r))"
proof (cases e)
  case (Put_Links links)
  then show ?thesis using insert_links_queue[OF assms, of links] by (simp add: Let_def case_prod_unfold)
next
  case Take_Url
  show ?thesis
  proof (cases "ring_empty r")
    case True
    then have "url_contents r = []" using url.empty_contents[OF assms] by simp
    then show ?thesis using True Take_Url assms by simp
  next
    case False
    then show ?thesis
      using url.advance_contents[OF assms False] url.advance_good[OF assms] Take_Url
      by (simp add: ring_capacity_def ring_advance_def)
  qed
qed

lemma ring_history_simulates:
  "ring_ok URL_SIZE r \<Longrightarrow>
     ring_ok URL_SIZE (fst (history ring_step es r)) \<and>
     history (fifo_step (ring_capacity r)) es (url_contents r) =
       (url_contents (fst (history ring_step es r)), snd (history ring_step es r))"
proof (induction es arbitrary: r)
  case (Cons e es)
  obtain r' x where e: "ring_step e r = (r', x)" by fastforce
  have s: "ring_ok URL_SIZE r'" "ring_capacity r' = ring_capacity r"
    "fifo_step (ring_capacity r) e (url_contents r) = (url_contents r', x)"
    using ring_step_simulates[OF Cons.prems, of e] by (simp_all add: e)
  show ?case using Cons.IH[OF s(1)] s(2,3) by (simp add: e case_prod_unfold)
qed simp

text \<open>
  C10. From the memory the master sets up, and for every sequence of critical sections on the address
  queue, whichever processes run them, the array with its two subscripts behaves as a first-in first-out
  queue of at most \<open>URL_NUMS - 1\<close> addresses: the same addresses are read, in the same order, and the same
  links do not fit.
\<close>

theorem url_queue_refines:
  "snd (history ring_step es (url_queue new_shmctrl)) = snd (history (fifo_step (URL_NUMS - 1)) es [])"
proof -
  have "2 \<le> URL_NUMS" by (simp add: URL_NUMS_def)
  then show ?thesis
    using ring_history_simulates[of "url_queue new_shmctrl" es] by (simp add: new_shmctrl_def)
qed

text \<open>
  When the master ends, the loop of \<open>at_exit\<close> on a well-formed queue ends too, and has written every
  address left, in the order of the queue, each as the workers would have read it.
\<close>

theorem drain_urls_writes_all:
  "ring_ok URL_SIZE r \<Longrightarrow>
     \<exists>r'. drain_urls r out = Some (r', out @ url_contents r) \<and> ring_empty r' \<and> ring_ok URL_SIZE r'"
proof (induction "length (url_contents r)" arbitrary: r out)
  case 0
  then have "ring_empty r" using url.empty_contents by simp
  then show ?case using 0 by (simp add: drain_urls.simps)
next
  case (Suc n)
  then have e: "\<not> ring_empty r" using url.empty_contents[OF Suc.prems] by auto
  note a = url.advance_contents[OF Suc.prems e]
  have "n = length (url_contents (ring_advance r))" using Suc.hyps(2) a by (metis Suc_inject length_Cons)
  from Suc.hyps(1)[OF this url.advance_good[OF Suc.prems], of "out @ [read_chars 0 URL_SIZE (ring_front r)]"] show ?case
    by (subst drain_urls.simps, subst a) (simp add: e)
qed

theorem drain_urls_writes_all_witness:
  "\<exists>r'. drain_urls (fst (insert_links [''a.com'', ''b.org''] (url_queue new_shmctrl))) [] = Some (r', [''a.com'', ''b.org''])"
proof -
  let ?r = "url_queue new_shmctrl"
  have "2 \<le> URL_NUMS" by (simp add: URL_NUMS_def)
  then have ok: "ring_ok URL_SIZE ?r" "url_contents ?r = []" "ring_capacity ?r = URL_NUMS - 1"
    by (simp_all add: new_shmctrl_def)
  have "url_contents (fst (insert_links [''a.com'', ''b.org''] ?r)) = [''a.com'', ''b.org'']"
    using insert_links_queue(3)[OF ok(1), of "[''a.com'', ''b.org'']"] ok(2,3)
    by (simp add: URL_NUMS_def url_seen_def URL_SIZE_def c_str_def)
  then show ?thesis
    using drain_urls_writes_all[OF insert_links_queue(2)[OF ok(1), of "[''a.com'', ''b.org'']"], of "[]"] by auto
qed

text \<open>
  A page that goes through the page queue loses its start: the copy loop of the crawler starts both
  the cell and the page at subscript \<open>URL_SIZE\<close>.  The parser gets the address and what stands after the
  first \<open>URL_SIZE\<close> bytes of the page, nothing at all of a shorter one, and never the page itself.
\<close>

theorem page_queue_loses_start:
  assumes "ring_ok (HTML_SIZE + URL_SIZE) r" "\<not> ring_full r" "NUL \<notin> set html" "length html \<le> HTML_SIZE" "html \<noteq> []"
  shows "html_contents (ring_store (write_html_cell work html) r) =
      html_contents r @ [(read_chars 0 URL_SIZE work, drop URL_SIZE html)] \<and> drop URL_SIZE html \<noteq> html"
proof -
  have n: "NUL \<notin> set (drop URL_SIZE html)"
    using assms(3) set_drop_subset by fastforce
  have "length (drop URL_SIZE html) \<noteq> length html"
    using assms(5) sizes by (cases html) auto
  then have "drop URL_SIZE html \<noteq> html" by metis
  then show ?thesis
    using page.put_contents[OF assms(1,2), of "(work, html)"] assms(4) c_str_id[OF n] by (simp add: html_seen_def)
qed

theorem page_queue_loses_start_witness:
  "html_contents (ring_store (write_html_cell ''a.com'' ''<html></html>'') (html_queue new_shmctrl)) = [(''a.com'', '''')]"
proof -
  have n: "2 \<le> HTML_NUMS" by (simp add: HTML_NUMS_def)
  have ok: "ring_ok (HTML_SIZE + URL_SIZE) (html_queue new_shmctrl)" "html_contents (html_queue new_shmctrl) = []"
    "\<not> ring_full (html_queue new_shmctrl)"
    using n by (simp_all add: new_shmctrl_def html_contents_def ring_items_def ring_used_def ring_full_def zero_ring_def)
      (simp add: ring_ok_def)
  show ?thesis
    using page_queue_loses_start[OF ok(1,3), of "''<html></html>''" "''a.com''"] ok(2)
    by (simp add: HTML_SIZE_def URL_SIZE_def read_chars_def c_str_def)
qed

end
