(* ===== verification/HeapSelect.thy ===== *)
theory HeapSelect
  imports Prelude "HOL-Library.Multiset"
begin

text \<open>
  The selection of one page of results in \<open>PlainSearchStrategy::handle\<close>
  (\<open>src/strategy/plain_search_strategy.hpp\<close>): the addresses found are put in an array, the array is made
  a heap over their weights, and only as many of the largest elements as the page needs are moved to the
  end.  The array is a list, the hash table of weights a function \<open>key\<close>; every subscript the code uses is
  inside the array (\<open>sift_down\<close> reads below its bound only).
\<close>

section \<open>The code\<close>

definition swap :: "'a list \<Rightarrow> nat \<Rightarrow> nat \<Rightarrow> 'a list" where
  "swap arr i j = arr[i := arr ! j, j := arr ! i]"

text \<open>The larger child of \<open>q\<close> below \<open>bound\<close>, or \<open>q\<close> itself when none is larger.\<close>

definition larger :: "('a \<Rightarrow> nat) \<Rightarrow> 'a list \<Rightarrow> nat \<Rightarrow> nat \<Rightarrow> nat" where
  "larger key arr bound q =
     (let left = q * 2 + 1; right = q * 2 + 2;
          nxt = (if left < bound \<and> key (arr ! left) > key (arr ! q) then left else q)
      in if right < bound \<and> key (arr ! right) > key (arr ! nxt) then right else nxt)"

function sift_down :: "('a \<Rightarrow> nat) \<Rightarrow> nat \<Rightarrow> nat \<Rightarrow> 'a list \<Rightarrow> 'a list" where
  "sift_down key bound q arr =
     (if \<not> q < bound then arr
      else let nxt = larger key arr bound q in
        if q = nxt then arr else sift_down key bound nxt (swap arr q nxt))"
  by pat_completeness auto
termination
  by (relation "measure (\<lambda>(key, bound, q, arr). bound - q)") (auto simp: larger_def Let_def split: if_splits)

declare sift_down.simps [simp del]

text \<open>\<open>for (p = end / 2; p >= 0; --p)\<close> with \<open>n = end + 1\<close> elements.\<close>

fun build_heap :: "('a \<Rightarrow> nat) \<Rightarrow> nat \<Rightarrow> nat \<Rightarrow> 'a list \<Rightarrow> 'a list" where
  "build_heap key n 0 arr = sift_down key n 0 arr"
| "build_heap key n (Suc p) arr = build_heap key n p (sift_down key n (Suc p) arr)"

definition heap_sort1 :: "('a \<Rightarrow> nat) \<Rightarrow> nat \<Rightarrow> 'a list \<Rightarrow> 'a list" where
  "heap_sort1 key tail arr = (if tail = 0 then arr else sift_down key tail 0 (swap arr tail 0))"

text \<open>\<open>for (i = 0; i <= end_sub; ++i) heap_sort1(end - i)\<close>: \<open>k\<close> rounds, from position \<open>tail\<close> down.\<close>

fun sort_tail :: "('a \<Rightarrow> nat) \<Rightarrow> nat \<Rightarrow> nat \<Rightarrow> 'a list \<Rightarrow> 'a list" where
  "sort_tail key 0 tail arr = arr"
| "sort_tail key (Suc k) tail arr = sort_tail key k (tail - 1) (heap_sort1 key tail arr)"

text \<open>The page: the elements \<open>start_sub\<close> to \<open>end_sub\<close>, counted from the end of the array.\<close>

definition select_page :: "('a \<Rightarrow> nat) \<Rightarrow> 'a list \<Rightarrow> nat \<Rightarrow> nat \<Rightarrow> 'a list" where
  "select_page key xs start_sub end_sub =
     (let n = length xs;
          arr = sort_tail key (end_sub + 1) (n - 1) (build_heap key n ((n - 1) div 2) xs)
      in map (\<lambda>j. arr ! (n - 1 - j)) [start_sub..<end_sub + 1])"

section \<open>Swaps\<close>

lemma length_swap [simp]: "length (swap arr i j) = length arr"
  by (simp add: swap_def)

lemma mset_swap' [simp]: "i < length arr \<Longrightarrow> j < length arr \<Longrightarrow> mset (swap arr i j) = mset arr"
  unfolding swap_def by (rule mset_swap)

lemma nth_swap:
  "i < length arr \<Longrightarrow> j < length arr \<Longrightarrow> k < length arr \<Longrightarrow>
    swap arr i j ! k = (if k = i then arr ! j else if k = j then arr ! i else arr ! k)"
  by (auto simp: swap_def nth_list_update)

lemma larger_cases:
  assumes "q < bound"
  shows "larger key arr bound q = q \<or>
    (larger key arr bound q < bound \<and> q < larger key arr bound q \<and> (larger key arr bound q - 1) div 2 = q \<and>
     key (arr ! q) < key (arr ! larger key arr bound q))"
  using assms by (auto simp: larger_def Let_def)

lemma larger_max:
  assumes "j < bound" "0 < j" "(j - 1) div 2 = q"
  shows "key (arr ! j) \<le> key (arr ! larger key arr bound q)"
proof -
  have "j = q * 2 + 1 \<or> j = q * 2 + 2" using assms(2,3) by auto
  then show ?thesis using assms(1) by (auto simp: larger_def Let_def)
qed

lemma sift_down_keeps:
  "bound \<le> length arr \<Longrightarrow> length (sift_down key bound q arr) = length arr \<and>
    mset (sift_down key bound q arr) = mset arr \<and>
    (\<forall>k. bound \<le> k \<longrightarrow> k < length arr \<longrightarrow> sift_down key bound q arr ! k = arr ! k)"
proof (induction key bound q arr rule: sift_down.induct)
  case (1 key bound q arr)
  let ?n = "larger key arr bound q"
  show ?case
  proof (cases "q < bound \<and> q \<noteq> ?n")
    case True
    then have n: "?n < bound" "q < bound" using larger_cases [of q bound key arr] by auto
    have "sift_down key bound q arr = sift_down key bound ?n (swap arr q ?n)"
      using True by (subst sift_down.simps) (simp add: Let_def)
    with 1 True n show ?thesis by (auto simp: nth_swap)
  qed (auto simp: sift_down.simps [of key bound q arr] Let_def)
qed

section \<open>Heaps\<close>

text \<open>Below \<open>n\<close>, every node whose parent is at least \<open>k\<close> is not larger than its parent.\<close>

definition heap_from :: "('a \<Rightarrow> nat) \<Rightarrow> nat \<Rightarrow> nat \<Rightarrow> 'a list \<Rightarrow> bool" where
  "heap_from key k n arr \<longleftrightarrow>
     (\<forall>j<n. 0 < j \<longrightarrow> k \<le> (j - 1) div 2 \<longrightarrow> key (arr ! j) \<le> key (arr ! ((j - 1) div 2)))"

text \<open>The same but for the children of \<open>q\<close>, which are not larger than its parent.\<close>

definition heap_but :: "('a \<Rightarrow> nat) \<Rightarrow> nat \<Rightarrow> nat \<Rightarrow> nat \<Rightarrow> 'a list \<Rightarrow> bool" where
  "heap_but key q k n arr \<longleftrightarrow>
     (\<forall>j<n. 0 < j \<longrightarrow> k \<le> (j - 1) div 2 \<longrightarrow> (j - 1) div 2 \<noteq> q \<longrightarrow> key (arr ! j) \<le> key (arr ! ((j - 1) div 2))) \<and>
     (\<forall>j<n. 0 < j \<longrightarrow> (j - 1) div 2 = q \<longrightarrow> 0 < q \<longrightarrow> k \<le> (q - 1) div 2 \<longrightarrow>
        key (arr ! j) \<le> key (arr ! ((q - 1) div 2)))"

lemma heap_but_step:
  assumes h: "heap_but key q k bound arr" and b: "bound \<le> length arr" "q < bound"
    and n: "n < bound" "q < n" "(n - 1) div 2 = q" "key (arr ! q) < key (arr ! n)"
    and m: "\<And>j. j < bound \<Longrightarrow> 0 < j \<Longrightarrow> (j - 1) div 2 = q \<Longrightarrow> key (arr ! j) \<le> key (arr ! n)"
  shows "heap_but key n k bound (swap arr q n)"
proof -
  have s: "swap arr q n ! j = (if j = q then arr ! n else if j = n then arr ! q else arr ! j)" if "j < bound" for j
    using that b n by (intro nth_swap) auto
  have p: "(j - 1) div 2 < j" if "0 < j" for j :: nat using that by auto
  have h1: "key (arr ! j) \<le> key (arr ! ((j - 1) div 2))"
    if "j < bound" "0 < j" "k \<le> (j - 1) div 2" "(j - 1) div 2 \<noteq> q" for j
    using h that unfolding heap_but_def by blast
  have h2: "key (arr ! j) \<le> key (arr ! ((q - 1) div 2))"
    if "j < bound" "0 < j" "(j - 1) div 2 = q" "0 < q" "k \<le> (q - 1) div 2" for j
    using h that unfolding heap_but_def by blast
  show ?thesis unfolding heap_but_def
  proof (intro conjI allI impI)
    fix j assume j: "j < bound" "0 < j" "k \<le> (j - 1) div 2" "(j - 1) div 2 \<noteq> n"
    have pj: "(j - 1) div 2 < bound" using p [OF j(2)] j(1) by simp
    consider "(j - 1) div 2 = q" | "j = q" "(j - 1) div 2 \<noteq> q" | "j \<noteq> q" "(j - 1) div 2 \<noteq> q" by blast
    then show "key (swap arr q n ! j) \<le> key (swap arr q n ! ((j - 1) div 2))"
    proof cases
      case 1
      then have "j \<noteq> q" using p [OF j(2)] by auto
      then show ?thesis using 1 s [OF j(1)] s [OF pj] m [OF j(1,2) 1] n(4) by auto
    next
      case 2
      then have "0 < q" "k \<le> (q - 1) div 2" using j by auto
      then have "key (arr ! n) \<le> key (arr ! ((q - 1) div 2))" using h2 [OF n(1) _ n(3)] n(2) by auto
      then show ?thesis using 2 s [OF j(1)] s [OF pj] j(4) by auto
    next
      case 3
      have "j \<noteq> n" using 3 n(3) by auto
      then show ?thesis using 3 s [OF j(1)] s [OF pj] h1 [OF j(1-3) 3(2)] j(4) by auto
    qed
  next
    fix j assume j: "j < bound" "0 < j" "(j - 1) div 2 = n" "0 < n" "k \<le> (n - 1) div 2"
    have "j \<noteq> q" "j \<noteq> n" using p [OF j(2)] j(3) n(2) by auto
    moreover have "key (arr ! j) \<le> key (arr ! n)" using h1 [OF j(1,2)] j(3) j(5) n(2,3) by auto
    ultimately show "key (swap arr q n ! j) \<le> key (swap arr q n ! ((n - 1) div 2))"
      using s [OF j(1)] s [OF b(2)] n(3) by simp
  qed
qed

lemma sift_down_heap:
  "heap_but key q k bound arr \<Longrightarrow> bound \<le> length arr \<Longrightarrow> heap_from key k bound (sift_down key bound q arr)"
proof (induction key bound q arr rule: sift_down.induct)
  case (1 key bound q arr)
  let ?n = "larger key arr bound q"
  show ?case
  proof (cases "q < bound")
    case False
    then have "(j - 1) div 2 \<noteq> q" if "j < bound" for j using that by auto
    with 1(2) False show ?thesis by (auto simp: sift_down.simps [of key bound q arr] heap_from_def heap_but_def)
  next
    case q: True
    show ?thesis
    proof (cases "q = ?n")
      case True
      then have "key (arr ! j) \<le> key (arr ! q)" if "j < bound" "0 < j" "(j - 1) div 2 = q" for j
        using larger_max [OF that, of key arr] by simp
      with 1(2) True q show ?thesis
        by (auto simp: sift_down.simps [of key bound q arr] heap_from_def heap_but_def Let_def)
    next
      case False
      with larger_cases [OF q, of key arr] have n: "?n < bound" "q < ?n" "(?n - 1) div 2 = q"
        "key (arr ! q) < key (arr ! ?n)" by auto
      have "heap_but key ?n k bound (swap arr q ?n)"
        using heap_but_step [OF 1(2,3) q n] larger_max [of _ bound q key arr] by blast
      moreover have "sift_down key bound q arr = sift_down key bound ?n (swap arr q ?n)"
        using q False by (subst sift_down.simps) (simp add: Let_def)
      ultimately show ?thesis using 1(1) [OF _ refl] q False 1(3) by simp
    qed
  qed
qed


lemma build_heap_heap:
  "heap_from key (Suc p) n arr \<Longrightarrow> n \<le> length arr \<Longrightarrow>
    heap_from key 0 n (build_heap key n p arr) \<and> mset (build_heap key n p arr) = mset arr \<and>
    length (build_heap key n p arr) = length arr"
proof (induction key n p arr rule: build_heap.induct)
  case (1 key n arr)
  have "heap_but key 0 0 n arr" using 1(1) by (auto simp: heap_from_def heap_but_def)
  with sift_down_heap [of key 0 0 n arr] sift_down_keeps [OF 1(2), of key 0] 1(2) show ?case by simp
next
  case (2 key n p arr)
  have "heap_but key (Suc p) (Suc p) n arr" using "2.prems"(1) by (auto simp: heap_from_def heap_but_def)
  with sift_down_heap [of key "Suc p" "Suc p" n arr] sift_down_keeps [OF "2.prems"(2), of key "Suc p"] 2
  show ?case by simp
qed

lemma heap_max: "heap_from key 0 n arr \<Longrightarrow> j < n \<Longrightarrow> key (arr ! j) \<le> key (arr ! 0)"
proof (induction j rule: less_induct)
  case (less j)
  show ?case
  proof (cases "j = 0")
    case False
    then have "(j - 1) div 2 < j" by auto
    with less have "key (arr ! ((j - 1) div 2)) \<le> key (arr ! 0)" by simp
    moreover have "key (arr ! j) \<le> key (arr ! ((j - 1) div 2))"
      using less.prems False by (auto simp: heap_from_def)
    ultimately show ?thesis by simp
  qed simp
qed

section \<open>The sorted end of the array\<close>

text \<open>A heap below \<open>m\<close>; from \<open>m\<close> on sorted, and nothing below \<open>m\<close> larger.\<close>

definition split_at :: "('a \<Rightarrow> nat) \<Rightarrow> nat \<Rightarrow> 'a list \<Rightarrow> bool" where
  "split_at key m arr \<longleftrightarrow> m \<le> length arr \<and> heap_from key 0 m arr \<and>
     (\<forall>j. m \<le> j \<longrightarrow> j < length arr \<longrightarrow> (\<forall>i<j. key (arr ! i) \<le> key (arr ! j)))"

lemma heap_sort1_split:
  assumes "split_at key (Suc m) arr"
  shows "split_at key m (heap_sort1 key m arr) \<and> mset (heap_sort1 key m arr) = mset arr \<and>
    length (heap_sort1 key m arr) = length arr"
proof -
  have l: "m < length arr" and hp: "heap_from key 0 (Suc m) arr"
    and up: "\<And>i j. Suc m \<le> j \<Longrightarrow> j < length arr \<Longrightarrow> i < j \<Longrightarrow> key (arr ! i) \<le> key (arr ! j)"
    using assms by (auto simp: split_at_def)
  show ?thesis
  proof (cases "m = 0")
    case True
    have "key (arr ! i) \<le> key (arr ! j)" if "j < length arr" "i < j" for i j
      using up [of j i] that True by auto
    then show ?thesis using True l by (simp add: split_at_def heap_sort1_def heap_from_def)
  next
    case False
    let ?s = "swap arr m 0"
    let ?r = "sift_down key m 0 ?s"
    have s: "?s ! j = (if j = m then arr ! 0 else if j = 0 then arr ! m else arr ! j)" if "j < length arr" for j
      using that l by (intro nth_swap) auto
    have "heap_but key 0 0 m ?s"
      using hp s l by (auto simp: heap_from_def heap_but_def)
    then have h: "heap_from key 0 m ?r" using l by (intro sift_down_heap) auto
    have ms: "mset ?s = mset arr" using l by (intro mset_swap') auto
    have keep: "length ?r = length arr" "mset ?r = mset arr" "\<forall>k. m \<le> k \<longrightarrow> k < length arr \<longrightarrow> ?r ! k = ?s ! k"
      using sift_down_keeps [of m ?s key 0] l ms by auto
    have "key (?r ! i) \<le> key (?r ! j)" if j: "m \<le> j" "j < length arr" "i < j" for i j
    proof -
      have rj: "?r ! j = ?s ! j" using keep(3) j by simp
      have bound: "key x \<le> key (?s ! j)" if "x \<in> set (take j ?s)" for x
      proof -
        from that obtain i' where i': "i' < j" "x = ?s ! i'" using j by (auto simp: in_set_conv_nth)
        show ?thesis
        proof (cases "j = m")
          case True
          then have "x = (if i' = 0 then arr ! m else arr ! i')" using i' s j by auto
          then show ?thesis using heap_max [OF hp, of m] heap_max [OF hp, of i'] i' True s [OF j(2)] by auto
        next
          case False
          then show ?thesis using up [of j] j i' s [of i'] s [OF j(2)] by (auto split: if_splits)
        qed
      qed
      have "set (take j ?r) = set (take j ?s)"
      proof -
        have "drop j ?r = drop j ?s" using keep j by (intro nth_equalityI) auto
        moreover have "mset (take j ?r) + mset (drop j ?r) = mset (take j ?s) + mset (drop j ?s)"
          using keep(2) ms by (simp flip: mset_append)
        ultimately have "mset (take j ?r) = mset (take j ?s)" by simp
        then show ?thesis by (metis set_mset_mset)
      qed
      moreover have "?r ! i \<in> set (take j ?r)" using j keep(1) by (auto simp: in_set_conv_nth)
      ultimately show ?thesis using bound rj by metis
    qed
    with h keep(1,2) l False show ?thesis by (simp add: split_at_def heap_sort1_def)
  qed
qed

lemma sort_tail_split:
  "k \<le> m \<Longrightarrow> split_at key m arr \<Longrightarrow>
    split_at key (m - k) (sort_tail key k (m - 1) arr) \<and> mset (sort_tail key k (m - 1) arr) = mset arr \<and>
    length (sort_tail key k (m - 1) arr) = length arr"
proof (induction k arbitrary: m arr)
  case (Suc k)
  then obtain m' where m: "m = Suc m'" by (cases m) auto
  note h = heap_sort1_split [of key m' arr]
  show ?case using Suc.IH [of m' "heap_sort1 key m' arr"] Suc.prems h by (simp add: m)
qed simp

lemma split_sorted:
  assumes "split_at key m arr"
  shows "drop m (map key arr) = drop m (sort (map key arr))"
proof -
  let ?ks = "map key arr"
  have l: "m \<le> length arr" and up: "\<And>i j. m \<le> j \<Longrightarrow> j < length arr \<Longrightarrow> i < j \<Longrightarrow> key (arr ! i) \<le> key (arr ! j)"
    using assms by (auto simp: split_at_def)
  have "sort ?ks = sort (take m ?ks) @ drop m ?ks"
  proof (rule properties_for_sort)
    have "mset (sort (take m ?ks) @ drop m ?ks) = mset (take m ?ks @ drop m ?ks)" by (simp only: mset_append mset_sort)
    then show "mset (sort (take m ?ks) @ drop m ?ks) = mset ?ks" by (simp only: append_take_drop_id)
    have "sorted (drop m ?ks)" using up by (auto simp: sorted_iff_nth_mono_less)
    moreover have "x \<le> y" if xy: "x \<in> set (take m ?ks)" "y \<in> set (drop m ?ks)" for x y
    proof -
      obtain i where i: "i < m" "x = key (arr ! i)" using xy(1) l by (auto simp: in_set_conv_nth)
      obtain j where j: "j < length arr - m" "y = key (arr ! (m + j))" using xy(2) by (auto simp: in_set_conv_nth)
      show ?thesis using up [of "m + j" i] i j by auto
    qed
    ultimately show "sorted (sort (take m ?ks) @ drop m ?ks)" by (simp add: sorted_append)
  qed
  then show ?thesis using l by simp
qed

lemma select_page_props:
  assumes "start_sub \<le> end_sub" "end_sub < length xs"
  shows "map key (select_page key xs start_sub end_sub) =
      take (end_sub + 1 - start_sub) (drop start_sub (rev (sort (map key xs)))) \<and>
    set (select_page key xs start_sub end_sub) \<subseteq> set xs \<and>
    (distinct xs \<longrightarrow> distinct (select_page key xs start_sub end_sub))"
proof -
  let ?n = "length xs" and ?k = "end_sub + 1"
  define arr where "arr = sort_tail key ?k (?n - 1) (build_heap key ?n ((?n - 1) div 2) xs)"
  have "heap_from key (Suc ((?n - 1) div 2)) ?n xs" by (auto simp: heap_from_def)
  note b = build_heap_heap [OF this, simplified]
  have "split_at key ?n (build_heap key ?n ((?n - 1) div 2) xs)" using b by (simp add: split_at_def)
  note t = sort_tail_split [OF _ this, of ?k]
  have a: "split_at key (?n - ?k) arr" "mset arr = mset xs" "length arr = ?n"
    using t b assms(2) by (simp_all add: arr_def)
  have page: "select_page key xs start_sub end_sub = map (\<lambda>j. arr ! (?n - 1 - j)) [start_sub..<?k]"
    unfolding select_page_def Let_def arr_def ..
  have srt: "sort (map key arr) = sort (map key xs)" using a(2) by (metis mset_map properties_for_sort sorted_sort mset_sort)
  have at: "key (arr ! (?n - 1 - j)) = rev (sort (map key xs)) ! j" if "j < ?k" for j
  proof -
    have i: "?n - ?k \<le> ?n - 1 - j" "?n - 1 - j < ?n" using that assms(2) by auto
    have "drop (?n - ?k) (map key arr) ! (?n - 1 - j - (?n - ?k)) = drop (?n - ?k) (sort (map key xs)) ! (?n - 1 - j - (?n - ?k))"
      using split_sorted [OF a(1)] srt by simp
    then show ?thesis using i a(3) that assms(2) by (simp add: rev_nth)
  qed
  have "map key (select_page key xs start_sub end_sub) =
      take (?k - start_sub) (drop start_sub (rev (sort (map key xs))))"
    using at assms by (intro nth_equalityI) (auto simp: page simp del: upt_Suc)
  moreover have "set arr = set xs" using a(2) by (metis set_mset_mset)
  then have "set (select_page key xs start_sub end_sub) \<subseteq> set xs"
    unfolding page using a(3) assms by (auto intro!: nth_mem simp del: upt_Suc)
  moreover have "distinct (select_page key xs start_sub end_sub)" if "distinct xs"
  proof -
    have "distinct arr" using that a(2) by (metis mset_eq_imp_distinct_iff)
    then show ?thesis using assms a(3)
      by (auto simp: page distinct_map inj_on_def nth_eq_iff_index_eq)
  qed
  ultimately show ?thesis by blast
qed

text \<open>
  C24.  The page is right: the addresses at positions \<open>start_sub\<close> to \<open>end_sub\<close> are addresses found, none
  twice, and their weights are those at these positions when all weights are sorted in falling order,
  although only the end of the array is sorted.
\<close>

theorem select_page_sorted:
  assumes "start_sub \<le> end_sub" "end_sub < length xs"
  shows "map key (select_page key xs start_sub end_sub) =
      take (end_sub + 1 - start_sub) (drop start_sub (rev (sort (map key xs)))) \<and>
    set (select_page key xs start_sub end_sub) \<subseteq> set xs \<and>
    (distinct xs \<longrightarrow> distinct (select_page key xs start_sub end_sub))"
  using assms by (rule select_page_props)

theorem select_page_sorted_witness:
  "map id (select_page id [3, 9, 4, 7, 5] 1 2) = take 2 (drop 1 (rev (sort [3, 9, 4, 7, 5])))"
  using select_page_sorted [of 1 2 "[3, 9, 4, 7, 5]" id] by simp

end
