(* ===== verification/Posting.thy ===== *)
theory Posting
  imports Prelude "HOL-Library.Word" "HOL-Library.Monad_Syntax"
begin

text \<open>
  Posting rows.  A row of \<open>amigao.reverse\<close> holds, for one word, the addresses it occurs on:
  \<open>N|w1_u1|w2_u2|...\<close>, heaviest first, where \<open>N\<close> is the number of nodes.  The lambda \<open>update_weight\<close>
  of \<open>ReverseValuateStrategy::handle\<close> (\<open>src/strategy/reverse_valuate_strategy.hpp\<close>) edits a row in
  place, by subscripts, when an address is valued again; the lambda \<open>parse_weight\<close> of
  \<open>PlainSearchStrategy::handle\<close> (\<open>src/strategy/plain_search_strategy.hpp\<close>) adds a row up for a search.
  A loop that leaves the string, the overflow of a counter and the use of a variable that was never
  set are \<open>None\<close>.  The stringstream \<open>ss\<close> is the one the lambda captures, threaded through.
\<close>

section \<open>update_weight\<close>

text \<open>\<open>ss << n; ss >> str; ss.clear();\<close> with an empty \<open>str\<close>.\<close>

definition count_str :: "int \<Rightarrow> sstream \<Rightarrow> string \<times> sstream" where
  "count_str n ss = ss_get_word (ss_put ss (int_str n)) []"

text \<open>\<open>ss << tmp; ss >> v; ss.clear();\<close> where \<open>v\<close> may not be set yet.\<close>

definition read_uint :: "string \<Rightarrow> nat option \<Rightarrow> sstream \<Rightarrow> (nat \<times> sstream) option" where
  "read_uint tmp old ss =
     (case old of Some v \<Rightarrow> Some (ss_get_uint 32 (ss_put ss tmp) v)
      | None \<Rightarrow> if dropWhile is_space (ss_put ss tmp) = [] then None
                else Some (ss_get_uint 32 (ss_put ss tmp) 0))"

text \<open>Taking the address out: the only node (the lambda returns), or the row without it.\<close>

datatype removed = Only string sstream | Kept string int sstream

definition remove_url :: "string \<Rightarrow> string \<Rightarrow> nat \<Rightarrow> int \<Rightarrow> string \<Rightarrow> sstream \<Rightarrow> removed option" where
  "remove_url url insert_node first nums s ss =
     (case str_find (CHR ''_'' # url @ ''|'') s of
        None \<Rightarrow> do {
          i \<leftarrow> scan_back CHR ''_'' s (length s - 1);
          if substr s (i + 1) (length s) = url
          then if nums = 1 then Some (Only (''1'' @ insert_node) ss)
            else if nums = int_min then None
            else do {
              let (n, ss) = count_str (nums - 1) ss;
              k \<leftarrow> scan_back CHR ''|'' s i;
              Some (Kept (n @ substr s first (k - first)) (nums - 1) ss) }
          else Some (Kept s nums ss) }
      | Some pos \<Rightarrow> do {
          i \<leftarrow> scan_to CHR ''_'' s first;
          if nums = int_min then None
          else do {
            let (n, ss) = count_str (nums - 1) ss;
            if i = pos
            then do {
              k \<leftarrow> scan_to CHR ''|'' s i;
              Some (Kept (n @ substr s k (length s)) (nums - 1) ss) }
            else do {
              k \<leftarrow> scan_back CHR ''|'' s pos;
              j \<leftarrow> scan_to CHR ''|'' s pos;
              Some (Kept (n @ substr s first (k - first) @ substr s j (length s)) (nums - 1) ss) } } })"

text \<open>
  The loop over the nodes: the start of the first node that is not heavier, or the end of the row.
\<close>

function seek :: "string \<Rightarrow> nat \<Rightarrow> nat \<Rightarrow> nat \<Rightarrow> nat \<Rightarrow> sstream \<Rightarrow> (nat option \<times> sstream) option" where
  "seek s cur prev nxt w ss =
     (if \<not> cur < w then Some (Some prev, ss)
      else if nxt = length s then Some (None, ss)
      else if length s < nxt then None
      else case scan_to CHR ''_'' s (nxt + 2) of None \<Rightarrow> None
        | Some p \<Rightarrow> case read_uint (substr s (nxt + 1) (p - (nxt + 1))) (Some w) ss of None \<Rightarrow> None
          | Some (w', ss') \<Rightarrow>
              seek s cur (nxt + 1) (scan_while (\<lambda>c. c \<noteq> CHR ''|'') s (nxt + 1)) w' ss')"
  by pat_completeness auto
termination
  by (relation "measure (\<lambda>(s, cur, prev, nxt, w, ss). Suc (length s) - nxt)")
     (auto simp: less_Suc_eq_le intro!: diff_less_mono2 order.strict_trans2 [OF _ scan_while_ge])

declare seek.simps [simp del]

definition add_url :: "nat \<Rightarrow> string \<Rightarrow> string \<Rightarrow> sstream \<Rightarrow> (string \<times> sstream) option" where
  "add_url cur insert_node s ss = do {
     first \<leftarrow> scan_to CHR ''|'' s 0;
     let prev = first + 1;
     p \<leftarrow> scan_to CHR ''_'' s (prev + 1);
     (w, ss) \<leftarrow> read_uint (substr s prev (p - prev)) None ss;
     (at, ss) \<leftarrow> seek s cur prev (scan_while (\<lambda>c. c \<noteq> CHR ''|'') s (prev + 2)) w ss;
     Some (case at of None \<Rightarrow> s @ insert_node
           | Some prev \<Rightarrow> substr s 0 (prev - 1) @ insert_node @ substr s (prev - 1) (length s), ss) }"

definition fix_count :: "int \<Rightarrow> int \<Rightarrow> string \<Rightarrow> sstream \<Rightarrow> (string \<times> sstream) option" where
  "fix_count max_urls nums s ss =
     (if nums = max_urls
      then do { i \<leftarrow> scan_back CHR ''|'' s (length s - 1); Some (substr s 0 i, ss) }
      else if nums = int_max then None
      else do {
        let (n, ss) = count_str (nums + 1) ss;
        i \<leftarrow> scan_to CHR ''|'' s 0;
        Some (n @ substr s i (length s), ss) })"

text \<open>\<open>cur_weight\<close> is the entry of \<open>wordno_weight\<close> for the row, 0 when it has none.\<close>

definition update_weight ::
    "int \<Rightarrow> nat \<Rightarrow> string \<Rightarrow> string \<Rightarrow> sstream \<Rightarrow> (string \<times> sstream) option" where
  "update_weight max_urls cur_weight url s ss =
     (if cur_weight = 0 then Some (s, ss)
      else let (cur_str, ss) = ss_get_word (ss_put ss (nat_str cur_weight)) [] in
        if cur_str = [] \<or> \<not> char_between CHR ''1'' CHR ''9'' (hd cur_str) then Some (s, ss)
        else do {
          let insert_node = CHR ''|'' # cur_str @ CHR ''_'' # url;
          first \<leftarrow> scan_to CHR ''|'' s 0;
          let (nums, ss) = ss_get_int int_min int_max (ss_put ss (substr s 0 first)) 1;
          r \<leftarrow> remove_url url insert_node first nums s ss;
          case r of
            Only s ss \<Rightarrow> Some (s, ss)
          | Kept s nums ss \<Rightarrow> do {
              (s, ss) \<leftarrow> add_url cur_weight insert_node s ss;
              fix_count max_urls nums s ss } })"

section \<open>parse_weight\<close>

text \<open>
  The unsigned product wraps at 32 bits (\<open>times\<close> is a \<open>short\<close>, converted to unsigned) and the sums are
  kept in 64 bits.  \<open>tmp_int\<close> is declared in the loop and never set before the extraction.
\<close>

lemma node_end_after:
  assumes "scan_to c s (Suc i) = Some p" "i < length s"
  shows "length s - scan_while P s (Suc p) < length s - i"
  using scan_to_ge [OF assms(1)] scan_while_ge [of "Suc p" P s] assms(2) by linarith

function parse_nodes ::
    "string \<Rightarrow> int \<Rightarrow> nat \<Rightarrow> sstream \<Rightarrow> (string \<rightharpoonup> 64 word) \<Rightarrow> (string \<rightharpoonup> 64 word) option" where
  "parse_nodes s occ i ss m =
     (if \<not> i < length s then Some m
      else case scan_to CHR ''_'' s (i + 1) of None \<Rightarrow> None
        | Some p \<Rightarrow> case read_uint (substr s (i + 1) (p - (i + 1))) None ss of None \<Rightarrow> None
          | Some (v, ss) \<Rightarrow>
              let tmp_int = (of_nat v :: 32 word) * of_int occ;
                  k = scan_while (\<lambda>c. c \<noteq> CHR ''|'') s (p + 1);
                  u = substr s (p + 1) (k - (p + 1))
              in parse_nodes s occ k ss
                   (if u = ''0'' then m
                    else m(u \<mapsto> (case m u of None \<Rightarrow> 0 | Some x \<Rightarrow> x) + ucast tmp_int)))"
  by pat_completeness auto
termination
  by (relation "measure (\<lambda>(s, occ, i, ss, m). length s - i)") (auto dest: node_end_after)

declare parse_nodes.simps [simp del]

definition parse_weight :: "string \<Rightarrow> int \<Rightarrow> (string \<rightharpoonup> 64 word) \<Rightarrow> (string \<rightharpoonup> 64 word) option" where
  "parse_weight s occ m =
     (case scan_to CHR ''|'' s 0 of None \<Rightarrow> None | Some i \<Rightarrow> parse_nodes s occ i [] m)"


section \<open>Rows as lists of nodes\<close>

definition node :: "nat \<times> nat \<Rightarrow> string" where
  "node n = CHR ''|'' # nat_str (fst n) @ CHR ''_'' # nat_str (snd n)"

definition body :: "(nat \<times> nat) list \<Rightarrow> string" where
  "body ps = concat (map node ps)"

definition row :: "(nat \<times> nat) list \<Rightarrow> string" where
  "row ps = nat_str (length ps) @ body ps"

lemma body_simps [simp]: "body [] = []" "body (n # ps) = node n @ body ps" "body (ps @ qs) = body ps @ body qs"
  by (simp_all add: body_def)

lemma nat_str_no [simp]: "CHR ''|'' \<notin> set (nat_str n)" "CHR ''_'' \<notin> set (nat_str n)"
  by (auto dest: nat_str_digits)

lemma body_start: "ps \<noteq> [] \<Longrightarrow> \<exists>t. body ps = CHR ''|'' # t"
  by (cases ps) (auto simp: node_def)

lemma scan_to_row: "ps \<noteq> [] \<Longrightarrow> scan_to CHR ''|'' (nat_str k @ body ps) 0 = Some (length (nat_str k))"
  using body_start [of ps] scan_to_append [of "CHR ''|''" "nat_str k" 0 "[]"] by auto

text \<open>The end of a node.\<close>

lemma scan_node:
  "CHR ''|'' \<notin> set ys \<Longrightarrow> i = length xs \<Longrightarrow>
    scan_while (\<lambda>c. c \<noteq> CHR ''|'') (xs @ ys @ body ps) i = length xs + length ys"
  using body_start [of ps] by (intro scan_while_append) (auto, cases "ps = []", auto)

lemma scan_node_from:
  assumes "CHR ''|'' \<notin> set t" "n \<le> length t" "i = length xs + n"
  shows "scan_while (\<lambda>c. c \<noteq> CHR ''|'') (xs @ t @ body ps) i = length xs + length t"
proof -
  have s: "xs @ t @ body ps = (xs @ take n t) @ drop n t @ body ps" by (metis append.assoc append_take_drop_id)
  have "CHR ''|'' \<notin> set (drop n t)" using assms(1) in_set_dropD by metis
  then show ?thesis unfolding s using scan_node [of "drop n t" i "xs @ take n t" ps] assms(2,3) by simp
qed

text \<open>The search for \<open>_u|\<close>.\<close>

lemma str_find_skip:
  "p \<notin> set xs \<Longrightarrow> str_find (p # ps) (xs @ s) = map_option ((+) (length xs)) (str_find (p # ps) s)"
  by (cases "str_find (p # ps) s"; induction xs) auto

lemma is_prefix_word:
  "c \<notin> set xs \<Longrightarrow> c \<notin> set ys \<Longrightarrow> s = [] \<or> hd s = c \<Longrightarrow>
    is_prefix (xs @ [c]) (ys @ s) \<longleftrightarrow> xs = ys \<and> s \<noteq> []"
proof (induction xs arbitrary: ys)
  case Nil
  then show ?case by (cases ys; cases s) auto
next
  case (Cons x xs)
  then show ?case by (cases ys; cases s) auto
qed

fun found_at :: "nat \<Rightarrow> (nat \<times> nat) list \<Rightarrow> nat option" where
  "found_at u [] = None"
| "found_at u ((w, v) # ps) =
     (if v = u \<and> ps \<noteq> [] then Some (1 + length (nat_str w))
      else map_option ((+) (length (node (w, v)))) (found_at u ps))"

lemma str_find_body: "str_find (CHR ''_'' # nat_str u @ ''|'') (body ps) = found_at u ps"
proof (induction ps)
  case (Cons n ps)
  obtain w v where n: "n = (w, v)" by force
  let ?pat = "CHR ''_'' # nat_str u @ ''|''"
  have "str_find ?pat (body (n # ps)) =
      map_option ((+) (1 + length (nat_str w))) (str_find ?pat (CHR ''_'' # nat_str v @ body ps))"
    using str_find_skip [of "CHR ''_''" "CHR ''|'' # nat_str w" "nat_str u @ ''|''" "CHR ''_'' # nat_str v @ body ps"]
    by (simp add: n node_def)
  also have "str_find ?pat (CHR ''_'' # nat_str v @ body ps) =
      (if v = u \<and> ps \<noteq> [] then Some 0 else map_option ((+) (1 + length (nat_str v))) (str_find ?pat (body ps)))"
  proof -
    have "is_prefix ?pat (CHR ''_'' # nat_str v @ body ps) \<longleftrightarrow> v = u \<and> ps \<noteq> []"
      using is_prefix_word [of "CHR ''|''" "nat_str u" "nat_str v" "body ps"] body_start [of ps]
      by (cases "ps = []") auto
    then show ?thesis
      using str_find_skip [of "CHR ''_''" "nat_str v" "nat_str u @ ''|''" "body ps"]
      by (cases "str_find ?pat (body ps)") auto
  qed
  finally show ?case
    by (cases "found_at u ps") (auto simp: Cons.IH n node_def)
qed simp

lemma found_at_split:
  "u \<notin> snd ` set as \<Longrightarrow> bs \<noteq> [] \<Longrightarrow>
    found_at u (as @ (w, u) # bs) = Some (length (body as) + 1 + length (nat_str w))"
  by (induction as) auto

lemma found_at_None: "u \<notin> snd ` set ps \<Longrightarrow> found_at u ps = None"
  by (induction u ps rule: found_at.induct) auto

lemma found_at_last: "u \<notin> snd ` set as \<Longrightarrow> found_at u (as @ [(w, u)]) = None"
  by (induction as) auto

lemma str_find_row:
  "str_find (CHR ''_'' # nat_str u @ ''|'') (nat_str k @ body ps) =
    map_option ((+) (length (nat_str k))) (found_at u ps)"
  using str_find_skip [of "CHR ''_''" "nat_str k" "nat_str u @ ''|''" "body ps"] by (simp add: str_find_body)


section \<open>update_weight on rows\<close>

lemma count_str_nat [simp]: "count_str (int n) [] = (nat_str n, [])"
  by (simp add: count_str_def ss_put_def int_str_def ss_get_word_nat_str)

lemma read_uint_nat [simp]: "n < 2 ^ 32 \<Longrightarrow> read_uint (nat_str n) old [] = Some (n, [])"
  by (auto simp: read_uint_def ss_put_def ss_get_uint_nat_str split: option.splits)

lemma nat_str_length [simp]: "nat_str n \<noteq> []" "0 < length (nat_str n)"
  by simp_all

lemma last_sep:
  "scan_back CHR ''_'' (h @ body as @ node (w, v)) (length (h @ body as @ node (w, v)) - 1) =
    Some (length (h @ body as) + 1 + length (nat_str w))"
  using scan_back_append [of "CHR ''_''" "nat_str v"
      "length (h @ body as @ node (w, v)) - 1" "h @ body as @ CHR ''|'' # nat_str w" "[]"]
  by (simp add: node_def)

lemma last_bar:
  "scan_back CHR ''|'' (h @ body as @ CHR ''|'' # nat_str w @ CHR ''_'' # t)
      (length (h @ body as) + 1 + length (nat_str w)) = Some (length (h @ body as))"
  using scan_back_append [of "CHR ''|''" "nat_str w @ ''_''"
      "length (h @ body as) + 1 + length (nat_str w)" "h @ body as" t]
  by simp

lemma url_end:
  "bs \<noteq> [] \<Longrightarrow> scan_to CHR ''|'' (h @ CHR ''|'' # nat_str w @ CHR ''_'' # nat_str v @ body bs)
      (length h + 1 + length (nat_str w)) = Some (length h + 2 + length (nat_str w) + length (nat_str v))"
  using body_start [of bs] scan_to_append [of "CHR ''|''" "CHR ''_'' # nat_str v"
      "length h + 1 + length (nat_str w)" "h @ CHR ''|'' # nat_str w"] by auto

lemma substr_end: "substr (xs @ ys) (length xs) (length (xs @ ys)) = ys"
  by (simp add: substr_def)

text \<open>No node of the address: the row is kept.\<close>

lemma remove_absent:
  assumes "u \<notin> snd ` set ps" "ps \<noteq> []"
  shows "remove_url (nat_str u) nd first nums (nat_str k @ body ps) [] = Some (Kept (nat_str k @ body ps) nums [])"
proof -
  obtain as w v where ps: "ps = as @ [(w, v)]" using assms(2) by (cases ps rule: rev_cases) auto
  have "str_find (CHR ''_'' # nat_str u @ ''|'') (nat_str k @ body ps) = None"
    using str_find_row [of u k ps] found_at_None [OF assms(1)] by simp
  moreover have "substr (nat_str k @ body ps) (length (nat_str k @ body as) + 1 + length (nat_str w) + 1)
      (length (nat_str k @ body ps)) = nat_str v"
    using substr_end [of "nat_str k @ body as @ CHR ''|'' # nat_str w @ ''_''" "nat_str v"]
    by (simp add: ps node_def add.assoc)
  moreover have "v \<noteq> u" using assms(1) ps by auto
  ultimately show ?thesis
    using last_sep [of "nat_str k" as w v] by (simp add: remove_url_def ps)
qed

lemma remove_last:
  assumes "u \<notin> snd ` set as" "as \<noteq> []" "int (length as) < int_max"
  shows "remove_url (nat_str u) nd (length (nat_str k)) (int (length as) + 1)
      (nat_str k @ body (as @ [(w, u)])) [] = Some (Kept (row as) (int (length as)) [])"
proof -
  let ?s = "nat_str k @ body (as @ [(w, u)])"
  have f: "str_find (CHR ''_'' # nat_str u @ ''|'') ?s = None"
    using found_at_last [OF assms(1), of w] str_find_row [of u k "as @ [(w, u)]"] by simp
  have "substr ?s (length (nat_str k @ body as) + 1 + length (nat_str w) + 1) (length ?s) = nat_str u"
    using substr_end [of "nat_str k @ body as @ CHR ''|'' # nat_str w @ ''_''" "nat_str u"]
    by (simp add: node_def add.assoc)
  moreover have "substr ?s (length (nat_str k)) (length (body as)) = body as"
    by (simp add: substr_def)
  moreover note last_sep [of "nat_str k" as w u] last_bar [of "nat_str k" as w "nat_str u"]
  ultimately show ?thesis
    using assms(2,3) f by (simp add: remove_url_def row_def node_def)
qed

lemma remove_head:
  assumes "bs \<noteq> []" "int (length bs) < int_max"
  shows "remove_url (nat_str u) nd (length (nat_str k)) (int (length bs) + 1)
      (nat_str k @ body ((w, u) # bs)) [] = Some (Kept (row bs) (int (length bs)) [])"
proof -
  let ?s = "nat_str k @ body ((w, u) # bs)"
  have "str_find (CHR ''_'' # nat_str u @ ''|'') ?s = Some (length (nat_str k) + 1 + length (nat_str w))"
    using str_find_row [of u k "(w, u) # bs"] assms(1) by simp
  moreover have "scan_to CHR ''_'' ?s (length (nat_str k)) = Some (length (nat_str k) + 1 + length (nat_str w))"
    using scan_to_append [of "CHR ''_''" "CHR ''|'' # nat_str w" "length (nat_str k)" "nat_str k"]
    by (simp add: node_def add.assoc)
  moreover have "substr ?s (length (nat_str k) + 2 + length (nat_str w) + length (nat_str u)) (length ?s) = body bs"
    using substr_end [of "nat_str k @ node (w, u)" "body bs"] by (simp add: node_def add.assoc)
  ultimately show ?thesis
    using url_end [OF assms(1), of "nat_str k" w u] assms(2) by (simp add: remove_url_def row_def node_def)
qed

lemma remove_middle:
  assumes "u \<notin> snd ` set as" "as \<noteq> []" "bs \<noteq> []" "int (length as + length bs) < int_max"
  shows "remove_url (nat_str u) nd (length (nat_str k)) (int (length as + length bs) + 1)
      (nat_str k @ body (as @ (w, u) # bs)) [] = Some (Kept (row (as @ bs)) (int (length as + length bs)) [])"
proof -
  let ?s = "nat_str k @ body (as @ (w, u) # bs)"
  let ?pos = "length (nat_str k @ body as) + 1 + length (nat_str w)"
  obtain w0 v0 as' where as: "as = (w0, v0) # as'" using assms(2) by (cases as) auto
  have f: "str_find (CHR ''_'' # nat_str u @ ''|'') ?s = Some ?pos"
    using str_find_row [of u k "as @ (w, u) # bs"] found_at_split [OF assms(1,3), of w] by simp
  have i: "scan_to CHR ''_'' ?s (length (nat_str k)) = Some (length (nat_str k) + 1 + length (nat_str w0))"
    using scan_to_append [of "CHR ''_''" "CHR ''|'' # nat_str w0" "length (nat_str k)" "nat_str k"]
    by (simp add: as node_def add.assoc)
  have ne: "length (nat_str k) + 1 + length (nat_str w0) \<noteq> ?pos" by (simp add: as node_def add.assoc)
  have b: "scan_back CHR ''|'' ?s ?pos = Some (length (nat_str k @ body as))"
    using last_bar [of "nat_str k" as w "nat_str u @ body bs"] by (simp add: node_def add.assoc)
  have e: "scan_to CHR ''|'' ?s ?pos = Some (length (nat_str k @ body as @ node (w, u)))"
    using url_end [OF assms(3), of "nat_str k @ body as" w u] by (simp add: node_def add.assoc)
  have s1: "substr ?s (length (nat_str k)) (length (body as)) = body as" by (simp add: substr_def)
  have s2: "substr ?s (length (nat_str k @ body as @ node (w, u))) (length ?s) = body bs"
    using substr_end [of "nat_str k @ body as @ node (w, u)" "body bs"] by simp
  have general: "remove_url (nat_str u) nd first (int n + 1) s [] =
      Some (Kept (nat_str n @ substr s first (j - first) @ substr s l (length s)) (int n) [])"
    if "str_find (CHR ''_'' # nat_str u @ ''|'') s = Some pos" "scan_to CHR ''_'' s first = Some p" "p \<noteq> pos"
      "scan_back CHR ''|'' s pos = Some j" "scan_to CHR ''|'' s pos = Some l" for first n s pos p j l
    using that by (simp add: remove_url_def)
  have "length (nat_str k @ body as) - length (nat_str k) = length (body as)" by simp
  then show ?thesis
    using general [OF f i ne b e, of "length as + length bs"] s1 s2 by (simp add: row_def)
qed


text \<open>Where a node of weight \<open>cur\<close> belongs: before the first node that is not heavier.\<close>

abbreviation heavier :: "nat \<Rightarrow> (nat \<times> nat) \<Rightarrow> bool" where
  "heavier cur p \<equiv> cur < fst p"

definition insert_url :: "nat \<Rightarrow> nat \<Rightarrow> (nat \<times> nat) list \<Rightarrow> (nat \<times> nat) list" where
  "insert_url cur u ps = takeWhile (heavier cur) ps @ (cur, u) # dropWhile (heavier cur) ps"

lemma insert_url_length: "length (insert_url cur u qs) = length qs + 1"
  unfolding insert_url_def by (metis add_Suc_right length_Cons length_append takeWhile_dropWhile_id Suc_eq_plus1)

lemma node_tail_no: "CHR ''|'' \<notin> set (nat_str w @ CHR ''_'' # nat_str v)"
  by simp

lemma weight_end:
  "scan_to CHR ''_'' (h @ CHR ''|'' # nat_str w @ CHR ''_'' # t) (length h + 2) = Some (length h + 1 + length (nat_str w))"
proof (rule nat_str_ConsE [of w])
  fix c cs assume c: "nat_str w = c # cs" "is_digit c"
  then have "CHR ''_'' \<notin> set cs" using nat_str_no(2) [of w] by simp
  then show ?thesis
    using scan_to_append [of "CHR ''_''" cs "length h + 2" "h @ [CHR ''|'', c]" t] c by simp
qed

lemma weight_substr:
  "substr (h @ CHR ''|'' # nat_str w @ t) (length h + 1) (length (nat_str w)) = nat_str w"
  by (simp add: substr_def)

lemma seek_body:
  assumes "\<forall>p\<in>set ((w, v) # bs). fst p < 2 ^ 32"
  shows "seek (h @ body as @ node (w, v) @ body bs) cur (length (h @ body as) + 1)
      (length (h @ body as @ node (w, v))) w [] =
    Some (if dropWhile (heavier cur) ((w, v) # bs) = [] then None
          else Some (length (h @ body as @ body (takeWhile (heavier cur) ((w, v) # bs))) + 1), [])"
  using assms
proof (induction bs arbitrary: as w v)
  case Nil
  show ?case by (simp add: seek.simps)
next
  case (Cons n bs)
  obtain w' v' where n: "n = (w', v')" by force
  show ?case
  proof (cases "cur < w")
    case False
    then show ?thesis by (simp add: seek.simps)
  next
    case True
    let ?h = "h @ body as @ node (w, v)"
    let ?s = "?h @ CHR ''|'' # nat_str w' @ CHR ''_'' # nat_str v' @ body bs"
    have s: "h @ body as @ node (w, v) @ body (n # bs) = ?s" by (simp add: n node_def)
    have p: "scan_to CHR ''_'' ?s (length ?h + 2) = Some (length ?h + 1 + length (nat_str w'))"
      by (rule weight_end)
    have r: "read_uint (substr ?s (length ?h + 1) (length ?h + 1 + length (nat_str w') - (length ?h + 1))) (Some w) [] =
        Some (w', [])"
      using Cons.prems n by (simp only: weight_substr add_diff_cancel_left') simp
    have e: "scan_while (\<lambda>c. c \<noteq> CHR ''|'') ?s (length ?h + 1) = length (?h @ node (w', v'))"
      using scan_node [of "nat_str w' @ CHR ''_'' # nat_str v'" "length ?h + 1" "?h @ ''|''" bs]
      by (simp add: node_def)
    have "seek ?s cur (length (h @ body as) + 1) (length ?h) w [] =
        seek ?s cur (length ?h + 1) (length (?h @ node (w', v'))) w' []"
      using True p r e by (subst seek.simps) simp
    also have "\<dots> = Some (if dropWhile (heavier cur) (n # bs) = [] then None
        else Some (length (?h @ body (takeWhile (heavier cur) (n # bs))) + 1), [])"
      using Cons.IH [of w' v' "as @ [(w, v)]"] Cons.prems n by (simp add: node_def)
    finally show ?thesis unfolding s using True by simp
  qed
qed

lemma add_url_row:
  assumes "ps \<noteq> []" "\<forall>p\<in>set ps. fst p < 2 ^ 32"
  shows "add_url cur (node (cur, u)) (nat_str k @ body ps) [] = Some (nat_str k @ body (insert_url cur u ps), [])"
proof -
  obtain w v bs where ps: "ps = (w, v) # bs" using assms(1) by (cases ps) auto
  let ?h = "nat_str k" and ?t = "nat_str w @ CHR ''_'' # nat_str v"
  let ?s = "?h @ CHR ''|'' # nat_str w @ CHR ''_'' # nat_str v @ body bs"
  have s: "?h @ body ps = ?s" by (simp add: ps node_def)
  have f: "scan_to CHR ''|'' ?s 0 = Some (length ?h)" using scan_to_row [OF assms(1), of k] s by simp
  have p: "scan_to CHR ''_'' ?s (length ?h + 2) = Some (length ?h + 1 + length (nat_str w))" by (rule weight_end)
  have r: "read_uint (substr ?s (length ?h + 1) (length ?h + 1 + length (nat_str w) - (length ?h + 1))) None [] =
      Some (w, [])"
    using assms(2) ps by (simp only: weight_substr add_diff_cancel_left') simp
  have "2 \<le> length ?t" by (rule nat_str_ConsE [of w]) simp
  then have e: "scan_while (\<lambda>c. c \<noteq> CHR ''|'') ?s (length ?h + 1 + 2) = length (?h @ node (w, v))"
    using scan_node_from [OF node_tail_no, of 2 w v "length ?h + 1 + 2" "?h @ ''|''" bs] by (simp add: node_def)
  have k: "seek ?s cur (length ?h + 1) (length (?h @ node (w, v))) w [] =
      Some (if dropWhile (heavier cur) ps = [] then None
        else Some (length (?h @ body (takeWhile (heavier cur) ps)) + 1), [])"
    using seek_body [of w v bs ?h "[]" cur] assms(2) ps by (simp add: node_def)
  let ?a = "?h @ body (takeWhile (heavier cur) ps)" and ?b = "body (dropWhile (heavier cur) ps)"
  have sp: "?s = ?a @ ?b" unfolding s [symmetric]
    by (metis append.assoc body_simps(3) takeWhile_dropWhile_id)
  have c: "substr ?s 0 (length ?a) = ?a" "substr ?s (length ?a) (length ?s) = ?b"
    unfolding sp by (rule substr_append_left, rule substr_end)
  have "add_url cur (node (cur, u)) ?s [] = Some (if dropWhile (heavier cur) ps = [] then ?s @ node (cur, u)
      else ?a @ node (cur, u) @ ?b, [])"
    using f p r e k c by (simp add: add_url_def Let_def)
  also have "\<dots> = Some (?h @ body (insert_url cur u ps), [])"
    unfolding insert_url_def using sp
    by (cases "dropWhile (heavier cur) ps = []") (simp_all del: dropWhile_eq_Nil_conv)
  finally show ?thesis unfolding s .
qed


lemma last_bar_end:
  "scan_back CHR ''|'' (h @ body as @ node (w, v)) (length (h @ body as @ node (w, v)) - 1) =
    Some (length (h @ body as))"
  using scan_back_append [of "CHR ''|''" "nat_str w @ CHR ''_'' # nat_str v"
      "length (h @ body as @ node (w, v)) - 1" "h @ body as" "[]"]
  by (simp add: node_def)

lemma fix_count_full:
  assumes "ps \<noteq> []"
  shows "fix_count m m (nat_str k @ body ps) [] = Some (nat_str k @ body (butlast ps), [])"
proof -
  obtain as w v where ps: "ps = as @ [(w, v)]" using assms by (cases ps rule: rev_cases) auto
  show ?thesis
    using last_bar_end [of "nat_str k" as w v] by (simp add: fix_count_def ps substr_def)
qed

lemma fix_count_more:
  assumes "ps \<noteq> []" "int k \<noteq> m" "int k \<noteq> int_max"
  shows "fix_count m (int k) (nat_str k @ body ps) [] = Some (nat_str (k + 1) @ body ps, [])"
proof -
  have "count_str (int k + 1) [] = (nat_str (k + 1), [])" using count_str_nat [of "k + 1"] by (simp add: add.commute)
  then show ?thesis
    using assms scan_to_row [OF assms(1), of k] substr_end [of "nat_str k" "body ps"] by (simp add: fix_count_def)
qed

definition valuate :: "nat \<Rightarrow> nat \<Rightarrow> nat \<Rightarrow> (nat \<times> nat) list \<Rightarrow> (nat \<times> nat) list" where
  "valuate max_urls cur u ps =
     (let qs = filter (\<lambda>p. snd p \<noteq> u) ps; rs = insert_url cur u qs
      in if length qs = max_urls then butlast rs else rs)"

lemma remove_row:
  assumes "ps \<noteq> []" "distinct (map snd ps)" "int (length ps) < int_max"
    and qs_def: "qs = filter (\<lambda>p. snd p \<noteq> u) ps"
  shows "remove_url (nat_str u) nd (length (nat_str (length ps))) (int (length ps)) (row ps) [] =
    Some (if qs = [] then Only (''1'' @ nd) [] else Kept (row qs) (int (length qs)) [])"
proof (cases "u \<in> snd ` set ps")
  case False
  then have "qs = ps" unfolding qs_def by (intro filter_True) auto
  with False show ?thesis
    using remove_absent [OF False assms(1), of nd "length (nat_str (length ps))" "int (length ps)" "length ps"] assms(1)
    by (simp add: row_def)
next
  case True
  then obtain as w bs where ps: "ps = as @ (w, u) # bs" by (metis (no_types) imageE in_set_conv_decomp prod.collapse)
  have u: "u \<notin> snd ` set as" "u \<notin> snd ` set bs" using assms(2) by (auto simp: ps)
  then have "filter (\<lambda>p. snd p \<noteq> u) as = as" "filter (\<lambda>p. snd p \<noteq> u) bs = bs"
    by (auto simp: filter_id_conv)
  then have qs: "qs = as @ bs" by (simp add: qs_def ps)
  have l: "int (length as + length bs) < int_max" "int (length ps) = int (length as + length bs) + 1"
    using assms(3) by (simp_all add: ps)
  consider "as = []" "bs = []" | "as \<noteq> []" "bs = []" | "as = []" "bs \<noteq> []" | "as \<noteq> []" "bs \<noteq> []" by blast
  then show ?thesis
  proof cases
    case 1
    have "str_find (CHR ''_'' # nat_str u @ ''|'') (nat_str 1 @ body [(w, u)]) = None"
      using str_find_row [of u 1 "[(w, u)]"] by simp
    moreover have "substr (nat_str 1 @ body [(w, u)]) (length (nat_str 1) + 1 + length (nat_str w) + 1)
        (length (nat_str 1 @ body [(w, u)])) = nat_str u"
      using substr_end [of "nat_str 1 @ CHR ''|'' # nat_str w @ ''_''" "nat_str u"] by (simp add: node_def add.assoc)
    moreover have "scan_back CHR ''_'' (nat_str 1 @ body [(w, u)]) (length (nat_str 1 @ body [(w, u)]) - 1) =
        Some (length (nat_str 1) + 1 + length (nat_str w))"
      using last_sep [of "nat_str 1" "[]" w u] by simp
    ultimately have "remove_url (nat_str u) nd first 1 (nat_str 1 @ body [(w, u)]) [] = Some (Only (''1'' @ nd) [])"
      for first by (simp add: remove_url_def)
    then show ?thesis using 1 by (simp add: row_def ps qs)
  next
    case 2
    then show ?thesis using remove_last [OF u(1), of nd "length ps" w] l by (simp add: qs row_def ps add.commute)
  next
    case 3
    then show ?thesis using remove_head [of bs u nd "length ps" w] l by (simp add: qs row_def ps add.commute)
  next
    case 4
    then show ?thesis using remove_middle [OF u(1), of bs nd "length ps" w] l by (simp add: qs row_def ps add.commute)
  qed
qed

lemma update_weight_steps:
  assumes "0 < cur" "scan_to CHR ''|'' s 0 = Some f" "ss_get_int int_min int_max (substr s 0 f) 1 = (n, [])"
    and "remove_url (nat_str u) (node (cur, u)) f n s [] = Some r"
  shows "update_weight m cur (nat_str u) s [] =
    (case r of Only s ss \<Rightarrow> Some (s, ss)
     | Kept s nums ss \<Rightarrow> do { (s, ss) \<leftarrow> add_url cur (node (cur, u)) s ss; fix_count m nums s ss })"
proof -
  have c: "ss_get_word (ss_put [] (nat_str cur)) [] = (nat_str cur, [])"
    by (simp add: ss_put_def ss_get_word_nat_str)
  have p: "ss_put [] (substr s 0 f) = substr s 0 f" by (simp add: ss_put_def)
  have nd: "CHR ''|'' # nat_str cur @ CHR ''_'' # nat_str u = node (cur, u)" by (simp add: node_def)
  show ?thesis
    unfolding update_weight_def c Let_def prod.case nd assms(2) bind.bind_lunit p assms(3,4)
    using assms(1) nat_str_first [OF assms(1)] by (simp only: if_not_P nat_str_nonempty simp_thms)
qed

lemma update_weight_rows:
  assumes "ps \<noteq> []" "distinct (map snd ps)" "int (length ps) < int_max" "\<forall>p\<in>set ps. fst p < 2 ^ 32"
    and "0 < cur" "0 < max_urls"
  shows "update_weight (int max_urls) cur (nat_str u) (row ps) [] = Some (row (valuate max_urls cur u ps), [])"
proof -
  let ?qs = "filter (\<lambda>p. snd p \<noteq> u) ps" and ?k = "length ps"
  have first: "scan_to CHR ''|'' (row ps) 0 = Some (length (nat_str ?k))"
    unfolding row_def by (rule scan_to_row [OF assms(1)])
  have nums: "ss_get_int int_min int_max (substr (row ps) 0 (length (nat_str ?k))) 1 = (int ?k, [])"
    using assms(3) by (simp add: row_def substr_append_left ss_get_int_nat_str)
  note steps = update_weight_steps [OF assms(5) first nums remove_row [OF assms(1-3) refl], of "int max_urls"]
  show ?thesis
  proof (cases "?qs = []")
    case True
    have "valuate max_urls cur u ps = [(cur, u)]"
      unfolding valuate_def Let_def True using assms(6) by (simp add: insert_url_def)
    moreover have "row [(cur, u)] = ''1'' @ node (cur, u)"
    proof -
      have "nat_str (Suc 0) = ''1''" by code_simp
      then show ?thesis by (simp add: row_def)
    qed
    ultimately show ?thesis
      unfolding steps by (simp only: True if_True removed.case refl)
  next
    case False
    have w: "\<forall>p\<in>set ?qs. fst p < 2 ^ 32" using assms(4) by simp
    have ne: "insert_url cur u ?qs \<noteq> []" by (simp add: insert_url_def)
    note len = insert_url_length [of cur u ?qs]
    have q: "int (length ?qs) \<noteq> int_max" using assms(3) length_filter_le [of "\<lambda>p. snd p \<noteq> u" ps] by linarith
    have f: "fix_count (int max_urls) (int (length ?qs)) (nat_str (length ?qs) @ body (insert_url cur u ?qs)) [] =
        Some (row (valuate max_urls cur u ps), [])"
      using fix_count_full [OF ne, of "int max_urls" "length ?qs"] fix_count_more [OF ne _ q, of "int max_urls"] len
      by (cases "length ?qs = max_urls") (simp_all add: valuate_def row_def)
    have a: "add_url cur (node (cur, u)) (row ?qs) [] = Some (nat_str (length ?qs) @ body (insert_url cur u ?qs), [])"
      unfolding row_def by (rule add_url_row [OF False w])
    show ?thesis unfolding steps using False a f by simp
  qed
qed


text \<open>
  C25.  Valuing an address again: on a well-formed row the in-place edit of \<open>update_weight\<close> is exactly
  the list operation \<open>valuate\<close>: the address's old node is taken out, the new one goes before the first
  node that is not heavier, and when the row had \<open>MAX_URLS\<close> other nodes its last one is dropped.  The
  counter in front is the number of nodes, and the shared stringstream is left empty.
\<close>

theorem update_weight_refines:
  assumes "ps \<noteq> []" "distinct (map snd ps)" "int (length ps) < int_max" "\<forall>p\<in>set ps. fst p < 2 ^ 32"
    and "0 < cur" "0 < max_urls"
  shows "update_weight (int max_urls) cur (nat_str u) (row ps) [] = Some (row (valuate max_urls cur u ps), [])"
  using assms by (rule update_weight_rows)

theorem update_weight_refines_witness:
  "update_weight 3 4 ''9'' ''3|5_7|3_9|2_12'' [] = Some (''3|5_7|4_9|2_12'', []) \<and>
   update_weight 3 4 ''8'' ''3|5_7|3_9|2_12'' [] = Some (''3|5_7|4_8|3_9'', [])"
proof -
  let ?ps = "[(5, 7), (3, 9), (2, 12)] :: (nat \<times> nat) list"
  have s: "row ?ps = ''3|5_7|3_9|2_12''" "nat_str 9 = ''9''" "nat_str 8 = ''8''"
    "row (valuate 3 4 9 ?ps) = ''3|5_7|4_9|2_12''" "row (valuate 3 4 8 ?ps) = ''3|5_7|4_8|3_9''"
    by code_simp+
  have h: "?ps \<noteq> []" "distinct (map snd ?ps)" "int (length ?ps) < int_max" "\<forall>p\<in>set ?ps. fst p < 2 ^ 32"
    "(0::nat) < 4" "(0::nat) < 3" by simp_all
  show ?thesis
    using update_weight_refines [OF h, of 9] update_weight_refines [OF h, of 8] unfolding s by simp
qed

section \<open>What the edits keep\<close>

definition sorted_row :: "(nat \<times> nat) list \<Rightarrow> bool" where
  "sorted_row ps \<longleftrightarrow> sorted_wrt (\<lambda>p q. fst q \<le> fst p) ps"

lemma insert_url_set: "set (insert_url cur u ps) = insert (cur, u) (set ps)"
proof -
  have "set ps = set (takeWhile (heavier cur) ps) \<union> set (dropWhile (heavier cur) ps)"
    by (metis set_append takeWhile_dropWhile_id)
  then show ?thesis by (auto simp: insert_url_def)
qed

lemma sorted_between:
  fixes xs ys :: "(nat \<times> nat) list"
  assumes "sorted_wrt (\<lambda>p q. fst q \<le> fst p) (xs @ ys)" "\<And>p. p \<in> set xs \<Longrightarrow> cur < fst p"
    and "\<And>p. p \<in> set ys \<Longrightarrow> fst p \<le> cur"
  shows "sorted_wrt (\<lambda>p q. fst q \<le> fst p) (xs @ (cur, u) # ys)"
proof -
  have "cur \<le> fst p" if "p \<in> set xs" for p using assms(2) [OF that] by simp
  with assms(1,3) show ?thesis by (simp add: sorted_wrt_append)
qed

lemma insert_url_sorted: "sorted_row ps \<Longrightarrow> sorted_row (insert_url cur u ps)"
proof -
  assume s: "sorted_row ps"
  let ?a = "takeWhile (heavier cur) ps" and ?b = "dropWhile (heavier cur) ps"
  have ab: "sorted_wrt (\<lambda>p q. fst q \<le> fst p) (?a @ ?b)" using s by (simp add: sorted_row_def)
  have a: "cur < fst p" if "p \<in> set ?a" for p using set_takeWhileD [OF that] by simp
  have b: "fst p \<le> cur" if p: "p \<in> set ?b" for p
  proof -
    obtain q qs where q: "?b = q # qs" using p by (cases ?b) auto
    have "\<not> heavier cur q" using hd_dropWhile [of "heavier cur" ps] q by simp
    moreover have "fst p \<le> fst q" using p ab unfolding q by (auto simp: sorted_wrt_append)
    ultimately show ?thesis by simp
  qed
  show ?thesis unfolding sorted_row_def insert_url_def by (rule sorted_between [OF ab a b])
qed

lemma distinct_between:
  "distinct (map snd (xs @ ys)) \<Longrightarrow> u \<notin> snd ` set (xs @ ys) \<Longrightarrow> distinct (map snd (xs @ (c, u) # ys))"
  by (simp add: image_Un)

lemma insert_url_distinct:
  assumes "distinct (map snd ps)" "u \<notin> snd ` set ps"
  shows "distinct (map snd (insert_url cur u ps))"
  unfolding insert_url_def by (rule distinct_between) (simp_all only: takeWhile_dropWhile_id assms not_False_eq_True)




section \<open>parse_weight on rows\<close>

definition add_node :: "int \<Rightarrow> (string \<rightharpoonup> 64 word) \<Rightarrow> nat \<times> nat \<Rightarrow> (string \<rightharpoonup> 64 word)" where
  "add_node occ m n =
     (if snd n = 0 then m
      else m(nat_str (snd n) \<mapsto> (case m (nat_str (snd n)) of None \<Rightarrow> 0 | Some x \<Rightarrow> x) +
             ucast ((of_nat (fst n) :: 32 word) * of_int occ)))"

lemma url_zero: "nat_str v = ''0'' \<longleftrightarrow> v = 0"
proof -
  have "nat_str 0 = ''0''" by code_simp
  then show ?thesis by (metis nat_str_inj)
qed

lemma parse_nodes_body:
  assumes "\<forall>p\<in>set ps. fst p < 2 ^ 32"
  shows "parse_nodes (h @ body ps) occ (length h) [] m = Some (foldl (add_node occ) m ps)"
  using assms
proof (induction ps arbitrary: h m)
  case Nil
  show ?case by (simp add: parse_nodes.simps)
next
  case (Cons n ps)
  obtain w v where n: "n = (w, v)" by force
  let ?s = "h @ CHR ''|'' # nat_str w @ CHR ''_'' # nat_str v @ body ps"
  have s: "h @ body (n # ps) = ?s" by (simp add: n node_def)
  have p: "scan_to CHR ''_'' ?s (length h + 1) = Some (length h + 1 + length (nat_str w))"
    using scan_to_append [of "CHR ''_''" "nat_str w" "length h + 1" "h @ ''|''" "nat_str v @ body ps"] by simp
  have r: "read_uint (substr ?s (length h + 1) (length h + 1 + length (nat_str w) - (length h + 1))) None [] = Some (w, [])"
    using Cons.prems n by (simp only: weight_substr add_diff_cancel_left') simp
  have k: "scan_while (\<lambda>c. c \<noteq> CHR ''|'') ?s (length h + 1 + length (nat_str w) + 1) = length (h @ node n)"
    using scan_node [of "nat_str v" "length h + 1 + length (nat_str w) + 1" "h @ CHR ''|'' # nat_str w @ ''_''" ps]
    by (simp add: n node_def)
  have u: "substr ?s (length h + 1 + length (nat_str w) + 1)
      (length (h @ node n) - (length h + 1 + length (nat_str w) + 1)) = nat_str v"
    using substr_middle [of "h @ CHR ''|'' # nat_str w @ ''_''" "nat_str v" "body ps"] by (simp add: n node_def)
  have l: "length h < length ?s" by simp
  have step: "parse_nodes ?s occ (length h) [] m = parse_nodes ?s occ (length (h @ node n)) [] (add_node occ m n)"
    by (subst parse_nodes.simps) (simp only: l p r k u option.case prod.case Let_def url_zero not_True_eq_False if_False,
      simp add: add_node_def n)
  have e: "?s = (h @ node n) @ body ps" by (simp add: n node_def)
  have "parse_nodes ((h @ node n) @ body ps) occ (length (h @ node n)) [] (add_node occ m n) =
      Some (foldl (add_node occ) (add_node occ m n) ps)"
    using Cons.prems by (intro Cons.IH) simp
  then show ?case unfolding s step unfolding e by simp
qed

lemma add_nodes_other: "k \<notin> nat_str ` snd ` set ps \<Longrightarrow> foldl (add_node occ) m ps k = m k"
  by (induction ps arbitrary: m) (auto simp: add_node_def)

lemma add_nodes_value:
  assumes "distinct (map snd ps)" "(w, v) \<in> set ps" "v \<noteq> 0"
  shows "foldl (add_node occ) m ps (nat_str v) =
    Some ((case m (nat_str v) of None \<Rightarrow> 0 | Some x \<Rightarrow> x) + ucast ((of_nat w :: 32 word) * of_int occ))"
  using assms
proof (induction ps arbitrary: m)
  case (Cons n ps)
  show ?case
  proof (cases "n = (w, v)")
    case True
    then have "nat_str v \<notin> nat_str ` snd ` set ps" using Cons.prems(1) by force
    note other = add_nodes_other [OF this, of occ "add_node occ m n"]
    have "add_node occ m n (nat_str v) =
        Some ((case m (nat_str v) of None \<Rightarrow> 0 | Some x \<Rightarrow> x) + ucast ((of_nat w :: 32 word) * of_int occ))"
      using Cons.prems(3) by (simp add: add_node_def True)
    with other show ?thesis by simp
  next
    case False
    then have i: "(w, v) \<in> set ps" using Cons.prems(2) by simp
    have "snd n \<noteq> v" using Cons.prems(1) i by (auto simp: image_iff)
    then have "add_node occ m n (nat_str v) = m (nat_str v)" by (simp add: add_node_def)
    then show ?thesis using Cons i by simp
  qed
qed simp

text \<open>
  Adding a row up for a search: \<open>parse_weight\<close> adds, for every address of the row but the
  placeholder 0, its weight times the number of times the word occurs in the sentence to the address's
  sum and leaves all other sums alone.  The product is an \<open>unsigned int\<close> and wraps at 32 bits; the sum
  has 64.
\<close>

theorem parse_weight_adds:
  assumes "ps \<noteq> []" "distinct (map snd ps)" "\<forall>p\<in>set ps. fst p < 2 ^ 32"
  shows "\<exists>m'. parse_weight (row ps) occ m = Some m' \<and>
    (\<forall>(w, v)\<in>set ps. v \<noteq> 0 \<longrightarrow> m' (nat_str v) =
       Some ((case m (nat_str v) of None \<Rightarrow> 0 | Some x \<Rightarrow> x) + ucast ((of_nat w :: 32 word) * of_int occ))) \<and>
    (\<forall>k. k \<notin> nat_str ` (snd ` set ps) \<longrightarrow> m' k = m k)"
proof -
  have "parse_weight (row ps) occ m = Some (foldl (add_node occ) m ps)"
    using scan_to_row [OF assms(1), of "length ps"] parse_nodes_body [OF assms(3), of "nat_str (length ps)"]
    by (simp add: parse_weight_def row_def)
  with add_nodes_value [OF assms(2)] add_nodes_other [of _ ps] show ?thesis by auto
qed

theorem parse_weight_adds_witness:
  "\<exists>m'. parse_weight (row [(3000000000, 7), (5, 0)]) 2 Map.empty = Some m' \<and> m' ''7'' = Some 1705032704"
proof -
  let ?ps = "[(3000000000, 7), (5, 0)] :: (nat \<times> nat) list"
  have s: "nat_str 7 = ''7''" by code_simp
  have h: "?ps \<noteq> []" "distinct (map snd ?ps)" "\<forall>p\<in>set ?ps. fst p < 2 ^ 32" by simp_all
  have v: "ucast ((of_nat 3000000000 :: 32 word) * of_int 2) = (1705032704 :: 64 word)" by simp
  obtain m' where m: "parse_weight (row ?ps) 2 Map.empty = Some m'"
    "\<forall>(w, v)\<in>set ?ps. v \<noteq> 0 \<longrightarrow> m' (nat_str v) =
       Some ((case Map.empty (nat_str v) of None \<Rightarrow> 0 | Some x \<Rightarrow> x) + ucast ((of_nat w :: 32 word) * of_int 2))"
    using parse_weight_adds [OF h, of 2 Map.empty] by blast
  from m(2) have "m' (nat_str 7) = Some 1705032704" using v by simp
  with m(1) s show ?thesis by simp
qed

end
