(* ===== verification/HexCodec.thy ===== *)
theory HexCodec
  imports Prelude
begin

text \<open>
  The two byte escapers of the program: \<open>crypt\<close>/\<open>decrypt\<close> (\<open>src/utils/crypt_string.cc\<close>), which
  every string passes before it is pasted into an SQL statement, and \<open>escape_url\<close>/\<open>deescape_url\<close>
  (\<open>src/utils/escape_url.cc\<close>).  They share the hexadecimal helpers, which both files carry a copy
  of.  The locale \<open>hex_codec\<close> states what such a pair promises; both pairs are instances.
\<close>

section \<open>Hexadecimal digits\<close>

definition dec2hex_char :: "int \<Rightarrow> char" where
  "dec2hex_char n =
     (if 0 \<le> n \<and> n \<le> 9 then char_of (48 + n)
      else if 10 \<le> n \<and> n \<le> 15 then char_of (65 + n - 10)
      else NUL)"

definition hex_char2dec :: "char \<Rightarrow> int" where
  "hex_char2dec c =
     (if char_between CHR ''0'' CHR ''9'' c then schar c - 48
      else if char_between CHR ''a'' CHR ''f'' c then schar c - 97 + 10
      else if char_between CHR ''A'' CHR ''F'' c then schar c - 65 + 10
      else - 1)"

text \<open>\<open>int j = (short int)c; if (j < 0) j += 256;\<close>\<close>

definition byte_of :: "char \<Rightarrow> int" where
  "byte_of c = (let j = schar c in if j < 0 then j + 256 else j)"

definition is_alnum :: "char \<Rightarrow> bool" where
  "is_alnum c \<longleftrightarrow> char_between CHR ''0'' CHR ''9'' c \<or> char_between CHR ''a'' CHR ''z'' c
     \<or> char_between CHR ''A'' CHR ''Z'' c"

lemma byte_of_code: "byte_of c = int (code c)"
  using code_lt [of c] by (simp add: byte_of_def schar_def Let_def)

lemma is_alnum_code: "is_alnum c \<longleftrightarrow>
    48 \<le> code c \<and> code c \<le> 57 \<or> 97 \<le> code c \<and> code c \<le> 122 \<or> 65 \<le> code c \<and> code c \<le> 90"
  by (simp add: is_alnum_def char_between_code codes)

lemma code_dec2hex:
  "0 \<le> n \<Longrightarrow> n < 16 \<Longrightarrow> code (dec2hex_char n) = nat (if n \<le> 9 then 48 + n else 55 + n)"
  by (simp add: dec2hex_char_def)

lemma hex_char2dec_code: "hex_char2dec c =
    (if 48 \<le> code c \<and> code c \<le> 57 then int (code c) - 48
     else if 97 \<le> code c \<and> code c \<le> 102 then int (code c) - 87
     else if 65 \<le> code c \<and> code c \<le> 70 then int (code c) - 55 else - 1)"
  by (auto simp: hex_char2dec_def char_between_code codes schar_def)

lemma hex_char2dec_inverse: "0 \<le> n \<Longrightarrow> n < 16 \<Longrightarrow> hex_char2dec (dec2hex_char n) = n"
  by (auto simp: hex_char2dec_code code_dec2hex)

definition is_hex_out :: "char \<Rightarrow> bool" where
  "is_hex_out c \<longleftrightarrow> 48 \<le> code c \<and> code c \<le> 57 \<or> 65 \<le> code c \<and> code c \<le> 70"

lemma dec2hex_is_hex_out: "0 \<le> n \<Longrightarrow> n < 16 \<Longrightarrow> is_hex_out (dec2hex_char n)"
  by (auto simp: is_hex_out_def code_dec2hex)

text \<open>The two digits of an escaped byte, and the byte two digits are read back as.\<close>

definition hex_hi :: "char \<Rightarrow> char" where
  "hex_hi c = (let j = byte_of c; i1 = j div 16 in dec2hex_char i1)"

definition hex_lo :: "char \<Rightarrow> char" where
  "hex_lo c = (let j = byte_of c; i1 = j div 16; i0 = j - i1 * 16 in dec2hex_char i0)"

definition hex_byte :: "char \<Rightarrow> char \<Rightarrow> char" where
  "hex_byte c1 c0 = char_of (hex_char2dec c1 * 16 + hex_char2dec c0)"

lemma hex_nibbles:
  "0 \<le> byte_of c div 16" "byte_of c div 16 < 16"
  "0 \<le> byte_of c - byte_of c div 16 * 16" "byte_of c - byte_of c div 16 * 16 < 16"
  using code_lt [of c] by (auto simp: byte_of_code)

lemma hex_byte_inverse [simp]: "hex_byte (hex_hi c) (hex_lo c) = c"
  by (simp add: hex_byte_def hex_hi_def hex_lo_def Let_def hex_char2dec_inverse hex_nibbles
      del: minus_div_mult_eq_mod minus_mult_div_eq_mod) (simp add: byte_of_code)

lemma hex_digits_out: "is_hex_out (hex_hi c)" "is_hex_out (hex_lo c)"
  using hex_nibbles [of c] by (simp_all add: hex_hi_def hex_lo_def Let_def dec2hex_is_hex_out)

section \<open>The contract of an escaper\<close>

locale hex_codec =
  fixes enc :: "string \<Rightarrow> string"
    and dec :: "string \<Rightarrow> string option"
    and esc :: char
    and keep :: "char \<Rightarrow> bool"
  assumes enc_Nil: "enc [] = []"
    and enc_keep: "keep c \<Longrightarrow> enc (c # s) = c # enc s"
    and enc_escape: "\<not> keep c \<Longrightarrow> enc (c # s) = esc # hex_hi c # hex_lo c # enc s"
    and dec_Nil: "dec [] = Some []"
    and dec_plain: "c \<noteq> esc \<Longrightarrow> dec (c # s) = map_option ((#) c) (dec s)"
    and dec_escape: "dec (esc # c1 # c0 # s) = map_option ((#) (hex_byte c1 c0)) (dec s)"
    and dec_dangling: "dec [esc] = None"
    and esc_escaped: "\<not> keep esc"
begin

lemma enc_Cons: "enc (c # s) = (if keep c then [c] else [esc, hex_hi c, hex_lo c]) @ enc s"
  by (simp add: enc_keep enc_escape)

lemma dec_kept: "keep c \<Longrightarrow> dec (c # s) = map_option ((#) c) (dec s)"
  using esc_escaped dec_plain by metis

lemma roundtrip: "dec (enc s) = Some s"
proof (induction s)
  case (Cons c s)
  then show ?case
    by (cases "keep c") (simp_all add: enc_keep enc_escape dec_escape dec_kept)
qed (simp add: enc_Nil dec_Nil)

lemma enc_inj: "enc s = enc t \<longleftrightarrow> s = t"
  by (metis roundtrip option.inject)

lemma enc_append: "enc (s @ t) = enc s @ enc t"
  by (induction s) (simp_all add: enc_Nil enc_Cons)

lemma enc_empty_iff: "enc s = [] \<longleftrightarrow> s = []"
  by (cases s) (simp_all add: enc_Nil enc_Cons)

lemma enc_alphabet: "d \<in> set (enc s) \<Longrightarrow> keep d \<or> d = esc \<or> is_hex_out d"
  by (induction s) (auto simp: enc_Nil enc_Cons hex_digits_out split: if_splits)

lemma enc_length: "length s \<le> length (enc s) \<and> length (enc s) \<le> 3 * length s"
  by (induction s) (simp_all add: enc_Nil enc_Cons)

lemma enc_kept: "\<forall>c\<in>set s. keep c \<Longrightarrow> enc s = s"
  by (induction s) (simp_all add: enc_Nil enc_keep)

lemma dec_clean: "esc \<notin> set s \<Longrightarrow> dec s = Some s"
  by (induction s) (auto simp: dec_Nil dec_plain [OF not_sym])

text \<open>An escape character as the very last one makes the decoder read past the terminating NUL.\<close>

lemma dec_overrun: "esc \<notin> set s \<Longrightarrow> dec (s @ [esc]) = None"
  by (induction s) (auto simp: dec_dangling dec_plain)

text \<open>Decoding what was encoded before the offending tail reaches it as well.\<close>

lemma dec_enc_append: "dec (enc s @ t) = map_option ((@) s) (dec t)"
proof (induction s)
  case Nil
  show ?case by (cases "dec t") (simp_all add: enc_Nil)
next
  case (Cons c s)
  then show ?case
    by (cases "dec t"; cases "keep c") (simp_all add: enc_keep enc_escape dec_escape dec_kept)
qed

end

section \<open>crypt and decrypt\<close>

fun crypt :: "string \<Rightarrow> string" where
  "crypt [] = []"
| "crypt (c # cs) =
     (if is_alnum c then c # crypt cs
      else CHR ''#'' # hex_hi c # hex_lo c # crypt cs)"

text \<open>
  The loop of \<open>decrypt\<close> reads \<open>URL[++i]\<close> twice after a \<open>#\<close>.  One character left: the second
  read is the terminating NUL.  None left: the first is the NUL and the second is out of range.
\<close>

fun decrypt :: "string \<Rightarrow> string option" where
  "decrypt [] = Some []"
| "decrypt (c # cs) =
     (if c \<noteq> CHR ''#'' then map_option ((#) c) (decrypt cs)
      else case cs of
        [] \<Rightarrow> None
      | [c1] \<Rightarrow> Some [hex_byte c1 NUL]
      | c1 # c0 # rest \<Rightarrow> map_option ((#) (hex_byte c1 c0)) (decrypt rest))"

section \<open>escape\_url and deescape\_url\<close>

definition url_plain :: "char \<Rightarrow> bool" where
  "url_plain c \<longleftrightarrow> is_alnum c \<or> c = CHR ''/'' \<or> c = CHR ''.''"

fun escape_url :: "string \<Rightarrow> string" where
  "escape_url [] = []"
| "escape_url (c # cs) =
     (if url_plain c then c # escape_url cs
      else CHR ''%'' # hex_hi c # hex_lo c # escape_url cs)"

fun deescape_url :: "string \<Rightarrow> string option" where
  "deescape_url [] = Some []"
| "deescape_url (c # cs) =
     (if c \<noteq> CHR ''%'' then map_option ((#) c) (deescape_url cs)
      else case cs of
        [] \<Rightarrow> None
      | [c1] \<Rightarrow> Some [hex_byte c1 NUL]
      | c1 # c0 # rest \<Rightarrow> map_option ((#) (hex_byte c1 c0)) (deescape_url rest))"

interpretation sql: hex_codec crypt decrypt "CHR ''#''" is_alnum
  by unfold_locales (simp_all add: is_alnum_code codes)

interpretation url: hex_codec escape_url deescape_url "CHR ''%''" url_plain
  by unfold_locales (simp_all add: url_plain_def is_alnum_code codes)

lemma hex_out_alnum: "is_hex_out c \<Longrightarrow> is_alnum c"
  by (auto simp: is_hex_out_def is_alnum_code)

lemma crypt_alphabet: "c \<in> set (crypt s) \<Longrightarrow> is_alnum c \<or> c = CHR ''#''"
  using sql.enc_alphabet [of c s] hex_out_alnum by blast

lemma crypt_no_quote [simp]: "SQUOTE \<notin> set (crypt s)"
  using crypt_alphabet [of SQUOTE s] by (auto simp: is_alnum_code codes)

section \<open>Properties\<close>


text \<open>
  What \<open>crypt\<close> produces is inert inside an SQL string literal: it consists of letters, digits
  and \<open>#\<close> only, so no quote, backslash or NUL can end or bend the literal, and it is at most three
  times as long as its input.
\<close>

theorem crypt_sql_inert:
  "set (crypt s) \<subseteq> {c. is_alnum c} \<union> {CHR ''#''} \<and>
   SQUOTE \<notin> set (crypt s) \<and> CHR 0x22 \<notin> set (crypt s) \<and> CHR 0x5C \<notin> set (crypt s) \<and>
   NUL \<notin> set (crypt s) \<and> length (crypt s) \<le> 3 * length s"
proof -
  have bad: "c \<notin> set (crypt s)" if "\<not> is_alnum c" "c \<noteq> CHR ''#''" for c
    using crypt_alphabet [of c s] that by blast
  have "\<not> is_alnum (CHR 0x22)" "\<not> is_alnum (CHR 0x5C)" "\<not> is_alnum NUL"
    by (simp_all add: is_alnum_code code_def)
  then show ?thesis
    using crypt_alphabet sql.enc_length [of s] by (auto intro!: bad)
qed

text \<open>
  The URL escaper is a round trip as well, and its output holds no character that has a meaning
  in a query string: neither \<open>&\<close>, \<open>=\<close>, \<open>#\<close> nor white space.
\<close>

theorem escape_url_roundtrip:
  "deescape_url (escape_url s) = Some s \<and>
   set (escape_url s) \<inter> {CHR ''&'', CHR ''='', CHR ''#'', CHR '' '', NL, CR} = {}"
proof -
  have bad: "c \<notin> set (escape_url s)" if "\<not> url_plain c" "c \<noteq> CHR ''%''" "\<not> is_hex_out c" for c
    using url.enc_alphabet [of c s] that by blast
  show ?thesis
    by (auto simp: url.roundtrip)
      (auto dest!: url.enc_alphabet simp: url_plain_def is_alnum_code is_hex_out_def code_def)
qed

text \<open>
  A percent sign at the very end of the text drives \<open>deescape_url\<close> past the end of its
  argument, also behind a correctly escaped prefix: the requests \<open>q=%\<close> and \<open>q=abc%\<close> read out of
  bounds in the search server.
\<close>

theorem deescape_url_overrun: "deescape_url (escape_url s @ ''%'') = None"
  by (simp add: url.dec_enc_append)

text \<open>
  The comment over \<open>crypt\<close> documents a one-character table (\<open>' <-> #0\<close>, \<open># <-> ##\<close>); the code
  writes two hexadecimal digits and reads two back, so the documented spellings of a quote and of
  the escape character itself decode to something else.
\<close>

theorem crypt_table_outdated:
  "crypt [SQUOTE] = ''#27'' \<and> crypt ''#'' = ''#23'' \<and>
   decrypt ''#0'' \<noteq> Some [SQUOTE] \<and> decrypt ''##'' \<noteq> Some ''#''"
proof -
  have "crypt [SQUOTE] = ''#27''" "crypt ''#'' = ''#23''"
    by code_simp+
  moreover have "decrypt ''#0'' = Some [CHR 0xFF]" "decrypt ''##'' = Some [CHR 0xEF]"
    by code_simp+
  ultimately show ?thesis by simp
qed

end
