(* ===== verification/SqlOps.thy ===== *)
theory SqlOps
  imports HexCodec UrlFormat "HOL-Library.State_Monad"
begin

text \<open>
  \<open>SqlDBOperation\<close> (\<open>src/db/sql_db_operation.hpp\<close>): what the program asks the database.  The MySQL
  server is not code of this repository: it is the parameter \<open>db\<close>, a function of its own state and the
  query text that answers with a failure, no result set, or rows of columns.  The state of an operation
  is the server's state, the number of pool connections taken and the most that were taken at one time,
  and the log of the queries sent.
\<close>

section \<open>Queries and connections\<close>

datatype reply = Failed | No_Result | Rows "string list list"

record 'd op_state =
  server :: 'd
  taken :: nat
  peak :: nat
  sent :: "string list"

type_synonym ('d, 'a) op = "('d op_state, 'a) state"
type_synonym 'd database = "'d \<Rightarrow> string \<Rightarrow> reply \<times> 'd"

definition get_db :: "('d, unit) op" where
  "get_db = State (\<lambda>s. ((), s\<lparr>taken := taken s + 1, peak := max (peak s) (taken s + 1)\<rparr>))"

definition recycle_db :: "('d, unit) op" where
  "recycle_db = State (\<lambda>s. ((), s\<lparr>taken := taken s - 1\<rparr>))"

text \<open>\<open>maria_real_query\<close> followed, where the caller wants rows, by \<open>mysql_store_result\<close>.\<close>

definition real_query :: "'d database \<Rightarrow> string \<Rightarrow> ('d, reply) op" where
  "real_query db q = State (\<lambda>s. case db (server s) q of (r, d) \<Rightarrow> (r, s\<lparr>server := d, sent := sent s @ [q]\<rparr>))"

definition sq :: "string \<Rightarrow> string" where
  "sq v = SQUOTE # v @ [SQUOTE]"

definition dq :: "string \<Rightarrow> string" where
  "dq v = CHR 0x22 # v @ [CHR 0x22]"

definition url_bad :: "string \<Rightarrow> bool" where
  "url_bad url \<longleftrightarrow> url = [] \<or> URL_SIZE < length url"

section \<open>The operations\<close>

definition exist_query :: "string \<Rightarrow> string \<Rightarrow> string \<Rightarrow> string \<Rightarrow> string" where
  "exist_query sel tab column v = ''select '' @ sel @ '' from '' @ tab @ '' where '' @ column @ ''='' @ sq v"

definition if_exist :: "'d database \<Rightarrow> string \<Rightarrow> string \<Rightarrow> string \<Rightarrow> string \<Rightarrow> ('d, bool) op" where
  "if_exist db sel tab column v = do {
     get_db;
     r \<leftarrow> real_query db (exist_query sel tab column v);
     recycle_db;
     State_Monad.return (case r of Failed \<Rightarrow> False | No_Result \<Rightarrow> False | Rows rows \<Rightarrow> rows \<noteq> []) }"

definition op_website_nice :: "'d database \<Rightarrow> string \<Rightarrow> string \<Rightarrow> ('d, unit) op" where
  "op_website_nice db url nice =
     (if url_bad url then State_Monad.return ()
      else case (crypt url, crypt nice) of (url, nice) \<Rightarrow> do {
        get_db;
        e \<leftarrow> if_exist db ''url'' ''website_nice'' ''url'' url;
        _ \<leftarrow> (if e
             then real_query db (''update amigao.website_nice set nice='' @ sq nice @ '' where url='' @ sq url)
             else real_query db
               (''insert into amigao.website_nice (url,nice) values ('' @ sq url @ '','' @ sq nice @ '')''));
        recycle_db })"

definition update_page :: "'d database \<Rightarrow> int \<Rightarrow> string \<Rightarrow> string \<Rightarrow> string \<Rightarrow> string \<Rightarrow> ('d, unit) op" where
  "update_page db max_insert column v url tail =
     (let q = ''update amigao.visited_url set '' @ column @ ''='' @ dq (crypt v) @ '' where url='' @ dq url @ tail
      in if int (length q) \<le> max_insert then do { _ \<leftarrow> real_query db q; State_Monad.return () }
         else State_Monad.return ())"

definition op_visited_url ::
    "'d database \<Rightarrow> int \<Rightarrow> string \<Rightarrow> string \<Rightarrow> string \<Rightarrow> string \<Rightarrow> ('d, unit) op" where
  "op_visited_url db max_insert url title contents html =
     (if url_bad url then State_Monad.return ()
      else case crypt url of url \<Rightarrow> do {
        get_db;
        e \<leftarrow> if_exist db ''url'' ''amigao.visited_url'' ''url'' url;
        _ \<leftarrow> (if e then State_Monad.return No_Result
             else real_query db (''insert into amigao.visited_url (url) values ('' @ sq url @ '') ''));
        update_page db max_insert ''title'' title url '''';
        update_page db max_insert ''contents'' contents url '' '';
        update_page db max_insert ''html'' html url '''';
        recycle_db })"

text \<open>
  One pass from the label \<open>again\<close> of \<open>get_url_no\<close>: \<open>None\<close> goes back to it, otherwise the number to
  return.  A row whose column does not decrypt is read past its end.
\<close>

definition url_no_pass :: "'d database \<Rightarrow> string \<Rightarrow> ('d, nat option) op" where
  "url_no_pass db url = do {
     e \<leftarrow> if_exist db ''url'' ''visited_url'' ''url'' url;
     if e then do {
       r \<leftarrow> real_query db (''select no from amigao.visited_url where url='' @ sq url);
       State_Monad.return (Some (case r of Failed \<Rightarrow> 0 | No_Result \<Rightarrow> 0
         | Rows [] \<Rightarrow> 0
         | Rows (cs # _) \<Rightarrow> fst (ss_get_uint 32 (case decrypt (hd cs) of None \<Rightarrow> [] | Some s \<Rightarrow> s) 0))) }
     else do {
       r \<leftarrow> real_query db (''insert into amigao.visited_url (url) values ('' @ sq url @ '')'');
       State_Monad.return (case r of Failed \<Rightarrow> Some 0 | _ \<Rightarrow> None) } }"

fun url_no_loop :: "nat \<Rightarrow> 'd database \<Rightarrow> string \<Rightarrow> ('d, nat option) op" where
  "url_no_loop 0 db url = State_Monad.return None"
| "url_no_loop (Suc fuel) db url = do {
     r \<leftarrow> url_no_pass db url;
     case r of None \<Rightarrow> url_no_loop fuel db url
     | Some n \<Rightarrow> do { recycle_db; State_Monad.return (Some n) } }"

definition get_url_no :: "nat \<Rightarrow> 'd database \<Rightarrow> string \<Rightarrow> ('d, nat option) op" where
  "get_url_no fuel db url =
     (if url_bad url then State_Monad.return (Some 0)
      else do { get_db; url_no_loop fuel db (crypt url) })"


text \<open>
  The rows of \<open>get_website_nice\<close>: the least of 10 and the numbers read.  \<open>tmp\<close> is not initialised, so a
  column without text leaves it as \<open>junk\<close> says.
\<close>

fun least_nice :: "int \<Rightarrow> string list list \<Rightarrow> sstream \<Rightarrow> int \<Rightarrow> int" where
  "least_nice junk [] ss ret = ret"
| "least_nice junk (cs # rows) ss ret =
     (case ss_get_int short_min short_max (ss_put ss (case decrypt (hd cs) of None \<Rightarrow> [] | Some s \<Rightarrow> s)) junk of
        (tmp, ss) \<Rightarrow> least_nice junk rows ss (if tmp < ret then tmp else ret))"

definition get_website_nice :: "int \<Rightarrow> 'd database \<Rightarrow> string \<Rightarrow> ('d, int) op" where
  "get_website_nice junk db url =
     (if url_bad url then State_Monad.return 0
      else case crypt url of url \<Rightarrow> do {
        e \<leftarrow> if_exist db ''nice'' ''amigao.website_nice'' ''url'' url;
        if \<not> e then State_Monad.return 10
        else do {
          get_db;
          r \<leftarrow> real_query db (''select nice from amigao.website_nice where url='' @ sq url);
          recycle_db;
          State_Monad.return (case r of Failed \<Rightarrow> 10 | No_Result \<Rightarrow> 10 | Rows rows \<Rightarrow> least_nice junk rows [] 10) } })"

text \<open>\<open>tmp_no\<close> keeps its old, uninitialised value when \<open>dict_no\<close> is empty.\<close>

definition op_dict_manager ::
    "int \<Rightarrow> 'd database \<Rightarrow> string \<Rightarrow> string \<Rightarrow> string \<Rightarrow> string \<Rightarrow> ('d, unit) op" where
  "op_dict_manager junk db dict_name status dict_no comments =
     (let status = (if status = [] then ''#default'' else status);
          comments = crypt (if comments = [] then ''0'' else comments);
          tmp_no = fst (ss_get_int int_min int_max (ss_put [] dict_no) junk);
          dict_no = (if 10000 \<le> tmp_no \<or> tmp_no < 1000 then [] else dict_no)
      in do {
        get_db;
        e \<leftarrow> if_exist db ''dict_name'' ''dictionary.dict_manager'' ''dict_name'' dict_name;
        _ \<leftarrow> real_query db
          (if \<not> e
           then (if dict_no = []
             then ''insert into dictionary.dict_manager (dict_name,status,comments) values ('' @
               sq dict_name @ '','' @ sq status @ '','' @ sq comments @ '')''
             else ''insert into dictionary.dict_manager (dict_name,status,dict_no,comments) values ('' @
               sq dict_name @ '','' @ sq status @ '','' @ sq (crypt dict_no) @ '','' @ sq comments @ '')'')
           else (if dict_no = []
             then ''update dictionary.dict_manager set dict_name='' @ sq dict_name @ '',status='' @ sq status @
               '',comments='' @ sq comments
             else ''update dictionary.dict_manager set dict_name='' @ sq dict_name @ '',status='' @ sq status @
               '',comments='' @ sq comments @ '',dict_no='' @ crypt dict_no));
        recycle_db })"

definition create_dict_table :: "int \<Rightarrow> 'd database \<Rightarrow> string \<Rightarrow> ('d, bool) op" where
  "create_dict_table junk db dict_name =
     (if dict_name = [] then State_Monad.return False
      else do {
        get_db;
        r \<leftarrow> real_query db (''drop table if exists '' @ dict_name);
        if r = Failed then do { recycle_db; State_Monad.return False }
        else do {
          r \<leftarrow> real_query db (''create table '' @ dict_name @
            '' (no int unsigned primary key auto_increment,word varchar(768) not null)'');
          if r = Failed then do { recycle_db; State_Monad.return False }
          else do {
            op_dict_manager junk db dict_name [] [] [];
            recycle_db;
            State_Monad.return True } } })"

text \<open>
  Filling a dictionary table.  The words come in the order the hash table gives them; rows of values
  are gathered in \<open>item\<close> and sent when the next one might not fit.  The loop ends early, as the code
  does, when an insert fails.
\<close>

definition word_item :: "string \<Rightarrow> string" where
  "word_item w = ''('' @ sq (crypt w) @ ''),''"

fun insert_words :: "'d database \<Rightarrow> int \<Rightarrow> string \<Rightarrow> string list \<Rightarrow> string \<Rightarrow> ('d, unit) op" where
  "insert_words db max_insert ins [] item =
     (if 5 < length item then do { _ \<leftarrow> real_query db (ins @ butlast item); recycle_db } else recycle_db)"
| "insert_words db max_insert ins (w # ws) item =
     (if int (length (crypt w)) + int (length item) - 1 + int (length ins) > max_insert
      then if 5 < length item
        then do {
          r \<leftarrow> real_query db (ins @ butlast item);
          if r = Failed then recycle_db
          else insert_words db max_insert ins ws (word_item w) }
        else insert_words db max_insert ins ws (word_item w)
      else insert_words db max_insert ins ws (item @ word_item w))"

definition add_dict_words :: "int \<Rightarrow> 'd database \<Rightarrow> int \<Rightarrow> string \<Rightarrow> string list \<Rightarrow> ('d, unit) op" where
  "add_dict_words junk db max_insert dict_name ws =
     (if ws = [] then State_Monad.return ()
      else do {
        ok \<leftarrow> create_dict_table junk db dict_name;
        if \<not> ok then State_Monad.return ()
        else do {
          get_db;
          insert_words db max_insert (''insert into '' @ dict_name @ '' (word) values '') ws [] } })"

definition clean_word :: "string \<Rightarrow> string" where
  "clean_word s = filter (\<lambda>c. c \<noteq> CHR '' '' \<and> c \<noteq> TAB \<and> c \<noteq> NL \<and> c \<noteq> CR) s"

text \<open>
  From a file: the words of its lines, in the order \<open>hash\<close> lists the set of them; nothing happens when
  the file does not open.
\<close>

definition dict_file_words :: "string list \<Rightarrow> string set" where
  "dict_file_words ls = set (filter (\<lambda>w. w \<noteq> [] \<and> length w \<le> 256) (map clean_word ls))"

definition add_dict_file ::
    "int \<Rightarrow> 'd database \<Rightarrow> int \<Rightarrow> (string set \<Rightarrow> string list) \<Rightarrow> string \<Rightarrow> string list option \<Rightarrow> ('d, unit) op" where
  "add_dict_file junk db max_insert hash dict_name file =
     (case file of None \<Rightarrow> State_Monad.return ()
      | Some ls \<Rightarrow> add_dict_words junk db max_insert dict_name (hash (dict_file_words ls)))"

fun insert_pairs ::
    "'d database \<Rightarrow> int \<Rightarrow> string \<Rightarrow> (string \<times> string) list \<Rightarrow> string \<Rightarrow> ('d, unit) op" where
  "insert_pairs db max_insert ins [] v =
     (if 8 < length v then do { _ \<leftarrow> real_query db (ins @ butlast v); recycle_db } else recycle_db)"
| "insert_pairs db max_insert ins ((word, no) # ws) v =
     (let row = ''('' @ sq (crypt no) @ '','' @ sq (crypt word) @ ''),'' in
      if int (length ins) + int (length v) + int (length (crypt no)) + int (length (crypt word)) > max_insert
      then if 8 < length v
        then do {
          r \<leftarrow> real_query db (ins @ butlast v);
          if r = Failed then recycle_db else insert_pairs db max_insert ins ws row }
        else insert_pairs db max_insert ins ws row
      else insert_pairs db max_insert ins ws (v @ row))"

definition add_dict_pairs ::
    "int \<Rightarrow> 'd database \<Rightarrow> int \<Rightarrow> string \<Rightarrow> (string \<times> string) list \<Rightarrow> ('d, unit) op" where
  "add_dict_pairs junk db max_insert dict_name ws = do {
     ok \<leftarrow> create_dict_table junk db dict_name;
     if \<not> ok then State_Monad.return ()
     else do {
       get_db;
       insert_pairs db max_insert (''insert into '' @ dict_name @ '' (no,word) values '') ws [] } }"

definition op_strategy_manager :: "'d database \<Rightarrow> string \<Rightarrow> string \<Rightarrow> string \<Rightarrow> ('d, unit) op" where
  "op_strategy_manager db strategy_name status comments = do {
     get_db;
     let status = (if status = [] then ''#default'' else status);
     let comments = crypt (if comments = [] then ''#default'' else comments);
     e \<leftarrow> if_exist db ''strategy_name'' ''amigao.strategy_manager'' ''strategy_name'' strategy_name;
     if \<not> e then do {
       _ \<leftarrow> real_query db (''insert into amigao.strategy_manager (strategy_name,status,comments) values ('' @
         sq strategy_name @ '','' @ sq status @ '','' @ sq comments @ '')'');
       recycle_db }
     else if status = [] \<and> comments = [] then recycle_db
     else do {
       let update = ''update amigao.strategy_manager set '' @
         (if status = [] then ''comments='' @ sq comments @ '',''
          else ''status='' @ sq status @ '','' @ (if comments \<noteq> [] then ''comments='' @ sq comments @ '','' else []));
       _ \<leftarrow> real_query db (butlast update @ '' where strategy_name='' @ sq strategy_name);
       recycle_db } }"

definition rm_strategy_manger :: "'d database \<Rightarrow> string \<Rightarrow> ('d, unit) op" where
  "rm_strategy_manger db strategy_name = do {
     e \<leftarrow> if_exist db ''strategy_name'' ''amigao.strategy_manager'' ''strategy_name'' strategy_name;
     if \<not> e then State_Monad.return ()
     else do {
       get_db;
       _ \<leftarrow> real_query db (''delete from amigao.strategy_manager where strategy_name='' @ sq strategy_name);
       recycle_db } }"

definition rm_dict_manager :: "'d database \<Rightarrow> string \<Rightarrow> ('d, unit) op" where
  "rm_dict_manager db dict_name = do {
     e \<leftarrow> if_exist db ''dict_name'' ''dictionary.dict_manager'' ''dict_name'' dict_name;
     if \<not> e then State_Monad.return ()
     else do {
       get_db;
       _ \<leftarrow> real_query db (''delete from dictionary.dict_manager where dict_name='' @ sq dict_name);
       recycle_db } }"

definition rm_dict_table :: "'d database \<Rightarrow> string \<Rightarrow> ('d, unit) op" where
  "rm_dict_table db dict_name = do {
     rm_dict_manager db dict_name;
     get_db;
     _ \<leftarrow> real_query db (''drop table if exists '' @ dict_name);
     recycle_db }"

text \<open>
  The constructor's \<open>MAX_INSERT\<close>: what three pages need, or a worker's share of the server's packet
  limit if that is more; \<open>limit\<close> is the answer of \<open>show variables\<close>, read with \<open>atol\<close>.
\<close>

definition atol :: "string \<Rightarrow> int" where
  "atol s = fst (ss_get_int (- (2 ^ 63)) (2 ^ 63 - 1) s 0)"

definition init_max_insert :: "int \<Rightarrow> 'd database \<Rightarrow> ('d, int) op" where
  "init_max_insert workers db = do {
     get_db;
     r \<leftarrow> real_query db (''show variables like '' @ sq ''%max_allowed_packet%'');
     recycle_db;
     State_Monad.return (case r of
       Rows ((_ # limit # _) # _) \<Rightarrow>
         if 3145728 > atol limit div workers then 3145728 else atol limit div workers
     | _ \<Rightarrow> 3145728) }"


section \<open>Connections taken and given back\<close>

text \<open>
  \<open>eff i j k m\<close>: started with \<open>i\<close> connections above some level, \<open>m\<close> ends with \<open>j\<close> above it and never
  has more than \<open>k\<close> above it.
\<close>

definition eff :: "nat \<Rightarrow> nat \<Rightarrow> nat \<Rightarrow> ('d, 'a) op \<Rightarrow> bool" where
  "eff i j k m \<longleftrightarrow> (\<forall>s h. taken s = h + i \<longrightarrow>
     taken (snd (run_state m s)) = h + j \<and> peak (snd (run_state m s)) \<le> max (peak s) (h + k))"

named_theorems eff_rules \<open>composition of connection effects\<close>

lemma eff_return [eff_rules]: "eff i i k (State_Monad.return x)"
  by (simp add: eff_def)

lemma eff_bind: "eff i j k m \<Longrightarrow> (\<And>x. eff j l k (f x)) \<Longrightarrow> eff i l k (State_Monad.bind m f)"
  unfolding eff_def
proof (intro allI impI)
  fix s :: "'a op_state" and h
  assume m: "\<forall>s h. taken s = h + i \<longrightarrow> taken (snd (run_state m s)) = h + j \<and>
      peak (snd (run_state m s)) \<le> max (peak s) (h + k)"
    and f: "\<And>x. \<forall>s h. taken s = h + j \<longrightarrow> taken (snd (run_state (f x) s)) = h + l \<and>
      peak (snd (run_state (f x) s)) \<le> max (peak s) (h + k)"
    and t: "taken s = h + i"
  obtain x s1 where r: "run_state m s = (x, s1)" by force
  have s1: "taken s1 = h + j" "peak s1 \<le> max (peak s) (h + k)" using m t r by (metis snd_conv)+
  have "taken (snd (run_state (f x) s1)) = h + l" "peak (snd (run_state (f x) s1)) \<le> max (peak s1) (h + k)"
    using f s1(1) by blast+
  with s1(2) show "taken (snd (run_state (State_Monad.bind m f) s)) = h + l \<and>
      peak (snd (run_state (State_Monad.bind m f) s)) \<le> max (peak s) (h + k)"
    by (simp add: r)
qed

lemma eff_get_db: "i < k \<Longrightarrow> eff i (Suc i) k get_db"
  by (simp add: eff_def get_db_def max_def)

lemma eff_recycle_db [eff_rules]: "eff (Suc i) i k recycle_db"
  by (simp add: eff_def recycle_db_def)

lemma eff_real_query [eff_rules]: "eff i i k (real_query db q)"
  by (simp add: eff_def real_query_def split: prod.split)

lemma eff_call: "eff 0 0 n m \<Longrightarrow> i + n \<le> k \<Longrightarrow> eff i i k m"
  unfolding eff_def
proof (intro allI impI)
  fix s :: "'a op_state" and h
  assume m: "\<forall>s h. taken s = h + 0 \<longrightarrow> taken (snd (run_state m s)) = h + 0 \<and>
      peak (snd (run_state m s)) \<le> max (peak s) (h + n)" and k: "i + n \<le> k" and t: "taken s = h + i"
  from m [rule_format, of s "h + i"] t
  have "taken (snd (run_state m s)) = h + i" "peak (snd (run_state m s)) \<le> max (peak s) (h + i + n)" by simp_all
  with k show "taken (snd (run_state m s)) = h + i \<and> peak (snd (run_state m s)) \<le> max (peak s) (h + k)"
    by (simp add: max_def split: if_splits)
qed

lemma eff_if [eff_rules]: "(b \<Longrightarrow> eff i j k m) \<Longrightarrow> (\<not> b \<Longrightarrow> eff i j k n) \<Longrightarrow> eff i j k (if b then m else n)"
  by simp

lemma eff_option [eff_rules]:
  "eff i j k m \<Longrightarrow> (\<And>x. eff i j k (f x)) \<Longrightarrow> eff i j k (case v of None \<Rightarrow> m | Some x \<Rightarrow> f x)"
  by (cases v) simp_all

lemma if_exist_eff: "eff 0 0 1 (if_exist db sel tab column v)"
  unfolding if_exist_def
  by (rule eff_bind [OF eff_get_db]) (auto intro!: eff_bind [OF eff_real_query] eff_bind [OF eff_recycle_db] eff_rules)

lemma if_exist_eff' [eff_rules]: "i + 1 \<le> k \<Longrightarrow> eff i i k (if_exist db sel tab column v)"
  by (rule eff_call [OF if_exist_eff])

text \<open>The binds of an operation, by what comes first.\<close>

lemmas eff_steps = eff_bind [OF eff_get_db] eff_bind [OF eff_real_query] eff_bind [OF eff_recycle_db]
  eff_bind [OF if_exist_eff'] eff_bind [OF eff_if] eff_rules

lemma op_website_nice_eff: "eff 0 0 2 (op_website_nice db url nice)"
  unfolding op_website_nice_def by (auto intro!: eff_steps)

lemma update_page_eff: "eff i i k (update_page db max_insert column v url tail)"
  unfolding update_page_def Let_def by (auto intro!: eff_steps)

lemma op_visited_url_eff: "eff 0 0 2 (op_visited_url db max_insert url title contents html)"
  unfolding op_visited_url_def
  by (auto intro!: eff_steps eff_bind [OF update_page_eff])

lemma get_website_nice_eff: "eff 0 0 1 (get_website_nice junk db url)"
  unfolding get_website_nice_def by (auto intro!: eff_steps)

lemma op_dict_manager_eff: "eff 0 0 2 (op_dict_manager junk db dict_name status dict_no comments)"
  unfolding op_dict_manager_def Let_def by (auto intro!: eff_steps)

lemma create_dict_table_eff: "eff 0 0 3 (create_dict_table junk db dict_name)"
  unfolding create_dict_table_def
  by (auto intro!: eff_steps eff_bind [OF eff_call [OF op_dict_manager_eff]])

lemma insert_words_eff: "eff (Suc 0) 0 3 (insert_words db max_insert ins ws item)"
  by (induction db max_insert ins ws item rule: insert_words.induct) (auto intro!: eff_steps)

lemma insert_pairs_eff: "eff (Suc 0) 0 3 (insert_pairs db max_insert ins ws item)"
  by (induction db max_insert ins ws item rule: insert_pairs.induct) (auto simp: Let_def intro!: eff_steps)

lemma add_dict_words_eff: "eff 0 0 3 (add_dict_words junk db max_insert dict_name ws)"
  unfolding add_dict_words_def
  by (auto intro!: eff_steps insert_words_eff eff_bind [OF create_dict_table_eff])

lemma add_dict_pairs_eff: "eff 0 0 3 (add_dict_pairs junk db max_insert dict_name ws)"
  unfolding add_dict_pairs_def
  by (auto intro!: eff_steps insert_pairs_eff eff_bind [OF create_dict_table_eff])

lemma add_dict_file_eff: "eff 0 0 3 (add_dict_file junk db max_insert hash dict_name file)"
  unfolding add_dict_file_def by (auto intro!: eff_rules add_dict_words_eff)

lemma op_strategy_manager_eff: "eff 0 0 2 (op_strategy_manager db name status comments)"
  unfolding op_strategy_manager_def Let_def by (auto intro!: eff_steps)

lemma rm_strategy_manger_eff: "eff 0 0 1 (rm_strategy_manger db name)"
  unfolding rm_strategy_manger_def by (auto intro!: eff_steps)

lemma rm_dict_manager_eff: "eff 0 0 1 (rm_dict_manager db name)"
  unfolding rm_dict_manager_def by (auto intro!: eff_steps)

lemma rm_dict_table_eff: "eff 0 0 1 (rm_dict_table db name)"
  unfolding rm_dict_table_def by (rule eff_bind [OF rm_dict_manager_eff]) (auto intro!: eff_steps)

lemma init_max_insert_eff: "eff 0 0 1 (init_max_insert workers db)"
  unfolding init_max_insert_def by (auto intro!: eff_steps)


section \<open>Properties\<close>


text \<open>The two queries of a pass of \<open>get_url_no\<close> that decide whether it goes round again.\<close>

definition url_known :: "string \<Rightarrow> string" where
  "url_known url = exist_query ''url'' ''visited_url'' ''url'' url"

definition url_insert :: "string \<Rightarrow> string" where
  "url_insert url = ''insert into amigao.visited_url (url) values ('' @ sq url @ '')''"

definition has_rows :: "reply \<Rightarrow> bool" where
  "has_rows r = (case r of Rows rows \<Rightarrow> rows \<noteq> [] | _ \<Rightarrow> False)"

lemma run_if_exist: "run_state (if_exist db sel tab column v) s =
    (case db (server s) (exist_query sel tab column v) of (r, d) \<Rightarrow>
      (has_rows r, s\<lparr>peak := max (peak s) (taken s + 1), server := d, sent := sent s @ [exist_query sel tab column v]\<rparr>))"
  by (simp add: if_exist_def get_db_def recycle_db_def real_query_def has_rows_def split: prod.split reply.split)

lemma url_queries_differ [simp]: "url_known u \<noteq> url_insert v" "url_insert v \<noteq> url_known u"
  by (simp_all add: url_known_def url_insert_def exist_query_def)

lemma url_no_pass_run:
  assumes "db (server s) (url_known url) = (r, d)"
  shows "has_rows r \<Longrightarrow> \<exists>n s'. run_state (url_no_pass db url) s = (Some n, s') \<and> taken s' = taken s"
    and "\<not> has_rows r \<Longrightarrow> db d (url_insert url) = (Failed, d') \<Longrightarrow>
      \<exists>s'. run_state (url_no_pass db url) s = (Some 0, s') \<and> taken s' = taken s"
    and "\<not> has_rows r \<Longrightarrow> db d (url_insert url) = (r', d') \<Longrightarrow> r' \<noteq> Failed \<Longrightarrow>
      \<exists>s'. run_state (url_no_pass db url) s = (None, s') \<and> taken s' = taken s \<and> server s' = d' \<and>
        sent s' = sent s @ [url_known url, url_insert url]"
  using assms
  by (simp_all add: url_no_pass_def run_if_exist url_known_def real_query_def url_insert_def split: prod.split reply.split)

text \<open>
  \<open>get_url_no\<close> returns within two passes on a server where an accepted insert of an address makes
  it visible, and gives its connection back.
\<close>

theorem get_url_no_returns:
  assumes "\<And>d r d'. db d (url_insert (crypt url)) = (r, d') \<Longrightarrow> r \<noteq> Failed \<Longrightarrow>
      has_rows (fst (db d' (url_known (crypt url))))"
    and "2 \<le> fuel"
  shows "\<exists>n s'. run_state (get_url_no fuel db url) s = (Some n, s') \<and> taken s' = taken s"
proof (cases "url_bad url")
  case False
  from assms(2) obtain m where m: "fuel = Suc (Suc m)" by (metis Suc_le_D numeral_2_eq_2 Suc_le_mono)
  let ?u = "crypt url"
  let ?s = "snd (run_state get_db s)"
  have t: "taken ?s = Suc (taken s)" by (simp add: get_db_def)
  have one: "\<exists>n s'. run_state (url_no_loop (Suc k) db ?u) \<sigma> = (Some n, s') \<and> taken s' = taken \<sigma> - 1"
    if p: "run_state (url_no_pass db ?u) \<sigma> = (Some n, \<sigma>')" "taken \<sigma>' = taken \<sigma>" for n \<sigma> \<sigma>' k
    using p by (simp add: recycle_db_def)
  have "\<exists>n s'. run_state (url_no_loop fuel db ?u) ?s = (Some n, s') \<and> taken s' = taken s"
  proof -
    obtain r d where q: "db (server ?s) (url_known ?u) = (r, d)" by force
    obtain r' d' where i: "db d (url_insert ?u) = (r', d')" by force
    show ?thesis
    proof (cases "has_rows r \<or> r' = Failed")
      case True
      then obtain n s1 where "run_state (url_no_pass db ?u) ?s = (Some n, s1)" "taken s1 = taken ?s"
        using url_no_pass_run(1,2) [where db = db and s = "?s" and url = "?u", OF q] i by blast
      from one [OF this, of "Suc m"] t show ?thesis unfolding m by (simp del: url_no_loop.simps)
    next
      case no: False
      then obtain s1 where s1: "run_state (url_no_pass db ?u) ?s = (None, s1)" "taken s1 = taken ?s" "server s1 = d'"
        using url_no_pass_run(3) [where db = db and s = "?s" and url = "?u", OF q _ i] by blast
      obtain r2 d2 where q2: "db (server s1) (url_known ?u) = (r2, d2)" by force
      with assms(1) [OF i] no s1(3) have "has_rows r2" by simp
      then obtain n s2 where s2: "run_state (url_no_pass db ?u) s1 = (Some n, s2)" "taken s2 = taken s1"
        using url_no_pass_run(1) [where db = db and s = s1 and url = "?u", OF q2] by blast
      from one [OF s2, of m] t s1(1,2) show ?thesis unfolding m by simp
    qed
  qed
  then show ?thesis using False by (simp add: get_url_no_def get_db_def)
qed (simp add: get_url_no_def)


text \<open>A server that keeps the set of known addresses, in the database the program works in.\<close>

definition url_server :: "string \<Rightarrow> bool database" where
  "url_server u d q =
     (if q = url_insert u then (No_Result, True)
      else if q = url_known u \<or> q = ''select no from amigao.visited_url where url='' @ sq u
      then (Rows (if d then [[''7'']] else []), d)
      else (Rows [], d))"

theorem get_url_no_returns_witness:
  "\<exists>n s'. run_state (get_url_no 2 (url_server (crypt ''a.b'')) ''a.b'')
      \<lparr>server = False, taken = 4, peak = 4, sent = []\<rparr> = (Some n, s') \<and> taken s' = 4"
  using get_url_no_returns [of "url_server (crypt ''a.b'')" "''a.b''" 2
      "\<lparr>server = False, taken = 4, peak = 4, sent = []\<rparr>"]
  by (simp add: url_server_def has_rows_def split: if_splits)

text \<open>
  \<open>get_url_no\<close> looks the address up in \<open>visited_url\<close> of the connection's own database but inserts it
  into \<open>amigao.visited_url\<close>.  When the two are different tables, so that the look-up stays empty while the
  inserts are accepted, it never returns, and each round inserts the address again.
\<close>

theorem get_url_no_loops:
  assumes "\<And>d. \<not> has_rows (fst (db d (url_known (crypt url))))" "\<And>d. fst (db d (url_insert (crypt url))) \<noteq> Failed"
    and "\<not> url_bad url"
  shows "\<exists>s'. run_state (get_url_no fuel db url) s = (None, s') \<and>
    sent s' = sent s @ concat (replicate fuel [url_known (crypt url), url_insert (crypt url)])"
proof -
  let ?u = "crypt url"
  have loop: "\<exists>s'. run_state (url_no_loop fuel db ?u) \<sigma> = (None, s') \<and>
      sent s' = sent \<sigma> @ concat (replicate fuel [url_known ?u, url_insert ?u])" for \<sigma>
  proof (induction fuel arbitrary: \<sigma>)
    case (Suc fuel)
    obtain r d where q: "db (server \<sigma>) (url_known ?u) = (r, d)" by force
    obtain r' d' where i: "db d (url_insert ?u) = (r', d')" by force
    have "\<not> has_rows r" "r' \<noteq> Failed" using assms(1) [of "server \<sigma>"] assms(2) [of d] q i by simp_all
    then obtain s1 where "run_state (url_no_pass db ?u) \<sigma> = (None, s1)" "sent s1 = sent \<sigma> @ [url_known ?u, url_insert ?u]"
      using url_no_pass_run(3) [where db = db and s = \<sigma> and url = "?u", OF q _ i] by blast
    then show ?case using Suc.IH [of s1] by auto
  qed simp
  show ?thesis using loop [of "snd (run_state get_db s)"] assms(3) by (simp add: get_url_no_def get_db_def)
qed

definition other_database :: "bool database" where
  "other_database d q = (Rows [], d)"

theorem get_url_no_loops_witness:
  "\<exists>s'. run_state (get_url_no 1000 other_database ''a.b'')
      \<lparr>server = False, taken = 4, peak = 4, sent = []\<rparr> = (None, s')"
  using get_url_no_loops [of other_database "''a.b''" 1000 "\<lparr>server = False, taken = 4, peak = 4, sent = []\<rparr>"]
  by (auto simp: other_database_def has_rows_def url_bad_def URL_SIZE_def)

text \<open>
  Changing a dictionary that is known already: the query sent sets the columns of
  \<open>dictionary.dict_manager\<close> and has no condition, so it changes every dictionary's row.
\<close>

theorem op_dict_manager_updates_all:
  assumes "has_rows (fst (db (server s) (exist_query ''dict_name'' ''dictionary.dict_manager'' ''dict_name'' name)))"
  shows "sent (snd (run_state (op_dict_manager junk db name status [] comments) s)) =
    sent s @ [exist_query ''dict_name'' ''dictionary.dict_manager'' ''dict_name'' name,
      ''update dictionary.dict_manager set dict_name='' @ sq name @ '',status='' @
      sq (if status = [] then ''#default'' else status) @ '',comments='' @
      sq (crypt (if comments = [] then ''0'' else comments))]"
proof -
  obtain r d where q: "db (server s) (exist_query ''dict_name'' ''dictionary.dict_manager'' ''dict_name'' name) = (r, d)"
    by force
  then have "has_rows r" using assms by simp
  moreover have "run_state get_db s = ((), s\<lparr>taken := taken s + 1, peak := max (peak s) (taken s + 1)\<rparr>)"
    by (simp add: get_db_def)
  ultimately show ?thesis
    using q by (simp only: op_dict_manager_def Let_def run_state_bind prod.case run_if_exist op_state.simps if_cancel refl
        simp_thms if_True if_False) (simp add: real_query_def recycle_db_def del: append_Cons split: prod.split)
qed

definition dict_server :: "unit database" where
  "dict_server d q = (Rows [[''amigao'']], d)"

theorem op_dict_manager_updates_all_witness:
  "last (sent (snd (run_state (op_dict_manager 0 dict_server ''a'' ''b'' [] ''c'')
     \<lparr>server = (), taken = 0, peak = 0, sent = []\<rparr>))) =
   ''update dictionary.dict_manager set dict_name='' @ sq ''a'' @ '',status='' @ sq ''b'' @ '',comments='' @ sq (crypt ''c'')"
  using op_dict_manager_updates_all [of dict_server "\<lparr>server = (), taken = 0, peak = 0, sent = []\<rparr>" "''a''" 0 "''b''" "''c''"]
  by (simp add: dict_server_def has_rows_def del: crypt.simps append_Cons)


text \<open>One batch of words as it is sent.\<close>

definition words_query :: "string \<Rightarrow> string list \<Rightarrow> string" where
  "words_query ins b = ins @ butlast (concat (map word_item b))"

definition batch_ok :: "int \<Rightarrow> string \<Rightarrow> string list \<Rightarrow> bool" where
  "batch_ok max_insert ins b \<longleftrightarrow> b \<noteq> [] \<and>
     (length b = 1 \<or> int (length (words_query ins b)) \<le> max_insert + 5)"

lemma crypt_nonempty: "w \<noteq> [] \<Longrightarrow> crypt w \<noteq> []"
  by (cases w) auto

lemma word_item_length: "length (word_item w) = length (crypt w) + 5"
  by (simp add: word_item_def sq_def)

lemma items_long: "acc \<noteq> [] \<Longrightarrow> [] \<notin> set acc \<Longrightarrow> 5 < length (concat (map word_item acc))"
  by (cases acc) (auto simp: word_item_length crypt_nonempty)

lemma insert_words_sent:
  assumes "\<And>d q. fst (db d q) \<noteq> Failed"
  shows "[] \<notin> set ws \<Longrightarrow> [] \<notin> set acc \<Longrightarrow> acc = [] \<or> batch_ok max_insert ins acc \<Longrightarrow>
    \<exists>bs. sent (snd (run_state (insert_words db max_insert ins ws (concat (map word_item acc))) s)) =
      sent s @ map (words_query ins) bs \<and> concat bs = acc @ ws \<and> (\<forall>b\<in>set bs. batch_ok max_insert ins b)"
proof (induction ws arbitrary: acc s)
  case Nil
  show ?case
  proof (cases "acc = []")
    case True
    then show ?thesis by (intro exI [of _ "[]"]) (simp add: recycle_db_def)
  next
    case False
    then show ?thesis using Nil items_long [OF False Nil(2)]
      by (intro exI [of _ "[acc]"]) (simp add: recycle_db_def real_query_def words_query_def split: prod.split)
  qed
next
  case (Cons w ws)
  let ?item = "concat (map word_item acc)"
  have w: "w \<noteq> []" "[] \<notin> set ws" using Cons.prems(1) by auto
  have one: "batch_ok max_insert ins [w]" by (simp add: batch_ok_def)
  show ?case
  proof (cases "int (length (crypt w)) + int (length ?item) - 1 + int (length ins) > max_insert")
    case False
    have "batch_ok max_insert ins (acc @ [w])"
      using False items_long [of acc] Cons.prems(2)
      by (cases "acc = []") (auto simp: batch_ok_def words_query_def word_item_length)
    from Cons.IH [OF w(2) _ disjI2 [OF this], of s] w(1) Cons.prems(2) False show ?thesis by auto
  next
    case True
    show ?thesis
    proof (cases "acc = []")
      case e: True
      from Cons.IH [OF w(2) _ disjI2 [OF one], of s] w(1) True e show ?thesis by auto
    next
      case False
      obtain r d where q: "db (server s) (words_query ins acc) = (r, d)" by force
      then have r: "r \<noteq> Failed" using assms [of "server s" "words_query ins acc"] by simp
      obtain bs where bs: "sent (snd (run_state (insert_words db max_insert ins ws (concat (map word_item [w])))
          (s\<lparr>server := d, sent := sent s @ [words_query ins acc]\<rparr>))) =
          sent s @ [words_query ins acc] @ map (words_query ins) bs"
        "concat bs = [w] @ ws" "\<forall>b\<in>set bs. batch_ok max_insert ins b"
        using Cons.IH [OF w(2) _ disjI2 [OF one],
            of "s\<lparr>server := d, sent := sent s @ [words_query ins acc]\<rparr>"] w(1) by auto
      have "run_state (insert_words db max_insert ins (w # ws) ?item) s =
          run_state (insert_words db max_insert ins ws (word_item w))
            (s\<lparr>server := d, sent := sent s @ [words_query ins acc]\<rparr>)"
        using True items_long [OF False Cons.prems(2)] q r
        by (simp add: real_query_def words_query_def [symmetric])
      with bs False Cons.prems(3) show ?thesis by (intro exI [of _ "acc # bs"]) auto
    qed
  qed
qed

text \<open>
  Filling a dictionary loses nothing: when the server accepts the inserts, the queries sent insert
  exactly the given words, in order, in non-empty batches.  A query with more than one word is at most
  five characters longer than \<open>MAX_INSERT\<close>: the size test leaves out the brackets and quotes of the new
  row.
\<close>

theorem insert_words_complete:
  assumes "\<And>d q. fst (db d q) \<noteq> Failed" "[] \<notin> set ws"
  shows "\<exists>bs. sent (snd (run_state (insert_words db max_insert ins ws []) s)) =
      sent s @ map (words_query ins) bs \<and> concat bs = ws \<and>
      (\<forall>b\<in>set bs. b \<noteq> [] \<and> (length b = 1 \<or> int (length (words_query ins b)) \<le> max_insert + 5))"
  using insert_words_sent [where acc = "[]" and max_insert = max_insert and ins = ins and s = s, OF assms] by (auto simp: batch_ok_def)

theorem insert_words_complete_witness:
  "\<exists>bs. sent (snd (run_state (insert_words dict_server 12 ''i '' [''a'', ''b'', ''c''] [])
      \<lparr>server = (), taken = 1, peak = 1, sent = []\<rparr>)) = map (words_query ''i '') bs \<and> concat bs = [''a'', ''b'', ''c'']"
  using insert_words_complete [of dict_server "[''a'', ''b'', ''c'']" 12 "''i ''" "\<lparr>server = (), taken = 1, peak = 1, sent = []\<rparr>"]
  by (auto simp: dict_server_def simp del: insert_words.simps)

end
