(* ===== verification/Search.thy ===== *)
theory Search
  imports HeapSelect Posting SqlOps
begin

text \<open>
  Answering a search: \<open>PlainSearchStrategy::handle\<close> (\<open>src/strategy/plain_search_strategy.hpp\<close>) and
  \<open>PlainSearchResult\<close> (\<open>src/strategy/plain_search_result.hpp\<close>), over the database parameter of SqlOps.
  \<open>jcut\<close> is \<open>Jieba::CutForSearch\<close> (\<open>cut_for_search\<close> of Segment, put in by the root theory); \<open>hash\<close> lists the keys of a hash table in its iteration order.
\<close>

section \<open>PlainSearchResult\<close>

record result_node =
  node_url :: string
  node_title :: string
  node_contents :: string
  node_html :: string
  node_time :: string

type_synonym search_result = "result_node list"

definition field_at :: "(result_node \<Rightarrow> string) \<Rightarrow> search_result \<Rightarrow> nat \<Rightarrow> string" where
  "field_at f r ith = (if ith < length r then f (r ! ith) else [])"

definition get_url :: "search_result \<Rightarrow> nat \<Rightarrow> string" where "get_url = field_at node_url"
definition get_title :: "search_result \<Rightarrow> nat \<Rightarrow> string" where "get_title = field_at node_title"
definition get_contents :: "search_result \<Rightarrow> nat \<Rightarrow> string" where "get_contents = field_at node_contents"
definition get_html :: "search_result \<Rightarrow> nat \<Rightarrow> string" where "get_html = field_at node_html"
definition get_time :: "search_result \<Rightarrow> nat \<Rightarrow> string" where "get_time = field_at node_time"

definition add_result :: "search_result \<Rightarrow> string \<Rightarrow> string \<Rightarrow> string \<Rightarrow> string \<Rightarrow> string \<Rightarrow> search_result" where
  "add_result r url title contents html time = r @ [\<lparr>node_url = url, node_title = title,
     node_contents = contents, node_html = html, node_time = time\<rparr>]"

section \<open>Batches of conditions\<close>

text \<open>
  The loops that put \<open>or word='..' \<close> or \<open>or no='..' \<close> behind each other, and start a new query when the
  next condition would make it longer than \<open>MAX_INSERT\<close>; \<open>prefix\<close> is the length of the part in front.
\<close>

definition or_word :: "string \<Rightarrow> string" where
  "or_word w = ''or word='' @ sq w @ '' ''"

definition or_no :: "string \<Rightarrow> string" where
  "or_no n = ''or no='' @ sq n @ '' ''"

fun gather :: "int \<Rightarrow> nat \<Rightarrow> (string \<Rightarrow> string) \<Rightarrow> nat \<Rightarrow> string list \<Rightarrow> string \<Rightarrow> string list \<times> string" where
  "gather max_insert prefix item extra [] tail = ([], tail)"
| "gather max_insert prefix item extra (w # ws) tail =
     (if int (length tail + prefix + length w + extra) > max_insert
      then case gather max_insert prefix item extra ws (item w) of (b, t) \<Rightarrow> (tail # b, t)
      else gather max_insert prefix item extra ws (tail @ item w))"

definition batches :: "int \<Rightarrow> nat \<Rightarrow> (string \<Rightarrow> string) \<Rightarrow> nat \<Rightarrow> string list \<Rightarrow> string list" where
  "batches max_insert prefix item extra ws =
     (case gather max_insert prefix item extra ws [] of (b, t) \<Rightarrow> if extra < length t then b @ [t] else b)"

text \<open>Sending the batches and collecting the rows; a failure ends the process.\<close>

fun ask :: "'d database \<Rightarrow> string \<Rightarrow> string list \<Rightarrow> ('d, string list list option) op" where
  "ask db prefix [] = State_Monad.return (Some [])"
| "ask db prefix (e # es) = do {
     r \<leftarrow> real_query db (prefix @ e);
     case r of Failed \<Rightarrow> State_Monad.return None | No_Result \<Rightarrow> State_Monad.return None
     | Rows rows \<Rightarrow> do {
         more \<leftarrow> ask db prefix es;
         State_Monad.return (map_option ((@) rows) more) } }"

section \<open>Pages\<close>

definition DEFAULT_RESULTS_PER_PAGE :: int where "DEFAULT_RESULTS_PER_PAGE = 10"
definition MAX_RESULTS_PER_PAGE :: int where "MAX_RESULTS_PER_PAGE = 50"
definition MAX_SEARCH_SENTENCE_SIZE :: nat where "MAX_SEARCH_SENTENCE_SIZE = 90"
definition MAX_CONTENTS_SIZE :: nat where "MAX_CONTENTS_SIZE = 355"
definition WORD_SIZE :: nat where "WORD_SIZE = 255"

definition to_short :: "int \<Rightarrow> int" where
  "to_short i = (i + 32768) mod 65536 - 32768"

definition fix_start_page :: "int \<Rightarrow> int" where
  "fix_start_page start_page = (if start_page < 1 then 1 else start_page)"

definition fix_results_per_page :: "int \<Rightarrow> int" where
  "fix_results_per_page r = (if r < 1 \<or> r > MAX_RESULTS_PER_PAGE then DEFAULT_RESULTS_PER_PAGE else r)"

text \<open>The first and the last result of the page and the number of pages, or no such page.\<close>

definition page_window :: "int \<Rightarrow> int \<Rightarrow> nat \<Rightarrow> (int \<times> int \<times> int) option" where
  "page_window start_page results_per_page n =
     (let end = int n - 1;
          start_sub = (start_page - 1) * results_per_page;
          end_sub = start_sub + results_per_page - 1;
          end_sub = (if end_sub > end then end else end_sub)
      in if start_sub > end_sub then None
         else Some (start_sub, end_sub,
           (end + 1) div results_per_page + (if (end + 1) mod results_per_page \<noteq> 0 then 1 else 0)))"

section \<open>handle\<close>

definition count_words :: "string list \<Rightarrow> (string \<rightharpoonup> int)" where
  "count_words ws = foldl (\<lambda>m w. m(w \<mapsto> (case m w of None \<Rightarrow> 1 | Some k \<Rightarrow> to_short (k + 1)))) Map.empty ws"

definition times_of :: "(string \<rightharpoonup> int) \<Rightarrow> string \<Rightarrow> int" where
  "times_of m w = (case m w of None \<Rightarrow> 0 | Some k \<Rightarrow> k)"

definition search_words :: "(string \<Rightarrow> string list) \<Rightarrow> string \<Rightarrow> string list" where
  "search_words jcut sentence = map crypt (filter (\<lambda>e. e \<noteq> [] \<and> length e \<le> WORD_SIZE) (jcut sentence))"

text \<open>The rows of the words added up; \<open>None\<close> when one is malformed.\<close>

fun sum_weights :: "(string \<times> string) list \<Rightarrow> (string \<Rightarrow> int) \<Rightarrow> (string \<rightharpoonup> 64 word) \<Rightarrow> (string \<rightharpoonup> 64 word) option" where
  "sum_weights [] times_no m = Some m"
| "sum_weights ((no, weight) # ws) times_no m =
     (case parse_weight weight (times_no no) m of None \<Rightarrow> None | Some m' \<Rightarrow> sum_weights ws times_no m')"

fun page_batches :: "int \<Rightarrow> string list \<Rightarrow> string \<Rightarrow> string \<Rightarrow> string list" where
  "page_batches max_insert [] tail field_no =
     (if 9 < length tail then [tail @ ''order by field(no'' @ field_no @ '') ''] else [])"
| "page_batches max_insert (u # us) tail field_no =
     (if int (length tail + 2 * length u + 31) > max_insert
      then (tail @ ''order by field(no'' @ field_no @ '') '') #
        page_batches max_insert us (or_no u) ('','' @ sq u)
      else page_batches max_insert us (tail @ or_no u) (field_no @ '','' @ sq u))"

fun add_rows :: "string list list \<Rightarrow> search_result \<Rightarrow> search_result option" where
  "add_rows [] r = Some r"
| "add_rows (cs # rows) r =
     (case cs of url # title # contents # time # _ \<Rightarrow>
        (case (decrypt url, decrypt title, decrypt contents) of
           (Some url, Some title, Some contents) \<Rightarrow>
             add_rows rows (add_result r url (substr title 0 MAX_CONTENTS_SIZE)
               (substr contents 0 MAX_CONTENTS_SIZE) [] time)
         | _ \<Rightarrow> None)
      | _ \<Rightarrow> None)"

text \<open>
  How \<open>handle\<close> ends: the process exits, a string is read outside its bounds, or the two in-out
  parameters and the results.
\<close>

datatype search_outcome = Process_Exit | Undefined | Found int int search_result

definition find_stop_word :: string where
  "find_stop_word = ''select word from dictionary.stop_word where 0>1 ''"
definition find_word :: string where
  "find_word = ''select word,no from dictionary.word where 0>1 ''"
definition find_wordno_weight :: string where
  "find_wordno_weight = ''select no,weight from amigao.reverse where 0>1 ''"
definition get_page_urls :: string where
  "get_page_urls = ''select url,title,contents,last_update_time from amigao.visited_url where 0>1 ''"

text \<open>From the sums to the results.\<close>

definition answer_page ::
    "'d database \<Rightarrow> int \<Rightarrow> (string set \<Rightarrow> string list) \<Rightarrow> (string \<rightharpoonup> 64 word) \<Rightarrow> int \<Rightarrow> int \<Rightarrow>
     search_result \<Rightarrow> ('d, search_outcome) op" where
  "answer_page db max_insert hash sums start_page results_per_page result =
     (let urlnos = hash (dom sums);
          key = (\<lambda>u. unat (case sums u of None \<Rightarrow> 0 | Some x \<Rightarrow> x))
      in if urlnos = [] then do { recycle_db; State_Monad.return (Found (-1) (-1) result) }
         else case page_window start_page results_per_page (length urlnos) of
           None \<Rightarrow> do { recycle_db; State_Monad.return (Found (-1) (-1) result) }
         | Some (start_sub, end_sub, total_pages) \<Rightarrow> do {
             rows \<leftarrow> ask db get_page_urls
               (page_batches max_insert (select_page key urlnos (nat start_sub) (nat end_sub)) [] []);
             case rows of None \<Rightarrow> State_Monad.return Process_Exit
             | Some rows \<Rightarrow> (case add_rows rows result of
                 None \<Rightarrow> State_Monad.return Undefined
               | Some result \<Rightarrow> do {
                   recycle_db;
                   State_Monad.return (Found start_page (to_short total_pages) result) }) })"

definition handle ::
    "(string \<Rightarrow> string list) \<Rightarrow> 'd database \<Rightarrow> int \<Rightarrow> (string set \<Rightarrow> string list) \<Rightarrow> string \<Rightarrow> search_result \<Rightarrow>
     int \<Rightarrow> int \<Rightarrow> bool \<Rightarrow> ('d, search_outcome) op" where
  "handle jcut db max_insert hash sentence result start_page results_per_page use_stop_word =
     (if sentence = [] then State_Monad.return (Found (-1) (-1) result)
      else
        let sentence = substr sentence 0 MAX_SEARCH_SENTENCE_SIZE;
            start_page = fix_start_page start_page;
            results_per_page = fix_results_per_page results_per_page;
            ws = search_words jcut sentence;
            find_vec = batches max_insert (length find_stop_word) or_word 11 ws
        in do {
          get_db;
          stop \<leftarrow> (if use_stop_word then ask db find_stop_word find_vec else State_Monad.return (Some []));
          case stop of None \<Rightarrow> State_Monad.return Process_Exit
          | Some stop \<Rightarrow> do {
              let tmp_times = foldl (\<lambda>m cs. m(hd cs := None)) (count_words ws) stop;
              found \<leftarrow> ask db find_word find_vec;
              case found of None \<Rightarrow> State_Monad.return Process_Exit
              | Some found \<Rightarrow> do {
                  let wordno_times = (\<lambda>no. times_of
                    (map_of (rev (map (\<lambda>cs. (cs ! 1, times_of tmp_times (hd cs))) found))) no);
                  weights \<leftarrow> ask db find_wordno_weight
                    (batches max_insert (length find_wordno_weight) or_no 9 (map (\<lambda>cs. cs ! 1) found));
                  case weights of None \<Rightarrow> State_Monad.return Process_Exit
                  | Some rows \<Rightarrow> do {
                      let wordno_weight = map_of (rev (map (\<lambda>cs. (hd cs, cs ! 1)) rows));
                      case sum_weights (map (\<lambda>no. (no, the (wordno_weight no))) (hash (dom wordno_weight)))
                          wordno_times Map.empty of
                        None \<Rightarrow> State_Monad.return Undefined
                      | Some sums \<Rightarrow>
                          answer_page db max_insert hash sums start_page results_per_page result } } } })"


section \<open>Properties\<close>

lemma fix_results_range: "1 \<le> fix_results_per_page r \<and> fix_results_per_page r \<le> 50"
  by (simp add: fix_results_per_page_def MAX_RESULTS_PER_PAGE_def DEFAULT_RESULTS_PER_PAGE_def)

lemma page_window_Some:
  "page_window p r n = Some (s, e, t) \<longleftrightarrow>
    s = (p - 1) * r \<and> e = min (s + r - 1) (int n - 1) \<and> s \<le> e \<and>
    t = int n div r + (if int n mod r \<noteq> 0 then 1 else 0)"
  by (auto simp: page_window_def Let_def min_def)



lemma ask_one:
  assumes "db (server s) (q @ e) = (Rows rows, d)"
  shows "run_state (ask db q [e]) s = (Some rows, s\<lparr>server := d, sent := sent s @ [q @ e]\<rparr>)"
  using assms by (simp add: real_query_def)

lemma page_batches_one:
  assumes "\<forall>u\<in>set us. length u \<le> 20" "int (length tail + 29 * length us + 42) \<le> max_insert"
  shows "page_batches max_insert us tail field_no =
    (if 9 < length (tail @ concat (map or_no us))
     then [tail @ concat (map or_no us) @ ''order by field(no'' @ field_no @ concat (map (\<lambda>u. '','' @ sq u) us) @ '') '']
     else [])"
  using assms
proof (induction us arbitrary: tail field_no)
  case (Cons u us)
  have l: "length (or_no u) = length u + 9" by (simp add: or_no_def sq_def)
  have "int (length (tail @ or_no u) + 29 * length us + 42) \<le> max_insert" using Cons.prems l by auto
  moreover have "int (length tail + 2 * length u + 31) \<le> max_insert" using Cons.prems by auto
  ultimately show ?case using Cons.IH [of "tail @ or_no u" "field_no @ '','' @ sq u"] Cons.prems(1) by simp
qed simp

lemma real_window:
  assumes "page_window p r n = Some (s, e, t)" "1 \<le> p" "1 \<le> r"
  shows "nat s \<le> nat e" "nat e < n" "int (nat e) = e" "int (nat s) = s" "e - s < r"
proof -
  have e: "s = (p - 1) * r" "e = min (s + r - 1) (int n - 1)" "s \<le> e"
    using assms(1) unfolding page_window_Some by blast+
  have "0 \<le> s" using assms(2,3) by (simp add: e(1))
  moreover have "e \<le> int n - 1" "e \<le> s + r - 1" using e(2) by simp_all
  ultimately show "nat s \<le> nat e" "nat e < n" "int (nat e) = e" "int (nat s) = s" "e - s < r"
    using e(3) by simp_all
qed

lemma answer_page_run:
  assumes "hash (dom sums) \<noteq> []" "page_window p r (length (hash (dom sums))) = Some (s, e, t)"
    and "page_batches max_insert (select_page (\<lambda>u. unat (case sums u of None \<Rightarrow> 0 | Some x \<Rightarrow> x)) (hash (dom sums))
      (nat s) (nat e)) [] [] = [q]"
    and "db (server st) (get_page_urls @ q) = (Rows [], d)"
  shows "run_state (answer_page db max_insert hash sums p r []) st = (Found p (to_short t) [],
    st\<lparr>server := d, sent := sent st @ [get_page_urls @ q], taken := taken st - 1\<rparr>)"
  unfolding answer_page_def Let_def assms(2) option.case prod.case assms(3)
  using assms(1,4) by (simp add: real_query_def recycle_db_def)

text \<open>
  From the sums to the question: with a server that answers, the one query \<open>handle\<close> sends for the page
  asks for distinct addresses out of those found, in the order it wants them back, and their weights are
  the ones at the page's positions in the falling order of all weights.  The outcome reports the page and
  the number of pages as a \<open>short\<close>.
\<close>

theorem answer_page_asks:
  assumes "set (hash (dom sums)) = dom sums" "distinct (hash (dom sums))"
    and "page_window p r (length (hash (dom sums))) = Some (s, e, t)" "1 \<le> p" "1 \<le> r" "r \<le> 50"
    and "\<forall>u\<in>dom sums. 1 \<le> length u \<and> length u \<le> 20" "3145728 \<le> max_insert"
    and "\<And>d q. \<exists>d'. db d q = (Rows [], d')"
  shows "\<exists>page s'. run_state (answer_page db max_insert hash sums p r []) st = (Found p (to_short t) [], s') \<and>
    sent s' = sent st @ [get_page_urls @ concat (map or_no page) @ ''order by field(no'' @
      concat (map (\<lambda>u. '','' @ sq u) page) @ '') ''] \<and>
    distinct page \<and> set page \<subseteq> dom sums \<and>
    map (\<lambda>u. unat (the (sums u))) page = take (nat e + 1 - nat s) (drop (nat s)
      (rev (sort (map (\<lambda>u. unat (the (sums u))) (hash (dom sums))))))"
proof -
  let ?us = "hash (dom sums)" and ?key = "\<lambda>u. unat (case sums u of None \<Rightarrow> 0 | Some x \<Rightarrow> x)"
  let ?page = "select_page ?key ?us (nat s) (nat e)"
  note w = real_window [OF assms(3-5)]
  note sel = select_page_props [OF w(1,2), of ?key]
  have keys: "map ?key us = map (\<lambda>u. unat (the (sums u))) us" if "set us \<subseteq> dom sums" for us
    using that by (intro map_cong) (auto split: option.splits)
  have len: "length ?page = nat e + 1 - nat s" "?page \<noteq> []" using w(1) by (auto simp: select_page_def Let_def)
  have sub: "set ?page \<subseteq> dom sums" using sel assms(1) by blast
  have u: "\<forall>u\<in>set ?page. 1 \<le> length u \<and> length u \<le> 20" using sub assms(7) by blast
  have n: "length ?page \<le> 50" using len(1) w assms(6) by linarith
  have fit: "int (length [] + 29 * length ?page + 42) \<le> max_insert" using n assms(8) by simp
  have long: "9 < length (concat (map or_no ?page))"
    using len(2) u by (cases ?page) (auto simp: or_no_def sq_def)
  let ?q = "concat (map or_no ?page) @ ''order by field(no'' @ concat (map (\<lambda>u. '','' @ sq u) ?page) @ '') ''"
  have b: "page_batches max_insert ?page [] [] = [?q]"
    using page_batches_one [of ?page "[]" max_insert "[]"] u fit long by (simp del: append_Cons)
  obtain d' where d: "db (server st) (get_page_urls @ ?q) = (Rows [], d')" using assms(9) by blast
  have ne: "?us \<noteq> []" using w(2) by auto
  note run = answer_page_run [of hash sums p r s e t max_insert "?q" db st d', OF ne assms(3) b d]
  show ?thesis
    using run sel assms(1,2) keys [of ?us] keys [OF sub] sub by (intro exI [of _ ?page] exI) (auto simp del: append_Cons)
qed


definition empty_server :: "unit database" where
  "empty_server d q = (Rows [], d)"

theorem answer_page_asks_witness:
  "\<exists>s'. run_state (answer_page empty_server 3145728 (\<lambda>_. [''7'', ''12'']) [''7'' \<mapsto> 3, ''12'' \<mapsto> 9] 1 10 [])
      \<lparr>server = (), taken = 1, peak = 1, sent = []\<rparr> = (Found 1 1 [], s')"
proof -
  let ?h = "\<lambda>_ :: string set. [''7'', ''12'']" and ?m = "[''7'' \<mapsto> 3, ''12'' \<mapsto> 9] :: string \<rightharpoonup> 64 word"
  have d: "dom ?m = {''7'', ''12''}" by auto
  have h: "set (?h (dom ?m)) = dom ?m" "distinct (?h (dom ?m))" unfolding d by simp_all
  have w: "page_window 1 10 (length (?h (dom ?m))) = Some (0, 1, 1)" by (simp add: page_window_Some)
  have l: "\<forall>u\<in>dom ?m. 1 \<le> length u \<and> length u \<le> 20" unfolding d by simp
  have a: "\<exists>d'. empty_server d q = (Rows [], d')" for d q by (simp add: empty_server_def)
  have t: "to_short 1 = 1" by (simp add: to_short_def)
  note q = answer_page_asks [where hash = "?h" and sums = "?m" and p = 1 and r = 10 and s = 0 and e = 1 and t = 1
      and max_insert = 3145728 and db = empty_server and st = "\<lparr>server = (), taken = 1, peak = 1, sent = []\<rparr>",
      OF h w _ _ _ l _ a]
  have "(1::int) \<le> 1" "(1::int) \<le> 10" "(10::int) \<le> 50" "(3145728::int) \<le> 3145728" by simp_all
  from q [OF this] show ?thesis unfolding t by blast
qed

end
