(* ===== verification/Valuate.thy ===== *)
theory Valuate
  imports Search
begin

text \<open>
  Valuing a page: the constructor and \<open>handle\<close> of \<open>ReverseValuateStrategy\<close>
  (\<open>src/strategy/reverse_valuate_strategy.hpp\<close>).  The words of the title count ten times, those of the
  contents once; the posting row of every word of the dictionary is fetched, edited by \<open>update_weight\<close>
  and written back.  \<open>jcut\<close> is \<open>Jieba::CutForSearch\<close>
  (\<open>cut_for_search\<close> of Segment, put in by the root theory).
\<close>

section \<open>The constructor\<close>

text \<open>\<open>MAX_URLS\<close>, from the status column of the strategy; \<open>ss\<close> is fresh, so what it reads is one text.\<close>

definition max_url_key :: string where
  "max_url_key = ''#max_url_per_word=''"

definition read_max_urls :: "string \<Rightarrow> int" where
  "read_max_urls status =
     (case str_find max_url_key status of
        None \<Rightarrow> 800
      | Some pos \<Rightarrow>
          if pos + 18 < length status
          then let tmp = substr status (pos + 18) (length status)
            in (case str_find ''#'' tmp of
                  Some pos1 \<Rightarrow> fst (ss_get_int int_min int_max (substr tmp 0 pos1) 800)
                | None \<Rightarrow> fst (ss_get_int int_min int_max (substr tmp 0 (length tmp)) 800))
          else 800)"

definition init_max_urls :: "'d database \<Rightarrow> ('d, int) op" where
  "init_max_urls db = do {
     get_db;
     r \<leftarrow> real_query db (''select status from amigao.strategy_manager where strategy_name='' @ sq ''reverse'');
     recycle_db;
     State_Monad.return (case r of Rows (cs # _) \<Rightarrow> read_max_urls (hd cs) | _ \<Rightarrow> 800) }"

section \<open>Words and their weights\<close>

definition DB_DICTIONARY_WORD_SIZE :: nat where "DB_DICTIONARY_WORD_SIZE = 768"

text \<open>The words of one part of the page as the dictionary has them.\<close>

definition page_words :: "(string \<Rightarrow> string list) \<Rightarrow> string \<Rightarrow> string list" where
  "page_words jcut text =
     filter (\<lambda>w. w \<noteq> [] \<and> length w \<le> DB_DICTIONARY_WORD_SIZE)
       (map (\<lambda>e. crypt (filter (\<lambda>c. c \<noteq> CHR '' '' \<and> c \<noteq> CR \<and> c \<noteq> NL \<and> c \<noteq> TAB) e)) (jcut text))"

definition add_words :: "32 word \<Rightarrow> string list \<Rightarrow> (string \<rightharpoonup> 32 word) \<Rightarrow> (string \<rightharpoonup> 32 word)" where
  "add_words k ws m = foldl (\<lambda>m w. m(w \<mapsto> (case m w of None \<Rightarrow> 0 | Some x \<Rightarrow> x) + k)) m ws"

definition word_weights :: "(string \<Rightarrow> string list) \<Rightarrow> string \<Rightarrow> string \<Rightarrow> (string \<rightharpoonup> 32 word)" where
  "word_weights jcut title contents =
     add_words 1 (page_words jcut contents) (add_words 10 (page_words jcut title) Map.empty)"

section \<open>handle\<close>

definition select_word_no :: string where
  "select_word_no = ''select no,word from dictionary.word where 0>1 ''"

definition select_no_weight :: string where
  "select_no_weight = ''select no,weight from amigao.reverse where 0>1 ''"

text \<open>
  Editing the rows and gathering \<open>when .. then ..\<close> clauses.  A row that does not parse leaves the string,
  which is \<open>None\<close>.
\<close>

definition case_clause :: "string \<Rightarrow> string \<Rightarrow> string" where
  "case_clause no weight = ''when '' @ sq no @ '' then '' @ sq weight @ '' ''"

definition close_case :: "string \<Rightarrow> string \<Rightarrow> string" where
  "close_case when_then no_in = when_then @ '' end where no in ('' @ butlast no_in @ '')''"

fun edit_rows ::
    "int \<Rightarrow> int \<Rightarrow> (string \<Rightarrow> nat) \<Rightarrow> string \<Rightarrow> string list list \<Rightarrow> string \<Rightarrow> string \<Rightarrow> sstream \<Rightarrow> string list option" where
  "edit_rows max_insert max_urls cur url_no [] when_then no_in ss =
     Some (if 3 < length no_in then [close_case when_then no_in] else [])"
| "edit_rows max_insert max_urls cur url_no (cs # rows) when_then no_in ss =
     (let no = hd cs in
      case update_weight max_urls (cur no) url_no (cs ! 1) ss of
        None \<Rightarrow> None
      | Some (weight, ss) \<Rightarrow>
          if 0 < length no \<and>
             int (length when_then + 37 + length no_in + 2 * length no + length weight) > max_insert
          then map_option ((#) (close_case when_then no_in))
            (edit_rows max_insert max_urls cur url_no rows (case_clause no weight) (sq no @ '','') ss)
          else edit_rows max_insert max_urls cur url_no rows (when_then @ case_clause no weight)
            (no_in @ sq no @ '','') ss)"

text \<open>The updates at the end; \<open>False\<close> is \<open>exit(1)\<close>.\<close>

fun send_updates :: "'d database \<Rightarrow> string list \<Rightarrow> ('d, bool) op" where
  "send_updates db [] = State_Monad.return True"
| "send_updates db (e # es) = do {
     r \<leftarrow> real_query db (''update reverse set weight= case no '' @ e);
     if r = Failed then State_Monad.return False else send_updates db es }"

datatype valuated = Valuated | Valuate_Exit | Valuate_Undefined | Valuate_Looping

definition valuate_rows ::
    "'d database \<Rightarrow> int \<Rightarrow> int \<Rightarrow> string \<Rightarrow> (string \<rightharpoonup> 32 word) \<Rightarrow> string list \<Rightarrow> ('d, valuated) op" where
  "valuate_rows db max_insert max_urls url_no word_weight find_vec = do {
     found \<leftarrow> ask db select_word_no find_vec;
     case found of None \<Rightarrow> State_Monad.return Valuate_Exit
     | Some found \<Rightarrow> do {
         let wordno_weight = map_of (rev (map (\<lambda>cs. (hd cs,
           unat (case word_weight (cs ! 1) of None \<Rightarrow> 0 | Some x \<Rightarrow> x))) found));
         let cur = (\<lambda>no. case wordno_weight no of None \<Rightarrow> 0 | Some k \<Rightarrow> k);
         rows \<leftarrow> ask db select_no_weight
           (batches max_insert (length select_no_weight) or_no 9 (map hd found));
         case rows of None \<Rightarrow> State_Monad.return Valuate_Exit
         | Some rows \<Rightarrow>
             (case edit_rows max_insert max_urls cur url_no rows [] [] [] of
                None \<Rightarrow> State_Monad.return Valuate_Undefined
              | Some updates \<Rightarrow> do {
                  ok \<leftarrow> send_updates db updates;
                  if ok then do { recycle_db; State_Monad.return Valuated }
                  else State_Monad.return Valuate_Exit }) } }"

definition valuate_page ::
    "nat \<Rightarrow> (string \<Rightarrow> string list) \<Rightarrow> 'd database \<Rightarrow> int \<Rightarrow> int \<Rightarrow> string \<Rightarrow> string \<Rightarrow> string \<Rightarrow> string \<Rightarrow>
     ('d, valuated) op" where
  "valuate_page fuel jcut db max_insert max_urls url title contents html =
     (if URL_SIZE < length url then State_Monad.return Valuated
      else do {
        op_visited_url db max_insert url title contents html;
        no \<leftarrow> get_url_no fuel db url;
        case no of None \<Rightarrow> State_Monad.return Valuate_Looping
        | Some 0 \<Rightarrow> State_Monad.return Valuated
        | Some no \<Rightarrow> do {
            get_db;
            valuate_rows db max_insert max_urls (nat_str no) (word_weights jcut title contents)
              (batches max_insert (length select_word_no) or_word 11 (page_words jcut title) @
               batches max_insert (length select_word_no) or_word 11 (page_words jcut contents)) } })"

section \<open>Lemmas and properties\<close>

lemma add_words_value:
  "(case add_words k ws m w of None \<Rightarrow> 0 | Some x \<Rightarrow> x) =
    (case m w of None \<Rightarrow> 0 | Some x \<Rightarrow> x) + of_nat (count_list ws w) * k"
  unfolding add_words_def by (induction ws arbitrary: m) (auto simp: algebra_simps)

text \<open>
  The weight of a word on a page is ten times its occurrences in the title plus its occurrences in
  the contents, as an \<open>unsigned int\<close>.
\<close>

theorem word_weights_count:
  "(case word_weights jcut title contents w of None \<Rightarrow> 0 | Some x \<Rightarrow> x) =
    10 * of_nat (count_list (page_words jcut title) w) + of_nat (count_list (page_words jcut contents) w)"
  by (simp add: word_weights_def add_words_value)

lemma str_find_prefix: "p \<noteq> [] \<Longrightarrow> hd p \<notin> set a \<Longrightarrow> str_find p (a @ p @ b) = Some (length a)"
proof (induction a)
  case Nil
  then obtain q qs where "p = q # qs" by (cases p) auto
  then show ?case by (simp add: is_prefix_iff)
next
  case (Cons c a)
  then have "\<not> is_prefix p (c # a @ p @ b)" by (cases p) auto
  with Cons show ?case by simp
qed

text \<open>
  The limit of a row is read back from the strategy's status: \<open>#max_url_per_word=n\<close>, followed by
  nothing or by the next \<open>#\<close>, gives \<open>n\<close>.
\<close>

theorem read_max_urls_reads:
  assumes "CHR ''#'' \<notin> set a" "int n \<le> int_max" "b = [] \<or> hd b = CHR ''#''"
  shows "read_max_urls (a @ max_url_key @ nat_str n @ b) = int n"
proof -
  have f: "str_find max_url_key (a @ max_url_key @ nat_str n @ b) = Some (length a)"
    using assms(1) by (intro str_find_prefix) (simp_all add: max_url_key_def)
  have l: "length max_url_key = 18" by (simp add: max_url_key_def)
  have "0 < length (nat_str n)" by simp
  then have lt: "length a + 18 < length (a @ max_url_key @ nat_str n @ b)" using l by (simp del: length_greater_0_conv)
  have t: "substr (a @ max_url_key @ nat_str n @ b) (length a + 18) (length (a @ max_url_key @ nat_str n @ b)) = nat_str n @ b"
    using substr_end [of "a @ max_url_key" "nat_str n @ b"] l by simp
  have nn: "CHR ''#'' \<notin> set (nat_str n)" by (rule nat_str_not_in) (simp add: is_digit_code codes)
  have g: "fst (ss_get_int int_min int_max (nat_str n) 800) = int n" using assms(2) by (simp add: ss_get_int_nat_str)
  show ?thesis
  proof (cases "b = []")
    case True
    have "str_find ''#'' (nat_str n) = None"
      using str_find_skip [OF nn, of "[]" "[]"] by simp
    then show ?thesis using f lt t g True by (simp add: read_max_urls_def substr_def)
  next
    case False
    then obtain c where "b = CHR ''#'' # c" using assms(3) by (cases b) auto
    then have "str_find ''#'' (nat_str n @ b) = Some (length (nat_str n))"
      using str_find_prefix [of "''#''" "nat_str n" c] nn by simp
    then show ?thesis using f lt t g by (simp add: read_max_urls_def substr_append_left)
  qed
qed

theorem read_max_urls_reads_witness: "read_max_urls (''a'' @ max_url_key @ nat_str 250 @ ''#b=1'') = 250"
  using read_max_urls_reads [of "''a''" 250 "''#b=1''"] by simp

end
