(* ===== verification/Spider.thy ===== *)
theory Spider
  imports SharedRing Valuate "HOL-Library.Sublist"
begin

text \<open>
  The spider: one turn of the loops of \<open>crawl_worker.cc\<close> and \<open>parse_worker.cc\<close>, and what
  \<open>master.cc\<close> does before and after them (\<open>src/spider/\<close>).  A turn runs from one label \<open>start\<close> to the next.
  (SpiderThreads interleaves any number of workers.)  No worker holds two mutexes at a time, so a turn is a sequence of critical sections, each of which works
  on the shared memory or on the file of addresses.  The network, the Gumbo parser, the GBK conversion, the
  segmenter and the iteration order of hash sets are parameters (\<open>env\<close>).
\<close>

section \<open>The world around a worker\<close>

text \<open>What a download meets: the chunks \<open>recv\<close> delivers and whether the last call returned 0 or an error.\<close>

datatype answer = No_Host | No_Socket | No_Connect | No_Send | Chunks "string list" bool

record ('d, 'a) env =
  env_db :: "'d database"
  env_max_insert :: int
  env_max_urls :: int
  env_junk :: int
  env_fuel :: nat
  env_net :: "string \<Rightarrow> string \<Rightarrow> answer"
  env_buf :: string
  env_utf8 :: "string \<Rightarrow> string"
  env_gumbo :: "string \<Rightarrow> 'a gumbo_node"
  env_attr :: "'a \<Rightarrow> string \<Rightarrow> string option"
  env_order :: "string set \<Rightarrow> string list"
  env_cut :: "string \<Rightarrow> string list"

text \<open>The shared state: memory, the lines of \<open>read_url\<close> and the text of \<open>write_url\<close> (\<open>None\<close>: cannot be opened).\<close>

record spider =
  shm :: shmctrl
  read_file :: "string list option"
  write_file :: "string option"

datatype turn_end = Started | Exited | Crashed | Hung

section \<open>Getting an address\<close>

datatype url_taken = Took spider string | None_Left | No_File | Overflow

definition take_url :: "spider \<Rightarrow> string \<Rightarrow> url_taken" where
  "take_url sp work =
     (let r = url_queue (shm sp) in
      if ring_empty r
      then (case read_file sp of
              None \<Rightarrow> No_File
            | Some lines \<Rightarrow>
                (let buf = (case lines of [] \<Rightarrow> [] | l # _ \<Rightarrow> l) in
                 if buf = [] then None_Left
                 else (case load_line buf work of
                         None \<Rightarrow> Overflow
                       | Some work \<Rightarrow> Took (sp\<lparr>read_file := Some (tl lines)\<rparr>) work)))
      else Took (sp\<lparr>shm := (shm sp)\<lparr>url_queue := ring_advance r\<rparr>\<rparr>) (load_work (ring_front r) work))"

definition skip_url :: "('d, 'a) env \<Rightarrow> string \<Rightarrow> ('d, bool) op" where
  "skip_url e url = do {
     n \<leftarrow> get_website_nice (env_junk e) (env_db e) url;
     if n = 0 then State_Monad.return True
     else if_exist (env_db e) ''url'' ''amigao.visited_url'' ''url'' (crypt url) }"

section \<open>Downloading a page\<close>

definition CRLF :: string where "CRLF = [CR, NL]"

definition request :: "string \<Rightarrow> string \<Rightarrow> string" where
  "request host path =
     ''GET '' @ path @ '' HTTP/1.1'' @ CRLF @ ''Host: '' @ host @ CRLF @
     ''Accept: text/html,application/xhtml+xml,application/xml;q=0.9,image/webp,image/apng,*/*;q=0.8,application/signed-exchange;v=b3;q=0.9'' @ CRLF @
     ''Referer: https://cn.bing.com/'' @ CRLF @
     ''User-Agent: Mozilla/5.0 (X11; Linux x86_64) AppleWebKit/537.36 (KHTML, like Gecko) Chrome/80.0.3987.132 Safari/537.36'' @ CRLF @
     ''Connection: Close'' @ CRLF @ CRLF"

text \<open>
  The receive loop.  Each chunk overwrites the start of the buffer, and the buffer is appended as a C
  string, up to its first NUL, wherever the chunk ends; a buffer without one is read past its end.
\<close>

datatype received = Received string | Too_Large | Recv_Failed | Overrun

fun recv_loop :: "string \<Rightarrow> string \<Rightarrow> string list \<Rightarrow> bool \<Rightarrow> received" where
  "recv_loop buf raw [] ok = (if ok then Received raw else Recv_Failed)"
| "recv_loop buf raw (chunk # chunks) ok =
     (let buf = chunk @ drop (length chunk) buf in
      if NUL \<notin> set buf then Overrun
      else let raw = raw @ c_str buf in
        if HTML_SIZE < length raw then Too_Large else recv_loop buf raw chunks ok)"

definition word_end :: "char \<Rightarrow> bool" where
  "word_end c \<longleftrightarrow> c = CHR '' '' \<or> c = TAB \<or> c = CR"

text \<open>The checks on the response; the page is what follows the header when the status begins with 2.\<close>

definition parse_response :: "string \<Rightarrow> string option" where
  "parse_response raw =
     (case str_find (CRLF @ CRLF) raw of
        None \<Rightarrow> None
      | Some i \<Rightarrow>
          if i = 0 then None
          else
            let header = map lower_char (substr raw 0 i) in
            case str_find ''http/'' header of
              None \<Rightarrow> None
            | Some j \<Rightarrow>
                let i = length header in
                if length raw \<le> i + 4 then None
                else
                  let html = substr raw (i + 4) (length raw);
                      j = scan_while (\<lambda>c. \<not> word_end c) header j;
                      j = scan_while (\<lambda>c. c = CHR '' '' \<or> c = TAB) header j;
                      k = scan_while (\<lambda>c. \<not> word_end c) header j
                  in
                  if length header \<le> j then None
                  else
                    let status = substr header j (k - j) in
                    if status = [] \<or> hd status \<noteq> CHR ''2'' then None else Some html)"

datatype fetched = Page string | No_Page | Fetch_Undefined

definition give_up :: "('d, 'a) env \<Rightarrow> string \<Rightarrow> ('d, fetched) op" where
  "give_up e url = do { op_website_nice (env_db e) url ''0''; State_Monad.return No_Page }"

definition fetch_page :: "('d, 'a) env \<Rightarrow> string \<Rightarrow> ('d, fetched) op" where
  "fetch_page e url =
     (case parse_url url of
        None \<Rightarrow> State_Monad.return Fetch_Undefined
      | Some (host, path) \<Rightarrow>
          (case env_net e host (request host path) of
             Chunks chunks ok \<Rightarrow>
               (case recv_loop (env_buf e) [] chunks ok of
                  Received raw \<Rightarrow>
                    (case parse_response raw of
                       Some html \<Rightarrow> State_Monad.return (Page (env_utf8 e html))
                     | None \<Rightarrow> give_up e url)
                | Overrun \<Rightarrow> State_Monad.return Fetch_Undefined
                | _ \<Rightarrow> give_up e url)
           | _ \<Rightarrow> give_up e url))"

section \<open>Working on a page\<close>

fun filter_links :: "('d, 'a) env \<Rightarrow> string list \<Rightarrow> ('d, string list) op" where
  "filter_links e [] = State_Monad.return []"
| "filter_links e (u # us) = do {
     skip \<leftarrow> skip_url e u;
     us \<leftarrow> filter_links e us;
     State_Monad.return (if skip then us else u # us) }"

datatype links_found = Links "string list" | Links_Fail turn_end

text \<open>Parsing, valuing and asking the database about every link.\<close>

definition page_links :: "('d, 'a) env \<Rightarrow> string \<Rightarrow> string \<Rightarrow> ('d, links_found) op" where
  "page_links e url html =
     (let root = env_gumbo e (c_str html); title = find_title root in
      case get_links_contents (env_attr e) root ({}, '''') of
        None \<Rightarrow> State_Monad.return (Links_Fail Crashed)
      | Some (links, contents) \<Rightarrow> do {
          v \<leftarrow> valuate_page (env_fuel e) (env_cut e) (env_db e) (env_max_insert e) (env_max_urls e)
            url title contents html;
          case v of
            Valuated \<Rightarrow> do {
              us \<leftarrow> filter_links e (env_order e (links - {url}));
              State_Monad.return (Links us) }
          | Valuate_Exit \<Rightarrow> State_Monad.return (Links_Fail Exited)
          | Valuate_Undefined \<Rightarrow> State_Monad.return (Links_Fail Crashed)
          | Valuate_Looping \<Rightarrow> State_Monad.return (Links_Fail Hung) })"

text \<open>As many links as fit go to the queue, the rest to the end of the file.\<close>

definition publish :: "string list \<Rightarrow> spider \<Rightarrow> spider \<times> turn_end" where
  "publish links sp =
     (case insert_links links (url_queue (shm sp)) of
        (r, rest) \<Rightarrow>
          let sp = sp\<lparr>shm := (shm sp)\<lparr>url_queue := r\<rparr>\<rparr> in
          if rest = [] then (sp, Started)
          else case write_file sp of
            None \<Rightarrow> (sp, Exited)
          | Some text \<Rightarrow>
              (sp\<lparr>write_file := Some (text @ concat (map (\<lambda>u. c_str (u @ [NL])) rest))\<rparr>, Started))"

section \<open>The crawler\<close>

text \<open>The crawler keeps the first link for itself.\<close>

definition crawl_job :: "('d, 'a) env \<Rightarrow> spider \<Rightarrow> string \<Rightarrow> string \<Rightarrow> string \<Rightarrow> ('d, (spider \<times> string \<times> bool) \<times> turn_end) op" where
  "crawl_job e sp work url html = do {
     found \<leftarrow> page_links e url html;
     State_Monad.return (case found of
       Links_Fail t \<Rightarrow> ((sp, work, False), t)
     | Links [] \<Rightarrow> ((sp, work, False), Started)
     | Links (u # us) \<Rightarrow>
         (case publish us sp of
            (sp, t) \<Rightarrow> ((sp, end_str (length u) URL_SIZE (copy_chars u 0 work), True), t))) }"

definition crawl_page :: "('d, 'a) env \<Rightarrow> spider \<Rightarrow> string \<Rightarrow> ('d, (spider \<times> string \<times> bool) \<times> turn_end) op" where
  "crawl_page e sp work =
     (case work_string work of
        None \<Rightarrow> State_Monad.return ((sp, work, False), Crashed)
      | Some url \<Rightarrow> do {
          skip \<leftarrow> skip_url e url;
          if skip then State_Monad.return ((sp, work, False), Started)
          else do {
            page \<leftarrow> fetch_page e url;
            case page of
              Fetch_Undefined \<Rightarrow> State_Monad.return ((sp, work, False), Crashed)
            | No_Page \<Rightarrow> State_Monad.return ((sp, work, False), Started)
            | Page html \<Rightarrow>
                if ring_full (html_queue (shm sp)) then crawl_job e sp work url html
                else State_Monad.return
                  ((sp\<lparr>shm := (shm sp)\<lparr>html_queue := ring_store (write_html_cell work html) (html_queue (shm sp))\<rparr>\<rparr>,
                    work, False), Started) } })"

definition crawl_turn :: "('d, 'a) env \<Rightarrow> spider \<times> string \<times> bool \<Rightarrow> ('d, (spider \<times> string \<times> bool) \<times> turn_end) op" where
  "crawl_turn e = (\<lambda>(sp, work, has_url).
     if has_url then crawl_page e sp work
     else case take_url sp work of
       Took sp work \<Rightarrow> crawl_page e sp work
     | None_Left \<Rightarrow> State_Monad.return ((sp, work, False), Started)
     | No_File \<Rightarrow> State_Monad.return ((sp, work, False), Exited)
     | Overflow \<Rightarrow> State_Monad.return ((sp, work, False), Crashed))"

section \<open>The parser\<close>

definition parse_job :: "('d, 'a) env \<Rightarrow> spider \<Rightarrow> string \<Rightarrow> string \<Rightarrow> string \<Rightarrow> ('d, (spider \<times> string) \<times> turn_end) op" where
  "parse_job e sp work url html = do {
     found \<leftarrow> page_links e url html;
     State_Monad.return (case found of
       Links_Fail t \<Rightarrow> ((sp, work), t)
     | Links us \<Rightarrow>
         if us = [] then ((sp, work), Started)
         else (case publish us sp of (sp, t) \<Rightarrow> ((sp, work), t))) }"

text \<open>A page from the queue.\<close>

definition parse_queued :: "('d, 'a) env \<Rightarrow> spider \<Rightarrow> string \<Rightarrow> ('d, (spider \<times> string) \<times> turn_end) op" where
  "parse_queued e sp work =
     (case read_html_cell (ring_front (html_queue (shm sp))) work of
        (work, html) \<Rightarrow>
          let sp = sp\<lparr>shm := (shm sp)\<lparr>html_queue := ring_advance (html_queue (shm sp))\<rparr>\<rparr> in
          case work_string work of
            None \<Rightarrow> State_Monad.return ((sp, work), Crashed)
          | Some url \<Rightarrow> parse_job e sp work url html)"

text \<open>Without one the parser crawls itself.\<close>

definition parse_url_page :: "('d, 'a) env \<Rightarrow> spider \<Rightarrow> string \<Rightarrow> ('d, (spider \<times> string) \<times> turn_end) op" where
  "parse_url_page e sp work =
     (case work_string work of
        None \<Rightarrow> State_Monad.return ((sp, work), Crashed)
      | Some url \<Rightarrow> do {
          skip \<leftarrow> skip_url e url;
          if skip then State_Monad.return ((sp, work), Started)
          else do {
            page \<leftarrow> fetch_page e url;
            case page of
              Fetch_Undefined \<Rightarrow> State_Monad.return ((sp, work), Crashed)
            | No_Page \<Rightarrow> State_Monad.return ((sp, work), Started)
            | Page html \<Rightarrow> parse_job e sp work url html } })"

definition parse_turn :: "('d, 'a) env \<Rightarrow> spider \<times> string \<Rightarrow> ('d, (spider \<times> string) \<times> turn_end) op" where
  "parse_turn e = (\<lambda>(sp, work).
     if \<not> ring_empty (html_queue (shm sp)) then parse_queued e sp work
     else case take_url sp work of
       Took sp work \<Rightarrow> parse_url_page e sp work
     | None_Left \<Rightarrow> State_Monad.return ((sp, work), Started)
     | No_File \<Rightarrow> State_Monad.return ((sp, work), Exited)
     | Overflow \<Rightarrow> State_Monad.return ((sp, work), Crashed))"

section \<open>The master\<close>

text \<open>The command line; \<open>argv[6]\<close> is a null pointer when there are six arguments.\<close>

datatype started = Usage | Null_String | Paths string "string option" string string string

definition master_args :: "string list \<Rightarrow> started" where
  "master_args argv =
     (if length argv \<noteq> 6 \<and> length argv \<noteq> 7 then Usage
      else if length argv \<le> 6 then Null_String
      else Paths (argv ! 1) (Some (argv ! 2)) (argv ! 3) (argv ! 4) (argv ! 5))"

text \<open>The start addresses; \<open>None\<close> is an address that \<open>format_url\<close> leaves.\<close>

fun load_start_urls :: "('d, 'a) env \<Rightarrow> string list \<Rightarrow> ring \<Rightarrow> ('d, ring option) op" where
  "load_start_urls e [] r = State_Monad.return (Some r)"
| "load_start_urls e (line # lines) r =
     (if ring_full r then State_Monad.return (Some r)
      else case format_url line of
        None \<Rightarrow> State_Monad.return None
      | Some u \<Rightarrow>
          if u = [] then load_start_urls e lines r
          else do {
            known \<leftarrow> if_exist (env_db e) ''url'' ''amigao.visited_url'' ''url'' (crypt u);
            skip \<leftarrow> (if known then State_Monad.return True
              else do { n \<leftarrow> get_website_nice (env_junk e) (env_db e) u; State_Monad.return (n = 0) });
            load_start_urls e lines (if skip then r else ring_store (write_url_cell u) r) })"

definition master_exit :: "spider \<Rightarrow> spider option" where
  "master_exit sp =
     (case write_file sp of
        None \<Rightarrow> Some sp
      | Some text \<Rightarrow>
          map_option (\<lambda>(r, urls). sp\<lparr>shm := (shm sp)\<lparr>url_queue := r\<rparr>,
              write_file := Some (text @ concat (map (\<lambda>u. u @ [NL]) urls))\<rparr>)
            (drain_urls (url_queue (shm sp)) []))"

section \<open>Receiving\<close>

definition zero_buf :: "nat \<Rightarrow> string" where
  "zero_buf n = replicate n NUL"

lemma recv_grow:
  assumes "length prev \<le> length chunk" "length chunk < n" "NUL \<notin> set chunk" "length (raw @ chunk) \<le> HTML_SIZE"
  shows "recv_loop (prev @ zero_buf (n - length prev)) raw (chunk # chunks) ok =
    recv_loop (chunk @ zero_buf (n - length chunk)) (raw @ chunk) chunks ok"
proof -
  have "drop (length chunk) (prev @ zero_buf (n - length prev)) = zero_buf (n - length chunk)"
    using assms by (simp add: zero_buf_def)
  moreover obtain m where "n - length chunk = Suc m" using assms(2) by (metis Suc_diff_Suc)
  ultimately show ?thesis
    using assms(3,4) by (simp add: Let_def c_str_append_NUL c_str_id zero_buf_def)
qed

lemma recv_sorted:
  "sorted (map length (prev # chunks)) \<Longrightarrow> \<forall>c \<in> set chunks. NUL \<notin> set c \<and> length c < n \<Longrightarrow>
     length (raw @ concat chunks) \<le> HTML_SIZE \<Longrightarrow>
     recv_loop (prev @ zero_buf (n - length prev)) raw chunks True = Received (raw @ concat chunks)"
proof (induction chunks arbitrary: prev raw)
  case (Cons c chunks)
  have "recv_loop (prev @ zero_buf (n - length prev)) raw (c # chunks) True =
      recv_loop (c @ zero_buf (n - length c)) (raw @ c) chunks True"
    using Cons.prems by (intro recv_grow) simp_all
  also have "\<dots> = Received ((raw @ c) @ concat chunks)"
    using Cons.prems by (intro Cons.IH) simp_all
  finally show ?case by simp
qed simp

text \<open>
  Into a buffer that happens to be zero, a response is received as it was sent when no chunk fills the
  buffer, none holds a NUL, and each is at least as long as the one before.
\<close>

theorem recv_loop_receives:
  assumes "sorted (map length chunks)" "\<forall>c \<in> set chunks. NUL \<notin> set c \<and> length c < n" "length (concat chunks) \<le> HTML_SIZE"
  shows "recv_loop (zero_buf n) [] chunks True = Received (concat chunks)"
  using recv_sorted[of "[]" chunks n "[]"] assms by simp

theorem recv_loop_receives_witness:
  "recv_loop (zero_buf 1024) [] [''HTTP/1.1 200 OK'', ''Content-Type: text/html''] True =
     Received (''HTTP/1.1 200 OK'' @ ''Content-Type: text/html'')"
  using recv_loop_receives[of "[''HTTP/1.1 200 OK'', ''Content-Type: text/html'']" 1024] by (simp add: HTML_SIZE_def)

text \<open>
  A chunk shorter than the one before it is followed by the end of the older one, which the page then
  holds twice; and a chunk that fills the buffer is read past its end.
\<close>

theorem recv_loop_repeats:
  assumes "length c2 < length c1" "length c1 < n" "NUL \<notin> set c1" "NUL \<notin> set c2" "2 * length c1 + length c2 \<le> HTML_SIZE"
    "length full = n" "NUL \<notin> set full"
  shows "recv_loop (zero_buf n) [] [c1, c2] True = Received (c1 @ c2 @ drop (length c2) c1) \<and>
    c1 @ c2 @ drop (length c2) c1 \<noteq> c1 @ c2 \<and>
    recv_loop (zero_buf n) [] (full # chunks) ok = Overrun"
proof -
  have 1: "recv_loop (zero_buf n) [] [c1, c2] True = recv_loop (c1 @ zero_buf (n - length c1)) c1 [c2] True"
    using recv_grow[of "[]" c1 n "[]" "[c2]" True] assms by simp
  have 2: "c2 @ drop (length c2) (c1 @ zero_buf (n - length c1)) =
      (c2 @ drop (length c2) c1) @ zero_buf (n - length c1)"
    using assms(1) by simp
  obtain m where m: "n - length c1 = Suc m" using assms(2) by (metis Suc_diff_Suc)
  have "NUL \<notin> set (c2 @ drop (length c2) c1)" using assms(3,4) by (auto dest: in_set_dropD)
  then have "recv_loop (c1 @ zero_buf (n - length c1)) c1 [c2] True = Received (c1 @ c2 @ drop (length c2) c1)"
    unfolding recv_loop.simps Let_def 2 using assms(1,5) m
      c_str_append_NUL[of "c2 @ drop (length c2) c1" "replicate m NUL"]
    by (simp add: zero_buf_def c_str_id)
  moreover have "drop (length c2) c1 \<noteq> []" using assms(1) by simp
  ultimately show ?thesis
    using 1 assms(6,7) by (simp add: zero_buf_def)
qed

theorem recv_loop_repeats_witness:
  "recv_loop (zero_buf 6) [] [''<b>xy'', ''</b''] True = Received (''<b>xy'' @ ''</b'' @ ''xy'') \<and>
   recv_loop (zero_buf 6) [] [''abcdef''] True = Overrun"
  using recv_loop_repeats[of "''</b''" "''<b>xy''" 6 "''abcdef''" "[]" True] by (simp add: HTML_SIZE_def)

section \<open>The response\<close>

text \<open>A response as servers write it.\<close>

definition header_lines :: "string list \<Rightarrow> string" where
  "header_lines hs = concat (map (\<lambda>h. CRLF @ h) hs)"

definition response_head :: "string \<Rightarrow> string \<Rightarrow> string list \<Rightarrow> string" where
  "response_head status reason hs = ''HTTP/1.1 '' @ status @ '' '' @ reason @ header_lines hs"

lemma find_end_skip:
  assumes "s \<noteq> []" "hd s \<noteq> CR"
  shows "str_find (CRLF @ CRLF) (CR # NL # s) = map_option ((+) 2) (str_find (CRLF @ CRLF) s)"
proof -
  have "\<not> is_prefix (CRLF @ CRLF) (CR # NL # s)" "\<not> is_prefix (CRLF @ CRLF) (NL # s)"
    using assms by (cases s; simp add: CRLF_def)+
  then show ?thesis
    by (simp only: str_find.simps(2)[of _ CR] str_find.simps(2)[of _ NL] if_False option.map_comp)
      (cases "str_find (CRLF @ CRLF) s"; simp)
qed

lemma find_end_lines:
  assumes "CR \<notin> set line" "\<forall>h \<in> set hs. h \<noteq> [] \<and> CR \<notin> set h"
  shows "str_find (CRLF @ CRLF) (line @ header_lines hs @ CRLF @ CRLF @ page) = Some (length (line @ header_lines hs))"
  using assms
proof (induction hs arbitrary: line)
  case Nil
  then show ?case
    using str_find_skip[of CR line "NL # CRLF" "CRLF @ CRLF @ page"]
    by (simp add: header_lines_def CRLF_def is_prefix_iff)
next
  case (Cons h hs)
  obtain c h' where h: "h = c # h'" "c \<noteq> CR" using Cons.prems(2) by (cases h) auto
  let ?rest = "header_lines hs @ CRLF @ CRLF @ page"
  have "str_find (CRLF @ CRLF) (line @ header_lines (h # hs) @ CRLF @ CRLF @ page) =
      map_option ((+) (length line)) (str_find (CRLF @ CRLF) (CR # NL # h @ ?rest))"
    using str_find_skip[of CR line "NL # CRLF"] Cons.prems(1) by (simp add: header_lines_def CRLF_def)
  also have "str_find (CRLF @ CRLF) (CR # NL # h @ ?rest) = map_option ((+) 2) (str_find (CRLF @ CRLF) (h @ ?rest))"
    using h by (intro find_end_skip) simp_all
  also have "str_find (CRLF @ CRLF) (h @ ?rest) = Some (length (h @ header_lines hs))"
    using Cons.prems by (intro Cons.IH) simp_all
  finally show ?case by (simp add: header_lines_def CRLF_def)
qed

text \<open>
  C39. From a response with a status line and headers, of which none is empty or has a carriage return in
  it, the page is taken exactly when the status begins with 2 and there is one; it is then everything after
  the empty line, byte for byte.
\<close>

theorem parse_response_takes_page:
  assumes "status \<noteq> []" "\<forall>c \<in> set status. \<not> word_end c" "CR \<notin> set reason" "\<forall>h \<in> set hs. h \<noteq> [] \<and> CR \<notin> set h"
  shows "parse_response (response_head status reason hs @ CRLF @ CRLF @ html) =
    (if hd status = CHR ''2'' \<and> html \<noteq> [] then Some html else None)"
proof -
  let ?head = "response_head status reason hs" and ?raw = "response_head status reason hs @ CRLF @ CRLF @ html"
  have line: "CR \<notin> set (''HTTP/1.1 '' @ status @ '' '' @ reason)"
    using assms(2,3) by (auto simp: word_end_def)
  have find: "str_find (CRLF @ CRLF) ?raw = Some (length ?head)"
    using find_end_lines[OF line assms(4)] by (simp add: response_head_def)
  let ?tail = "map lower_char (reason @ header_lines hs)"
  have low: "map lower_char ?head = ''http/1.1 '' @ map lower_char status @ '' '' @ ?tail"
  proof -
    have "map lower_char ''HTTP/1.1 '' = ''http/1.1 ''" "map lower_char '' '' = '' ''" by code_simp+
    then show ?thesis by (simp add: response_head_def)
  qed
  have lcode: "code (lower_char c) = (if 65 \<le> code c \<and> code c \<le> 90 then code c + 32 else code c)" for c
    by (simp add: lower_char_def char_between_code codes)
  have "word_end c \<longleftrightarrow> code c = 32 \<or> code c = 9 \<or> code c = 13" for c
    by (auto simp: word_end_def codes simp flip: code_inj)
  then have lc: "word_end (lower_char c) \<longleftrightarrow> word_end c" for c
    by (auto simp: lcode)
  have status: "\<forall>c \<in> set (map lower_char status). \<not> word_end c" "map lower_char status \<noteq> []"
    using assms(1,2) by (auto simp: lc)
  have two: "lower_char c = CHR ''2'' \<longleftrightarrow> c = CHR ''2''" for c
  proof -
    have "c = CHR ''2'' \<longleftrightarrow> code c = 50" for c by (simp add: code_def flip: code_inj)
    then show ?thesis by (auto simp: lcode)
  qed
  have j1: "scan_while (\<lambda>c. \<not> word_end c) (map lower_char ?head) 0 = 8"
    using scan_while_append[of "''http/1.1''" "\<lambda>c. \<not> word_end c" "'' '' @ map lower_char status @ '' '' @ ?tail" 0 "[]"]
    by (simp add: low word_end_def)
  have "hd (map lower_char status @ '' '' @ ?tail) \<in> set (map lower_char status)"
    using status(2) hd_in_set[OF status(2)] by (simp only: hd_append2 [OF status(2)])
  then have "\<not> (hd (map lower_char status @ '' '' @ ?tail) = CHR '' '' \<or> hd (map lower_char status @ '' '' @ ?tail) = TAB)"
    using status(1) unfolding word_end_def by blast
  then have j2: "scan_while (\<lambda>c. c = CHR '' '' \<or> c = TAB) (map lower_char ?head) 8 = 9"
    using scan_while_append[of "'' ''" "\<lambda>c. c = CHR '' '' \<or> c = TAB" "map lower_char status @ '' '' @ ?tail" 8 "''http/1.1''"]
    unfolding low by simp
  have k: "scan_while (\<lambda>c. \<not> word_end c) (map lower_char ?head) 9 = 9 + length status"
    using scan_while_append[of "map lower_char status" "\<lambda>c. \<not> word_end c" "'' '' @ ?tail" 9 "''http/1.1 ''"] status
    by (simp add: low word_end_def)
  have sub: "substr (map lower_char ?head) 9 (length status) = map lower_char status"
    unfolding low by (simp add: substr_def)
  have len: "length ?head = length (map lower_char ?head)" "9 < length ?head"
    using assms(1) by (simp_all add: response_head_def)
  have h: "substr ?raw 0 (length ?head) = ?head"
    by (simp add: substr_append_left)
  have html: "substr ?raw (length ?head + 4) (length ?raw) = html"
    by (simp add: substr_def CRLF_def)
  have find2: "str_find ''http/'' (map lower_char ?head) = Some 0"
    by (simp add: low is_prefix_iff)
  have short: "length ?raw \<le> length ?head + 4 \<longleftrightarrow> html = []"
    by (simp add: CRLF_def)
  have ne: "length ?head \<noteq> 0" using len(2) by linarith
  have st: "hd (map lower_char status) = CHR ''2'' \<longleftrightarrow> hd status = CHR ''2''"
    using assms(1) by (simp add: hd_map two)
  show ?thesis
    unfolding parse_response_def find option.case Let_def h find2 length_map j1 j2 k html short
    using ne len(2) status(2) sub st by simp
qed

theorem parse_response_takes_page_witness:
  "parse_response (response_head ''200'' ''OK'' [''Server: x'', ''Content-Type: text/html''] @ CRLF @ CRLF @ ''<p>'') = Some ''<p>''"
  using parse_response_takes_page[of "''200''" "''OK''" "[''Server: x'', ''Content-Type: text/html'']" "''<p>''"]
  by (simp add: word_end_def)

section \<open>Failed downloads\<close>

definition nice_queries :: "string \<Rightarrow> string \<Rightarrow> string set" where
  "nice_queries url nice =
     {''update amigao.website_nice set nice='' @ sq (crypt nice) @ '' where url='' @ sq (crypt url),
      ''insert into amigao.website_nice (url,nice) values ('' @ sq (crypt url) @ '','' @ sq (crypt nice) @ '')''}"

lemma op_website_nice_sends:
  assumes "\<not> url_bad url"
  shows "\<exists>q \<in> nice_queries url nice. sent (snd (run_state (op_website_nice db url nice) s)) =
    sent s @ [exist_query ''url'' ''website_nice'' ''url'' (crypt url), q]"
proof -
  obtain r d where 1: "db (server s) (exist_query ''url'' ''website_nice'' ''url'' (crypt url)) = (r, d)" by force
  have fin: "sent (snd (case run_state (real_query db q) \<sigma> of (a, x) \<Rightarrow> run_state recycle_db x)) = sent \<sigma> @ [q]" for q \<sigma>
    by (simp add: real_query_def recycle_db_def split: prod.split)
  show ?thesis
    using assms 1 by (cases "has_rows r")
      (simp_all add: op_website_nice_def run_if_exist get_db_def fin nice_queries_def)
qed

text \<open>
  A download that fails, whatever the reason, ends with the query that rates its address 0, which is
  what the workers skip from then on; one that does not fail sends nothing.
\<close>

theorem fetch_page_rates_failures:
  assumes "\<not> url_bad url" "run_state (fetch_page e url) s = (r, s')"
  shows "(r = No_Page \<longrightarrow> (\<exists>q \<in> nice_queries url ''0''.
      sent s' = sent s @ [exist_query ''url'' ''website_nice'' ''url'' (crypt url), q])) \<and>
    (r \<noteq> No_Page \<longrightarrow> s' = s)"
proof -
  have u: "run_state (give_up e url) s = (No_Page, snd (run_state (op_website_nice (env_db e) url ''0'') s))"
    by (simp add: give_up_def case_prod_unfold)
  have "fetch_page e url = give_up e url \<or> (\<exists>x. x \<noteq> No_Page \<and> fetch_page e url = State_Monad.return x)"
    by (auto simp: fetch_page_def split: option.split prod.split answer.split received.split)
  then consider "fetch_page e url = give_up e url" | x where "x \<noteq> No_Page" "fetch_page e url = State_Monad.return x"
    by blast
  then show ?thesis
  proof cases
    case 1
    then show ?thesis using assms u op_website_nice_sends[OF assms(1), of "''0''" "env_db e" s] by auto
  next
    case (2 x)
    then show ?thesis using assms by auto
  qed
qed

definition plain_env :: "answer \<Rightarrow> (unit, string) env" where
  "plain_env a = \<lparr>env_db = (\<lambda>d q. (Rows [], d)), env_max_insert = 1000, env_max_urls = 800, env_junk = 0, env_fuel = 2,
     env_net = (\<lambda>host req. a), env_buf = zero_buf 1024, env_utf8 = (\<lambda>s. s), env_gumbo = Node_Text,
     env_attr = (\<lambda>a n. None), env_order = (\<lambda>_. []), env_cut = (\<lambda>_. [])\<rparr>"

theorem fetch_page_rates_failures_witness:
  "\<exists>q \<in> nice_queries ''a.b'' ''0''.
     sent (snd (run_state (fetch_page (plain_env No_Host) ''a.b'') \<lparr>server = (), taken = 0, peak = 0, sent = []\<rparr>)) =
       [exist_query ''url'' ''website_nice'' ''url'' (crypt ''a.b''), q]"
proof -
  let ?s = "\<lparr>server = (), taken = 0, peak = 0, sent = []\<rparr>"
  obtain r s' where r: "run_state (fetch_page (plain_env No_Host) ''a.b'') ?s = (r, s')" by fastforce
  have b: "\<not> url_bad ''a.b''" by (simp add: url_bad_def URL_SIZE_def)
  have "parse_url ''a.b'' = Some (''a.b'', ''/'')" by code_simp
  then have "r = No_Page"
    using r by (simp add: fetch_page_def plain_env_def give_up_def case_prod_unfold)
  then show ?thesis
    using fetch_page_rates_failures[OF b r] r by simp
qed

section \<open>Publishing links\<close>

definition plain_link :: "string \<Rightarrow> bool" where
  "plain_link u \<longleftrightarrow> NUL \<notin> set u \<and> length u \<le> URL_SIZE"

lemma plain_link_seen: "plain_link u \<Longrightarrow> url_seen u = u \<and> c_str (u @ [NL]) = u @ [NL]"
  by (simp add: plain_link_def url_seen_def c_str_id)

text \<open>
  The links of a page go to the queue in order until it is full and then, one to a line, to the end of
  the file: none is lost, doubled or changed, and the file is only used when the queue has no room.
\<close>

theorem publish_keeps_links:
  assumes "ring_ok URL_SIZE (url_queue (shm sp))" "\<forall>u \<in> set links. plain_link u" "write_file sp = Some text"
  shows "\<exists>now later sp'. publish links sp = (sp', Started) \<and> now @ later = links \<and>
    url_contents (url_queue (shm sp')) = url_contents (url_queue (shm sp)) @ now \<and>
    write_file sp' = Some (text @ concat (map (\<lambda>u. u @ [NL]) later)) \<and> (later \<noteq> [] \<longrightarrow> ring_full (url_queue (shm sp')))"
proof -
  let ?r = "url_queue (shm sp)"
  define k where "k = min (ring_capacity ?r - length (url_contents ?r)) (length links)"
  obtain r rest where i: "insert_links links ?r = (r, rest)" by fastforce
  note q = insert_links_queue[OF assms(1), of links, folded k_def, unfolded i fst_conv snd_conv]
  have seen: "map url_seen (take k links) = take k links"
    using assms(2) by (intro map_idI) (auto dest: in_set_takeD simp: plain_link_seen)
  have lines: "map (\<lambda>u. c_str (u @ [NL])) (drop k links) = map (\<lambda>u. u @ [NL]) (drop k links)"
    using assms(2) by (intro map_cong refl) (auto dest: in_set_dropD simp: plain_link_seen)
  have full: "ring_full r" if "drop k links \<noteq> []"
  proof -
    have "k = ring_capacity ?r - length (url_contents ?r)" using that by (auto simp: k_def)
    then have "length (url_contents r) = ring_capacity r"
      using q(3,4) url.contents_capacity[OF assms(1)] that by (auto simp: k_def)
    then show ?thesis using url.full_contents[OF q(2)] by simp
  qed
  have "take k links @ drop k links = links" by simp
  then show ?thesis
    using i q seen full assms(3)
    by (cases "rest = []") (auto simp: lines publish_def Let_def intro!: exI[of _ "take k links"] exI[of _ "drop k links"])
qed

definition start_spider :: spider where
  "start_spider = \<lparr>shm = new_shmctrl, read_file = Some [], write_file = Some ''''\<rparr>"

lemma new_urls [simp]: "ring_ok URL_SIZE (url_queue new_shmctrl)" "url_contents (url_queue new_shmctrl) = []"
  by (simp_all add: new_shmctrl_def URL_NUMS_def)

theorem publish_keeps_links_witness:
  "\<exists>now later sp'. publish [''a.com'', ''b.org''] start_spider = (sp', Started) \<and> now @ later = [''a.com'', ''b.org'']"
proof -
  have "\<forall>u \<in> set [''a.com'', ''b.org'']. plain_link u" by (simp add: plain_link_def URL_SIZE_def)
  then show ?thesis
    using publish_keeps_links[of start_spider "[''a.com'', ''b.org'']" "''''"]
    by (simp add: start_spider_def) blast
qed

section \<open>The loops\<close>

text \<open>The endless loop, for a number of turns; every turn has its own environment.\<close>

fun crawl_worker ::
    "nat \<Rightarrow> (nat \<Rightarrow> ('d, 'a) env) \<Rightarrow> spider \<times> string \<times> bool \<Rightarrow> ('d, (spider \<times> string \<times> bool) \<times> turn_end) op" where
  "crawl_worker 0 e st = State_Monad.return (st, Started)"
| "crawl_worker (Suc n) e st = do {
     (st, t) \<leftarrow> crawl_turn (e n) st;
     if t = Started then crawl_worker n e st else State_Monad.return (st, t) }"

fun parse_worker ::
    "nat \<Rightarrow> (nat \<Rightarrow> ('d, 'a) env) \<Rightarrow> spider \<times> string \<Rightarrow> ('d, (spider \<times> string) \<times> turn_end) op" where
  "parse_worker 0 e st = State_Monad.return (st, Started)"
| "parse_worker (Suc n) e st = do {
     (st, t) \<leftarrow> parse_turn (e n) st;
     if t = Started then parse_worker n e st else State_Monad.return (st, t) }"

text \<open>
  An empty first line in the file of addresses stops the spider: with both queues empty, neither kind
  of worker ever takes another line, sends a query or changes anything, however many turns it makes and
  whatever the lines after it hold.
\<close>

theorem empty_line_starves:
  assumes "ring_empty (url_queue (shm sp))" "ring_empty (html_queue (shm sp))" "read_file sp = Some ([] # lines)"
  shows "run_state (crawl_worker n e (sp, work, False)) s = (((sp, work, False), Started), s) \<and>
    run_state (parse_worker n f (sp, work')) s = (((sp, work'), Started), s)"
proof -
  have t: "take_url sp w = None_Left" for w
    using assms by (simp add: take_url_def)
  show ?thesis
    by (induction n) (use assms t in \<open>simp_all add: crawl_turn_def parse_turn_def\<close>)
qed

theorem empty_line_starves_witness:
  "\<forall>s. run_state (crawl_worker 1000 (\<lambda>_. plain_env No_Host) (start_spider\<lparr>read_file := Some ['''', ''a.com'']\<rparr>, [], False)) s =
    (((start_spider\<lparr>read_file := Some ['''', ''a.com'']\<rparr>, [], False), Started), s)"
proof -
  let ?sp = "start_spider\<lparr>read_file := Some ['''', ''a.com'']\<rparr>"
  have "ring_empty (url_queue (shm ?sp))" "ring_empty (html_queue (shm ?sp))" "read_file ?sp = Some ([] # [''a.com''])"
    by (simp_all add: start_spider_def new_shmctrl_def zero_ring_def ring_empty_def)
  from empty_line_starves[OF this, of 1000 "\<lambda>_. plain_env No_Host" "[]"] show ?thesis by blast
qed

text \<open>
  A link of exactly \<open>URL_SIZE\<close> characters, which the page walk accepts, crashes the worker that takes
  it: it fills \<open>work_url\<close>, whose end is then read over.
\<close>

theorem full_length_link_crashes:
  assumes "ring_ok URL_SIZE (url_queue (shm sp))" "ring_empty (url_queue (shm sp))" "write_file sp = Some text"
    and "length u = URL_SIZE" "NUL \<notin> set u" "length work = URL_SIZE"
  shows "\<exists>sp' st. publish [u] sp = (sp', Started) \<and>
    run_state (crawl_turn e (sp', work, False)) s = ((st, Crashed), s)"
proof -
  let ?r = "url_queue (shm sp)"
  obtain now later sp' where p: "publish [u] sp = (sp', Started)" "now @ later = [u]"
    "url_contents (url_queue (shm sp')) = url_contents ?r @ now" "later \<noteq> [] \<longrightarrow> ring_full (url_queue (shm sp'))"
    using publish_keeps_links[OF assms(1) _ assms(3), of "[u]"] assms(4,5) by (auto simp: plain_link_def)
  obtain r rest where i: "insert_links [u] ?r = (r, rest)" by fastforce
  have r: "url_queue (shm sp') = r" using p(1) i assms(3) by (auto simp: publish_def Let_def split: if_splits)
  note q = insert_links_queue[OF assms(1), of "[u]", unfolded i fst_conv snd_conv]
  have e: "url_contents ?r = []" using url.empty_contents[OF assms(1)] assms(2) by simp
  have cap: "1 \<le> ring_capacity ?r" using assms(1) unfolding ring_capacity_def ring_ok_def by linarith
  have one: "url_contents r = [url_seen u]" using q(3) e cap by (simp add: min_def split: if_splits)
  then have ne: "\<not> ring_empty r" using url.empty_contents[OF q(2)] by auto
  have "read_chars 0 URL_SIZE (ring_front r) = url_seen u"
    using url.advance_contents[OF q(2) ne] one by simp
  then have rd: "read_chars 0 URL_SIZE (ring_front r) = u"
    using assms(4,5) by (simp add: url_seen_def c_str_id)
  have "load_work (ring_front r) work = u"
    using assms(4,6) by (simp add: load_work_def rd end_str_def copy_chars_take_drop)
  then have "work_string (load_work (ring_front r) work) = None"
    using assms(5) by (simp add: work_string_def)
  then show ?thesis
    using p(1) ne r by (auto simp: crawl_turn_def take_url_def crawl_page_def)
qed

theorem full_length_link_crashes_witness:
  "\<exists>sp' st. publish [replicate URL_SIZE CHR ''a''] start_spider = (sp', Started) \<and>
    run_state (crawl_turn (plain_env No_Host) (sp', zero_buf URL_SIZE, False)) s = ((st, Crashed), s)"
  by (rule full_length_link_crashes) (simp_all add: start_spider_def zero_buf_def ring_empty_def new_shmctrl_def zero_ring_def
    URL_NUMS_def ring_ok_def)

section \<open>Start addresses\<close>

text \<open>
  The master loads start addresses in the order of the file, each in its normal form, none of them
  empty, and never more than fit; the queue stays well formed.
\<close>

theorem load_start_urls_queue:
  assumes "ring_ok URL_SIZE r" "run_state (load_start_urls e lines r) s = (Some r', s')"
  shows "ring_ok URL_SIZE r' \<and> (\<exists>us. url_contents r' = url_contents r @ map url_seen us \<and>
    subseq us (map (\<lambda>l. the (format_url l)) lines) \<and> [] \<notin> set us)"
  using assms
proof (induction e lines r arbitrary: s rule: load_start_urls.induct)
  case (2 e line lines r)
  show ?case
  proof (cases "ring_full r \<or> format_url line = None")
    case True
    then show ?thesis using 2(3,4) by (auto split: if_splits option.splits intro!: exI[of _ "[]"])
  next
    case False
    then obtain u where u: "\<not> ring_full r" "format_url line = Some u" by auto
    show ?thesis
    proof (cases "u = []")
      case True
      then show ?thesis using 2(1)[OF u(1) u(2) True 2(3), of s] 2(4) u by (auto intro: subseq_Cons')
    next
      case ne: False
      define r1 where "r1 skip = (if skip then r else ring_store (write_url_cell u) r)" for skip
      obtain skip s1 where rest: "run_state (load_start_urls e lines (r1 skip)) s1 = (Some r', s')"
        using 2(4) u ne by (auto simp: r1_def case_prod_unfold)
      have ok: "ring_ok URL_SIZE (r1 skip)"
        using 2(3) url.put_good by (simp add: r1_def)
      obtain us where us: "ring_ok URL_SIZE r'" "url_contents r' = url_contents (r1 skip) @ map url_seen us"
        "subseq us (map (\<lambda>l. the (format_url l)) lines)" "[] \<notin> set us"
        using 2(2)[OF u(1) u(2) ne, of skip s1] ok rest by (auto simp: r1_def)
      show ?thesis
      proof (cases skip)
        case True
        then show ?thesis using us u by (auto simp: r1_def intro: subseq_Cons')
      next
        case False
        then have "url_contents r' = url_contents r @ map url_seen (u # us)"
          using us url.put_contents[OF 2(3) u(1)] by (simp add: r1_def)
        then show ?thesis using us u ne by (intro conjI exI[of _ "u # us"]) simp_all
      qed
    qed
  qed
qed (auto intro!: exI[of _ "[]"])

theorem load_start_urls_queue_witness:
  "\<exists>r' s'. run_state (load_start_urls (plain_env No_Host) ['''', ''a.com''] (url_queue new_shmctrl))
      \<lparr>server = (), taken = 0, peak = 0, sent = []\<rparr> = (Some r', s') \<and> ring_ok URL_SIZE r'"
proof -
  let ?s = "\<lparr>server = (), taken = 0, peak = 0, sent = []\<rparr>"
  have f: "format_url '''' = Some ''''" "format_url ''a.com'' = Some ''a.com''"
    by (simp add: format_url_def) code_simp
  have n: "\<not> ring_full (url_queue new_shmctrl)"
    by (simp add: new_shmctrl_def zero_ring_def ring_full_def URL_NUMS_def)
  obtain r' s' where r: "run_state (load_start_urls (plain_env No_Host) ['''', ''a.com''] (url_queue new_shmctrl)) ?s = (Some r', s')"
    by (simp add: n f case_prod_unfold split: if_split)
  show ?thesis
    using load_start_urls_queue[OF new_urls(1) r] r by blast
qed

end
