(* ===== verification/SpiderThreads.thy ===== *)
theory SpiderThreads
  imports Spider
begin

text \<open>
  Any number of crawl and parse workers at once (\<open>src/spider/crawl_worker.cc\<close>, \<open>parse_worker.cc\<close>).  The
  processes share the two queues and the two files.  What a worker does while it has \<open>url_lock\<close> or \<open>html_lock\<close>
  always ends with the release of the mutex and is one step; \<open>url_lists_lock\<close> is kept in the state, because a
  worker can end while it has it.  What the database, the network and the parser answer is that of some
  environment of a given set, in some state of the server, so that the work of other processes on the server
  between two queries is covered.
\<close>

section \<open>Workers\<close>

datatype role = Crawler | Parser

datatype place =
    At_Start                  \<comment> \<open>the label \<open>start\<close>\<close>
  | At_Url                    \<comment> \<open>about to lock \<open>url_lock\<close> for an address\<close>
  | At_List                   \<comment> \<open>the queue was empty: about to lock \<open>url_lists_lock\<close>\<close>
  | In_List                   \<comment> \<open>has \<open>url_lists_lock\<close>\<close>
  | At_Work                   \<comment> \<open>the label \<open>has_url\<close>\<close>
  | At_Page string            \<comment> \<open>crawler with a page: about to lock \<open>html_lock\<close>\<close>
  | At_Job string             \<comment> \<open>with a page to parse\<close>
  | At_Links "string list"    \<comment> \<open>about to lock \<open>url_lock\<close> for the links\<close>
  | At_File string            \<comment> \<open>with text for \<open>write_url\<close>\<close>
  | Gone turn_end             \<comment> \<open>the process has ended\<close>

record worker =
  role_of :: role
  place_of :: place
  work_url :: string
  has_url :: bool

record farm =
  world :: spider
  list_lock :: "nat option"
  crew :: "worker list"

text \<open>What happened to the queues and files in a step.\<close>

datatype happening =
    Url_Put "string list"
  | Url_Got string
  | Page_Put "string \<times> string"
  | Page_Got "string \<times> string"
  | Line_Got string
  | Text_Put string
  | Quiet

definition set_worker :: "nat \<Rightarrow> worker \<Rightarrow> farm \<Rightarrow> farm" where
  "set_worker i w \<sigma> = \<sigma>\<lparr>crew := (crew \<sigma>)[i := w]\<rparr>"

definition set_urls :: "ring \<Rightarrow> farm \<Rightarrow> farm" where
  "set_urls r \<sigma> = \<sigma>\<lparr>world := (world \<sigma>)\<lparr>shm := (shm (world \<sigma>))\<lparr>url_queue := r\<rparr>\<rparr>\<rparr>"

definition set_pages :: "ring \<Rightarrow> farm \<Rightarrow> farm" where
  "set_pages r \<sigma> = \<sigma>\<lparr>world := (world \<sigma>)\<lparr>shm := (shm (world \<sigma>))\<lparr>html_queue := r\<rparr>\<rparr>\<rparr>"

abbreviation urls_of :: "farm \<Rightarrow> ring" where "urls_of \<sigma> \<equiv> url_queue (shm (world \<sigma>))"
abbreviation pages_of :: "farm \<Rightarrow> ring" where "pages_of \<sigma> \<equiv> html_queue (shm (world \<sigma>))"

text \<open>From the label \<open>has_url\<close> to the page: the questions to the database and the download.\<close>

definition look_at :: "('d, 'a) env \<Rightarrow> string \<Rightarrow> ('d, fetched) op" where
  "look_at e url = do {
     skip \<leftarrow> skip_url e url;
     if skip then State_Monad.return No_Page else fetch_page e url }"

fun after_look :: "role \<Rightarrow> fetched \<Rightarrow> place" where
  "after_look c Fetch_Undefined = Gone Crashed"
| "after_look c No_Page = At_Start"
| "after_look Crawler (Page html) = At_Page html"
| "after_look Parser (Page html) = At_Job html"

fun after_job :: "worker \<Rightarrow> links_found \<Rightarrow> worker" where
  "after_job w (Links_Fail t) = w\<lparr>place_of := Gone t\<rparr>"
| "after_job w (Links []) = w\<lparr>place_of := At_Start\<rparr>"
| "after_job w (Links (u # us)) =
     (case role_of w of
        Crawler \<Rightarrow> w\<lparr>place_of := At_Links us, work_url := end_str (length u) URL_SIZE (copy_chars u 0 (work_url w)), has_url := True\<rparr>
      | Parser \<Rightarrow> w\<lparr>place_of := At_Links (u # us)\<rparr>)"

definition link_lines :: "string list \<Rightarrow> string" where
  "link_lines us = concat (map (\<lambda>u. c_str (u @ [NL])) us)"

definition first_line :: "string list \<Rightarrow> string" where
  "first_line lines = (case lines of [] \<Rightarrow> [] | l # _ \<Rightarrow> l)"

section \<open>Steps\<close>

inductive farm_step :: "('d, 'a) env set \<Rightarrow> farm \<Rightarrow> happening \<Rightarrow> farm \<Rightarrow> bool" for envs where
  page_got: "i < length (crew \<sigma>) \<Longrightarrow> w = crew \<sigma> ! i \<Longrightarrow> role_of w = Parser \<Longrightarrow> place_of w = At_Start \<Longrightarrow>
     \<not> ring_empty (pages_of \<sigma>) \<Longrightarrow> read_html_cell (ring_front (pages_of \<sigma>)) (work_url w) = (work, html) \<Longrightarrow>
     farm_step envs \<sigma> (Page_Got (read_chars 0 URL_SIZE (ring_front (pages_of \<sigma>)), html))
       (set_worker i (w\<lparr>place_of := At_Job html, work_url := work\<rparr>) (set_pages (ring_advance (pages_of \<sigma>)) \<sigma>))"
| no_page: "i < length (crew \<sigma>) \<Longrightarrow> w = crew \<sigma> ! i \<Longrightarrow> role_of w = Parser \<Longrightarrow> place_of w = At_Start \<Longrightarrow>
     ring_empty (pages_of \<sigma>) \<Longrightarrow> farm_step envs \<sigma> Quiet (set_worker i (w\<lparr>place_of := At_Url\<rparr>) \<sigma>)"
| crawl_start: "i < length (crew \<sigma>) \<Longrightarrow> w = crew \<sigma> ! i \<Longrightarrow> role_of w = Crawler \<Longrightarrow> place_of w = At_Start \<Longrightarrow>
     farm_step envs \<sigma> Quiet
       (set_worker i (w\<lparr>place_of := (if has_url w then At_Work else At_Url), has_url := False\<rparr>) \<sigma>)"
| url_got: "i < length (crew \<sigma>) \<Longrightarrow> w = crew \<sigma> ! i \<Longrightarrow> place_of w = At_Url \<Longrightarrow> \<not> ring_empty (urls_of \<sigma>) \<Longrightarrow>
     farm_step envs \<sigma> (Url_Got (read_chars 0 URL_SIZE (ring_front (urls_of \<sigma>))))
       (set_worker i (w\<lparr>place_of := At_Work, work_url := load_work (ring_front (urls_of \<sigma>)) (work_url w)\<rparr>)
         (set_urls (ring_advance (urls_of \<sigma>)) \<sigma>))"
| no_url: "i < length (crew \<sigma>) \<Longrightarrow> w = crew \<sigma> ! i \<Longrightarrow> place_of w = At_Url \<Longrightarrow> ring_empty (urls_of \<sigma>) \<Longrightarrow>
     farm_step envs \<sigma> Quiet (set_worker i (w\<lparr>place_of := At_List\<rparr>) \<sigma>)"
| lock_list: "i < length (crew \<sigma>) \<Longrightarrow> w = crew \<sigma> ! i \<Longrightarrow> place_of w = At_List \<Longrightarrow> list_lock \<sigma> = None \<Longrightarrow>
     farm_step envs \<sigma> Quiet ((set_worker i (w\<lparr>place_of := In_List\<rparr>) \<sigma>)\<lparr>list_lock := Some i\<rparr>)"
| no_file: "i < length (crew \<sigma>) \<Longrightarrow> w = crew \<sigma> ! i \<Longrightarrow> place_of w = In_List \<Longrightarrow> read_file (world \<sigma>) = None \<Longrightarrow>
     farm_step envs \<sigma> Quiet (set_worker i (w\<lparr>place_of := Gone Exited\<rparr>) \<sigma>)"
| no_line: "i < length (crew \<sigma>) \<Longrightarrow> w = crew \<sigma> ! i \<Longrightarrow> place_of w = In_List \<Longrightarrow> read_file (world \<sigma>) = Some lines \<Longrightarrow>
     first_line lines = [] \<Longrightarrow>
     farm_step envs \<sigma> Quiet ((set_worker i (w\<lparr>place_of := At_Start\<rparr>) \<sigma>)\<lparr>list_lock := None\<rparr>)"
| line_got: "i < length (crew \<sigma>) \<Longrightarrow> w = crew \<sigma> ! i \<Longrightarrow> place_of w = In_List \<Longrightarrow>
     read_file (world \<sigma>) = Some lines \<Longrightarrow> first_line lines \<noteq> [] \<Longrightarrow> load_line (first_line lines) (work_url w) = Some work \<Longrightarrow>
     farm_step envs \<sigma> (Line_Got (first_line lines)) ((set_worker i (w\<lparr>place_of := At_Work, work_url := work\<rparr>) \<sigma>)
       \<lparr>world := (world \<sigma>)\<lparr>read_file := Some (tl lines)\<rparr>, list_lock := None\<rparr>)"
| long_line: "i < length (crew \<sigma>) \<Longrightarrow> w = crew \<sigma> ! i \<Longrightarrow> place_of w = In_List \<Longrightarrow>
     read_file (world \<sigma>) = Some lines \<Longrightarrow> first_line lines \<noteq> [] \<Longrightarrow> load_line (first_line lines) (work_url w) = None \<Longrightarrow>
     farm_step envs \<sigma> Quiet (set_worker i (w\<lparr>place_of := Gone Crashed\<rparr>) \<sigma>)"
| looked: "i < length (crew \<sigma>) \<Longrightarrow> w = crew \<sigma> ! i \<Longrightarrow> place_of w = At_Work \<Longrightarrow> work_string (work_url w) = Some url \<Longrightarrow>
     e \<in> envs \<Longrightarrow> run_state (look_at e url) s = (r, s') \<Longrightarrow>
     farm_step envs \<sigma> Quiet (set_worker i (w\<lparr>place_of := after_look (role_of w) r\<rparr>) \<sigma>)"
| unterminated: "i < length (crew \<sigma>) \<Longrightarrow> w = crew \<sigma> ! i \<Longrightarrow> place_of w = At_Work \<or> (\<exists>html. place_of w = At_Job html) \<Longrightarrow>
     work_string (work_url w) = None \<Longrightarrow> farm_step envs \<sigma> Quiet (set_worker i (w\<lparr>place_of := Gone Crashed\<rparr>) \<sigma>)"
| page_put: "i < length (crew \<sigma>) \<Longrightarrow> w = crew \<sigma> ! i \<Longrightarrow> place_of w = At_Page html \<Longrightarrow> \<not> ring_full (pages_of \<sigma>) \<Longrightarrow>
     farm_step envs \<sigma> (Page_Put (work_url w, html))
       (set_worker i (w\<lparr>place_of := At_Start\<rparr>) (set_pages (ring_store (write_html_cell (work_url w) html) (pages_of \<sigma>)) \<sigma>))"
| pages_full: "i < length (crew \<sigma>) \<Longrightarrow> w = crew \<sigma> ! i \<Longrightarrow> place_of w = At_Page html \<Longrightarrow> ring_full (pages_of \<sigma>) \<Longrightarrow>
     farm_step envs \<sigma> Quiet (set_worker i (w\<lparr>place_of := At_Job html\<rparr>) \<sigma>)"
| job_done: "i < length (crew \<sigma>) \<Longrightarrow> w = crew \<sigma> ! i \<Longrightarrow> place_of w = At_Job html \<Longrightarrow> work_string (work_url w) = Some url \<Longrightarrow>
     e \<in> envs \<Longrightarrow> run_state (page_links e url html) s = (found, s') \<Longrightarrow>
     farm_step envs \<sigma> Quiet (set_worker i (after_job w found) \<sigma>)"
| links_put: "i < length (crew \<sigma>) \<Longrightarrow> w = crew \<sigma> ! i \<Longrightarrow> place_of w = At_Links us \<Longrightarrow> insert_links us (urls_of \<sigma>) = (r, rest) \<Longrightarrow>
     farm_step envs \<sigma> (Url_Put (take (length us - length rest) us))
       (set_worker i (w\<lparr>place_of := (if rest = [] then At_Start else At_File (link_lines rest))\<rparr>) (set_urls r \<sigma>))"
| no_write: "i < length (crew \<sigma>) \<Longrightarrow> w = crew \<sigma> ! i \<Longrightarrow> place_of w = At_File text \<Longrightarrow> write_file (world \<sigma>) = None \<Longrightarrow>
     farm_step envs \<sigma> Quiet (set_worker i (w\<lparr>place_of := Gone Exited\<rparr>) \<sigma>)"
| text_put: "i < length (crew \<sigma>) \<Longrightarrow> w = crew \<sigma> ! i \<Longrightarrow> place_of w = At_File (part @ text) \<Longrightarrow> part @ text = [] \<or> part \<noteq> [] \<Longrightarrow>
     write_file (world \<sigma>) = Some old \<Longrightarrow>
     farm_step envs \<sigma> (Text_Put part) ((set_worker i (w\<lparr>place_of := (if text = [] then At_Start else At_File text)\<rparr>) \<sigma>)
       \<lparr>world := (world \<sigma>)\<lparr>write_file := Some (old @ part)\<rparr>\<rparr>)"

inductive farm_run :: "('d, 'a) env set \<Rightarrow> farm \<Rightarrow> happening list \<Rightarrow> farm \<Rightarrow> bool" for envs where
  at_rest: "farm_run envs \<sigma> [] \<sigma>"
| go_on: "farm_run envs \<sigma> hs \<tau> \<Longrightarrow> farm_step envs \<tau> h \<upsilon> \<Longrightarrow> farm_run envs \<sigma> (hs @ [h]) \<upsilon>"

section \<open>What a run did to the queues and the file\<close>

fun urls_put :: "happening list \<Rightarrow> string list" where
  "urls_put [] = []"
| "urls_put (Url_Put us # hs) = us @ urls_put hs"
| "urls_put (h # hs) = urls_put hs"

fun urls_got :: "happening list \<Rightarrow> string list" where
  "urls_got [] = []"
| "urls_got (Url_Got u # hs) = u # urls_got hs"
| "urls_got (h # hs) = urls_got hs"

fun pages_put :: "happening list \<Rightarrow> (string \<times> string) list" where
  "pages_put [] = []"
| "pages_put (Page_Put p # hs) = p # pages_put hs"
| "pages_put (h # hs) = pages_put hs"

fun pages_got :: "happening list \<Rightarrow> (string \<times> string) list" where
  "pages_got [] = []"
| "pages_got (Page_Got p # hs) = p # pages_got hs"
| "pages_got (h # hs) = pages_got hs"

fun lines_got :: "happening list \<Rightarrow> string list" where
  "lines_got [] = []"
| "lines_got (Line_Got l # hs) = l # lines_got hs"
| "lines_got (h # hs) = lines_got hs"

fun text_put :: "happening list \<Rightarrow> string" where
  "text_put [] = []"
| "text_put (Text_Put t # hs) = t @ text_put hs"
| "text_put (h # hs) = text_put hs"

lemma hist_append [simp]:
  "urls_put (hs @ hs') = urls_put hs @ urls_put hs'" "urls_got (hs @ hs') = urls_got hs @ urls_got hs'"
  "pages_put (hs @ hs') = pages_put hs @ pages_put hs'" "pages_got (hs @ hs') = pages_got hs @ pages_got hs'"
  "lines_got (hs @ hs') = lines_got hs @ lines_got hs'" "text_put (hs @ hs') = text_put hs @ text_put hs'"
  by (induction hs rule: urls_put.induct; simp)+

lemma set_simps [simp]:
  "world (set_worker i w \<sigma>) = world \<sigma>" "list_lock (set_worker i w \<sigma>) = list_lock \<sigma>"
  "crew (set_worker i w \<sigma>) = (crew \<sigma>)[i := w]"
  "world (set_urls r \<sigma>) = (world \<sigma>)\<lparr>shm := (shm (world \<sigma>))\<lparr>url_queue := r\<rparr>\<rparr>"
  "world (set_pages r \<sigma>) = (world \<sigma>)\<lparr>shm := (shm (world \<sigma>))\<lparr>html_queue := r\<rparr>\<rparr>"
  "list_lock (set_urls r \<sigma>) = list_lock \<sigma>" "list_lock (set_pages r \<sigma>) = list_lock \<sigma>"
  "crew (set_urls r \<sigma>) = crew \<sigma>" "crew (set_pages r \<sigma>) = crew \<sigma>"
  by (simp_all add: set_worker_def set_urls_def set_pages_def)

definition queues_ok :: "farm \<Rightarrow> bool" where
  "queues_ok \<sigma> \<longleftrightarrow> ring_ok URL_SIZE (urls_of \<sigma>) \<and> ring_ok (HTML_SIZE + URL_SIZE) (pages_of \<sigma>)"

lemma read_cell: "read_html_cell cell work = (w, html) \<Longrightarrow> html = read_chars URL_SIZE HTML_SIZE cell"
  by (simp add: read_html_cell_def)

lemma page_advance:
  assumes "ring_ok (HTML_SIZE + URL_SIZE) r" "\<not> ring_empty r"
  shows "ring_ok (HTML_SIZE + URL_SIZE) (ring_advance r)"
    "html_contents r = (read_chars 0 URL_SIZE (ring_front r), read_chars URL_SIZE HTML_SIZE (ring_front r)) # html_contents (ring_advance r)"
  using page.advance_good[OF assms(1)] page.advance_contents[OF assms] by simp_all

lemma page_store:
  assumes "ring_ok (HTML_SIZE + URL_SIZE) r" "\<not> ring_full r"
  shows "ring_ok (HTML_SIZE + URL_SIZE) (ring_store (write_html_cell w h) r)"
    "html_contents (ring_store (write_html_cell w h) r) = html_contents r @ [html_seen (w, h)]"
  using page.put_good[OF assms(1), of "(w, h)"] page.put_contents[OF assms, of "(w, h)"] by simp_all

lemma links_inserted:
  assumes "ring_ok URL_SIZE r" "insert_links us r = (r', rest)"
  shows "ring_ok URL_SIZE r'" "url_contents r' = url_contents r @ map url_seen (take (length us - length rest) us)"
proof -
  note q = insert_links_queue[OF assms(1), of us, unfolded assms(2) fst_conv snd_conv]
  show "ring_ok URL_SIZE r'" by (rule q(2))
  have "length us - length rest = min (ring_capacity r - length (url_contents r)) (length us)"
    unfolding q(1) by simp
  then show "url_contents r' = url_contents r @ map url_seen (take (length us - length rest) us)"
    unfolding q(3) by simp
qed

lemma step_queues:
  assumes "farm_step envs \<sigma> h \<tau>" "queues_ok \<sigma>"
  shows "queues_ok \<tau> \<and> url_contents (urls_of \<sigma>) @ map url_seen (urls_put [h]) = urls_got [h] @ url_contents (urls_of \<tau>) \<and>
    html_contents (pages_of \<sigma>) @ map html_seen (pages_put [h]) = pages_got [h] @ html_contents (pages_of \<tau>)"
  using assms
proof cases
  case (page_got i w work html)
  then show ?thesis
    using assms(2) page_advance[of "pages_of \<sigma>"] read_cell[of "ring_front (pages_of \<sigma>)"] by (auto simp: queues_ok_def)
next
  case (url_got i w)
  then show ?thesis
    using assms(2) url.advance_contents[of "urls_of \<sigma>"] url.advance_good[of "urls_of \<sigma>"] by (auto simp: queues_ok_def)
next
  case (page_put i w html)
  then show ?thesis
    using assms(2) page_store[of "pages_of \<sigma>"] by (auto simp: queues_ok_def)
next
  case (links_put i w us r rest)
  then show ?thesis
    using assms(2) links_inserted[of "urls_of \<sigma>" us r rest] by (auto simp: queues_ok_def)
qed (auto simp: queues_ok_def)


section \<open>The lock of the file of addresses\<close>

text \<open>The worker that has the lock is between taking and releasing it, or has ended there.\<close>

definition lock_ok :: "farm \<Rightarrow> bool" where
  "lock_ok \<sigma> \<longleftrightarrow> (\<forall>i < length (crew \<sigma>). place_of (crew \<sigma> ! i) = In_List \<longrightarrow> list_lock \<sigma> = Some i) \<and>
     (\<forall>i. list_lock \<sigma> = Some i \<longrightarrow> i < length (crew \<sigma>) \<and> (place_of (crew \<sigma> ! i) = In_List \<or> (\<exists>t. place_of (crew \<sigma> ! i) = Gone t)))"

lemma after_look_place [simp]: "after_look c r \<noteq> In_List"
  by (cases "(c, r)" rule: after_look.cases) auto

lemma after_job_place [simp]: "place_of (after_job w found) \<noteq> In_List"
  by (cases "(w, found)" rule: after_job.cases) (auto split: role.split)

lemma lock_move:
  assumes "lock_ok \<sigma>" "i < length (crew \<sigma>)" "crew \<tau> = (crew \<sigma>)[i := w]" "place_of (crew \<sigma> ! i) \<noteq> In_List"
    and "\<forall>t. place_of (crew \<sigma> ! i) \<noteq> Gone t" "place_of w \<noteq> In_List" "list_lock \<tau> = list_lock \<sigma>"
  shows "lock_ok \<tau>"
  using assms unfolding lock_ok_def by (metis length_list_update nth_list_update)

lemma lock_end:
  assumes "lock_ok \<sigma>" "place_of (crew \<sigma> ! i) = In_List" "i < length (crew \<sigma>)" "place_of w = Gone t"
    and "crew \<tau> = (crew \<sigma>)[i := w]" "list_lock \<tau> = list_lock \<sigma>"
  shows "lock_ok \<tau>"
  using assms unfolding lock_ok_def by (metis length_list_update nth_list_update place.distinct(25) place.distinct(41) place.distinct(55))

lemma lock_leave:
  assumes "lock_ok \<sigma>" "place_of (crew \<sigma> ! i) = In_List" "i < length (crew \<sigma>)" "place_of w \<noteq> In_List"
    and "crew \<tau> = (crew \<sigma>)[i := w]" "list_lock \<tau> = None"
  shows "lock_ok \<tau>"
  using assms unfolding lock_ok_def by (metis length_list_update nth_list_update option.distinct(1) option.inject)

lemma lock_enter:
  assumes "lock_ok \<sigma>" "list_lock \<sigma> = None" "i < length (crew \<sigma>)" "place_of w = In_List"
    and "crew \<tau> = (crew \<sigma>)[i := w]" "list_lock \<tau> = Some i"
  shows "lock_ok \<tau>"
  using assms unfolding lock_ok_def by (metis length_list_update nth_list_update option.distinct(1) option.inject)

lemma step_lock: 
  assumes "farm_step envs \<sigma> h \<tau>" "lock_ok \<sigma>"
  shows "lock_ok \<tau>"
  using assms
proof cases
  case (lock_list i w)
  then show ?thesis using assms(2) by (intro lock_enter[where \<sigma> = \<sigma> and i = i and \<tau> = \<tau>]) auto
next
  case (no_file i w)
  then show ?thesis using assms(2) by (intro lock_end[where \<sigma> = \<sigma> and i = i and \<tau> = \<tau>]) auto
next
  case (no_line i w lines)
  then show ?thesis using assms(2) by (intro lock_leave[where \<sigma> = \<sigma> and i = i and \<tau> = \<tau>]) auto
next
  case (line_got i w lines work)
  then show ?thesis using assms(2) by (intro lock_leave[where \<sigma> = \<sigma> and i = i and \<tau> = \<tau>]) auto
next
  case (long_line i w lines)
  then show ?thesis using assms(2) by (intro lock_end[where \<sigma> = \<sigma> and i = i and \<tau> = \<tau>]) auto
qed (rule lock_move[OF assms(2)], assumption, simp, (auto)[4])+

lemma step_lines:
  assumes "farm_step envs \<sigma> h \<tau>" "read_file (world \<sigma>) = Some lines"
  shows "\<exists>rest. read_file (world \<tau>) = Some rest \<and> lines = lines_got [h] @ rest"
  using assms
  by cases (auto simp: first_line_def split: list.splits)

lemma lock_holder: "lock_ok \<sigma> \<Longrightarrow> i < length (crew \<sigma>) \<Longrightarrow> place_of (crew \<sigma> ! i) = In_List \<Longrightarrow> list_lock \<sigma> = Some i"
  unfolding lock_ok_def by blast

text \<open>
  However the workers are interleaved, at most one of them is between taking and releasing \<open>url_lists_lock\<close>,
  and each line of the file of addresses is given to one worker, once, in the order of the file.
\<close>

theorem lines_given_once:
  assumes "farm_run envs \<sigma> hs \<tau>" "lock_ok \<sigma>" "read_file (world \<sigma>) = Some lines"
  shows "\<exists>rest. read_file (world \<tau>) = Some rest \<and> lines = lines_got hs @ rest \<and>
    (\<forall>i j. i < length (crew \<tau>) \<and> j < length (crew \<tau>) \<and> place_of (crew \<tau> ! i) = In_List \<and> place_of (crew \<tau> ! j) = In_List \<longrightarrow> i = j)"
proof -
  have "lock_ok \<tau> \<and> (\<exists>rest. read_file (world \<tau>) = Some rest \<and> lines = lines_got hs @ rest)"
    using assms
  proof (induction rule: farm_run.induct)
    case (go_on \<sigma> hs \<tau> h \<upsilon>)
    then obtain rest where r: "lock_ok \<tau>" "read_file (world \<tau>) = Some rest" "lines = lines_got hs @ rest" by blast
    obtain rest' where "read_file (world \<upsilon>) = Some rest'" "rest = lines_got [h] @ rest'"
      using step_lines[OF go_on(2) r(2)] by blast
    then show ?case using step_lock[OF go_on(2) r(1)] r(3) by simp
  qed simp
  then obtain rest where r: "lock_ok \<tau>" "read_file (world \<tau>) = Some rest" "lines = lines_got hs @ rest" by blast
  have "i = j" if "i < length (crew \<tau>)" "j < length (crew \<tau>)" "place_of (crew \<tau> ! i) = In_List" "place_of (crew \<tau> ! j) = In_List" for i j
    using lock_holder[OF r(1) that(1,3)] lock_holder[OF r(1) that(2,4)] by simp
  with r(2,3) show ?thesis by blast
qed

definition leaked :: "nat \<Rightarrow> farm \<Rightarrow> bool" where
  "leaked i \<sigma> \<longleftrightarrow> lock_ok \<sigma> \<and> list_lock \<sigma> = Some i \<and> (\<exists>t. place_of (crew \<sigma> ! i) = Gone t)"

lemma leaked_step:
  assumes "farm_step envs \<sigma> h \<tau>" "leaked i \<sigma>"
  shows "leaked i \<tau> \<and> lines_got [h] = [] \<and> length (crew \<tau>) = length (crew \<sigma>) \<and>
    (\<forall>j < length (crew \<sigma>). place_of (crew \<sigma> ! j) = At_List \<longrightarrow> place_of (crew \<tau> ! j) = At_List)"
proof -
  have ok: "lock_ok \<tau>" using assms step_lock by (auto simp: leaked_def)
  have i: "list_lock \<sigma> = Some i" "\<exists>t. place_of (crew \<sigma> ! i) = Gone t" using assms(2) by (auto simp: leaked_def)
  have out: "place_of (crew \<sigma> ! k) \<noteq> In_List" if "k < length (crew \<sigma>)" for k
  proof
    assume p: "place_of (crew \<sigma> ! k) = In_List"
    have "list_lock \<sigma> = Some k" using assms(2) that p by (intro lock_holder) (simp_all add: leaked_def)
    then show False using i p by auto
  qed
  show ?thesis using assms(1)
  proof cases
    case (lock_list k w)
    then show ?thesis using i by simp
  next
    case (no_file k w)
    then show ?thesis using out by blast
  next
    case (no_line k w lines)
    then show ?thesis using out by blast
  next
    case (line_got k w lines work)
    then show ?thesis using out by blast
  next
    case (long_line k w lines)
    then show ?thesis using out by blast
  qed (use i ok in \<open>auto simp: leaked_def nth_list_update\<close>)
qed

lemma leaked_run:
  "farm_run envs \<sigma> hs \<tau> \<Longrightarrow> leaked i \<sigma> \<Longrightarrow> leaked i \<tau> \<and> lines_got hs = [] \<and> length (crew \<tau>) = length (crew \<sigma>) \<and>
    (\<forall>j < length (crew \<sigma>). place_of (crew \<sigma> ! j) = At_List \<longrightarrow> place_of (crew \<tau> ! j) = At_List)"
proof (induction rule: farm_run.induct)
  case (go_on \<sigma> hs \<tau> h \<upsilon>)
  then have l: "leaked i \<tau>" by blast
  show ?case unfolding hist_append using go_on.IH[OF go_on.prems] leaked_step[OF go_on(2) l] by (metis append_Nil)
qed simp

text \<open>
  C9. A worker that cannot open the file of addresses ends without releasing \<open>url_lists_lock\<close>.  From then on,
  whatever the others do, the lock is never free again, no address is read from the file, and a worker that waits
  for the lock waits for ever.
\<close>

theorem list_lock_leaks:
  assumes "lock_ok \<sigma>" "i < length (crew \<sigma>)" "place_of (crew \<sigma> ! i) = In_List" "read_file (world \<sigma>) = None"
  shows "\<exists>\<sigma>'. farm_step envs \<sigma> Quiet \<sigma>' \<and> place_of (crew \<sigma>' ! i) = Gone Exited \<and>
    (\<forall>hs \<tau>. farm_run envs \<sigma>' hs \<tau> \<longrightarrow> list_lock \<tau> = Some i \<and> lines_got hs = [] \<and>
      (\<forall>j < length (crew \<sigma>). place_of (crew \<sigma>' ! j) = At_List \<longrightarrow> place_of (crew \<tau> ! j) = At_List))"
proof -
  let ?\<sigma>' = "set_worker i ((crew \<sigma> ! i)\<lparr>place_of := Gone Exited\<rparr>) \<sigma>"
  have step: "farm_step envs \<sigma> Quiet ?\<sigma>'" by (rule no_file) (use assms in auto)
  have "leaked i ?\<sigma>'"
    using step_lock[OF step assms(1)] lock_holder[OF assms(1-3)] assms(2) by (simp add: leaked_def)
  from leaked_run[OF _ this] have "\<forall>hs \<tau>. farm_run envs ?\<sigma>' hs \<tau> \<longrightarrow> list_lock \<tau> = Some i \<and> lines_got hs = [] \<and>
      (\<forall>j < length (crew \<sigma>). place_of (crew ?\<sigma>' ! j) = At_List \<longrightarrow> place_of (crew \<tau> ! j) = At_List)"
    unfolding leaked_def set_simps length_list_update by blast
  with step assms(2) show ?thesis by (intro exI[of _ ?\<sigma>']) simp
qed

definition new_worker :: "role \<Rightarrow> worker" where
  "new_worker c = \<lparr>role_of = c, place_of = At_Start, work_url = replicate URL_SIZE NUL, has_url = False\<rparr>"

definition new_farm :: "role list \<Rightarrow> spider \<Rightarrow> farm" where
  "new_farm cs sp = \<lparr>world = sp, list_lock = None, crew = map new_worker cs\<rparr>"

lemma new_farm_ok: "lock_ok (new_farm cs sp)" "queues_ok (new_farm cs start_spider)"
  by (simp_all add: lock_ok_def new_farm_def new_worker_def queues_ok_def start_spider_def)
    (simp add: new_shmctrl_def HTML_NUMS_def)

section \<open>The turns of the sequential model are runs\<close>

definition end_place :: "turn_end \<Rightarrow> place" where
  "end_place t = (if t = Started then At_Start else Gone t)"

text \<open>Worker \<open>i\<close> of a crew, at a place, in a world; the others do not move.\<close>

definition solo :: "farm \<Rightarrow> nat \<Rightarrow> spider \<Rightarrow> nat option \<Rightarrow> worker \<Rightarrow> farm" where
  "solo \<sigma> i sp lk w = \<sigma>\<lparr>world := sp, list_lock := lk, crew := (crew \<sigma>)[i := w]\<rparr>"

lemma solo_simps [simp]:
  "world (solo \<sigma> i sp lk w) = sp" "list_lock (solo \<sigma> i sp lk w) = lk"
  "i < length (crew \<sigma>) \<Longrightarrow> crew (solo \<sigma> i sp lk w) ! i = w" "length (crew (solo \<sigma> i sp lk w)) = length (crew \<sigma>)"
  "set_worker i w' (solo \<sigma> i sp lk w) = solo \<sigma> i sp lk w'"
  "set_worker i w' (set_urls r (solo \<sigma> i sp lk w)) = solo \<sigma> i (sp\<lparr>shm := (shm sp)\<lparr>url_queue := r\<rparr>\<rparr>) lk w'"
  "set_worker i w' (set_pages r (solo \<sigma> i sp lk w)) = solo \<sigma> i (sp\<lparr>shm := (shm sp)\<lparr>html_queue := r\<rparr>\<rparr>) lk w'"
  "solo \<sigma> i sp lk w\<lparr>list_lock := lk'\<rparr> = solo \<sigma> i sp lk' w"
  "solo \<sigma> i sp lk w\<lparr>world := sp'\<rparr> = solo \<sigma> i sp' lk w"
  by (simp_all add: solo_def set_worker_def set_urls_def set_pages_def)

lemma run_trans: "farm_run envs \<tau> hs' \<upsilon> \<Longrightarrow> farm_run envs \<sigma> hs \<tau> \<Longrightarrow> farm_run envs \<sigma> (hs @ hs') \<upsilon>"
  by (induction rule: farm_run.induct) (auto simp flip: append_assoc intro: farm_run.intros)

text \<open>Some run leads from one farm to the other.\<close>

definition leads :: "('d, 'a) env set \<Rightarrow> farm \<Rightarrow> farm \<Rightarrow> bool" where
  "leads envs \<sigma> \<tau> \<longleftrightarrow> (\<exists>hs. farm_run envs \<sigma> hs \<tau>)"

lemma leads_refl [simp]: "leads envs \<sigma> \<sigma>"
  unfolding leads_def using at_rest by blast

lemma leads_trans: "leads envs \<sigma> \<tau> \<Longrightarrow> leads envs \<tau> \<upsilon> \<Longrightarrow> leads envs \<sigma> \<upsilon>"
  unfolding leads_def using run_trans by blast

lemma leads_step: "farm_step envs \<sigma> h \<tau> \<Longrightarrow> leads envs \<tau> \<upsilon> \<Longrightarrow> leads envs \<sigma> \<upsilon>"
  using leads_trans[of envs \<sigma> \<tau> \<upsilon>] go_on[OF at_rest] unfolding leads_def by blast

lemma publish_runs:
  assumes "i < length (crew \<sigma>)" "place_of w = At_Links us" "publish us sp = (sp', t)"
  shows "leads envs (solo \<sigma> i sp lk w) (solo \<sigma> i sp' lk (w\<lparr>place_of := end_place t\<rparr>))"
proof -
  obtain r rest where r: "insert_links us (url_queue (shm sp)) = (r, rest)" by fastforce
  let ?sp = "sp\<lparr>shm := (shm sp)\<lparr>url_queue := r\<rparr>\<rparr>"
  have put: "farm_step envs (solo \<sigma> i sp lk w) (Url_Put (take (length us - length rest) us))
      (solo \<sigma> i ?sp lk (w\<lparr>place_of := (if rest = [] then At_Start else At_File (link_lines rest))\<rparr>))"
    using links_put[of i "solo \<sigma> i sp lk w" w us r rest envs] assms(1,2) r by simp
  consider "rest = []" | "rest \<noteq> []" "write_file sp = None" | old where "rest \<noteq> []" "write_file sp = Some old" by auto
  then show ?thesis
  proof cases
    case 1
    then show ?thesis using leads_step[OF put] assms(3) r by (simp add: publish_def end_place_def)
  next
    case 2
    have "farm_step envs (solo \<sigma> i ?sp lk (w\<lparr>place_of := At_File (link_lines rest)\<rparr>)) Quiet (solo \<sigma> i ?sp lk (w\<lparr>place_of := Gone Exited\<rparr>))"
      using no_write[of i "solo \<sigma> i ?sp lk (w\<lparr>place_of := At_File (link_lines rest)\<rparr>)" _ "link_lines rest" envs] assms(1) 2 by simp
    from leads_step[OF put] leads_step[OF this leads_refl] show ?thesis
      using assms(3) r 2 by (simp add: publish_def end_place_def)
  next
    case (3 old)
    have "farm_step envs (solo \<sigma> i ?sp lk (w\<lparr>place_of := At_File (link_lines rest)\<rparr>)) (Text_Put (link_lines rest))
        (solo \<sigma> i (?sp\<lparr>write_file := Some (old @ link_lines rest)\<rparr>) lk (w\<lparr>place_of := At_Start\<rparr>))"
      using text_put[of i "solo \<sigma> i ?sp lk (w\<lparr>place_of := At_File (link_lines rest)\<rparr>)" _ "link_lines rest" "[]" old envs] assms(1) 3
      by simp
    from leads_step[OF put] leads_step[OF this leads_refl] show ?thesis
      using assms(3) r 3 by (auto simp: publish_def end_place_def link_lines_def)
  qed
qed

lemma page_links_fails: "run_state (page_links e url html) s = (Links_Fail t, s') \<Longrightarrow> t \<noteq> Started"
  by (auto simp: page_links_def Let_def case_prod_unfold split: option.splits valuated.splits)

lemma crawl_job_runs:
  assumes "i < length (crew \<sigma>)" "w = \<lparr>role_of = Crawler, place_of = At_Job html, work_url = work, has_url = False\<rparr>"
    and "work_string work = Some url" "e \<in> envs" "run_state (crawl_job e sp work url html) s = (((sp', work', b), t), s')"
  shows "leads envs (solo \<sigma> i sp lk w) (solo \<sigma> i sp' lk \<lparr>role_of = Crawler, place_of = end_place t, work_url = work', has_url = b\<rparr>)"
proof -
  obtain found s1 where f: "run_state (page_links e url html) s = (found, s1)" by fastforce
  have fin: "farm_step envs (solo \<sigma> i sp lk w) Quiet (solo \<sigma> i sp lk (after_job w found))"
    using job_done[of i "solo \<sigma> i sp lk w" w html url e envs s found s1] assms(1-4) f by simp
  consider t' where "found = Links_Fail t'" | "found = Links []" | u us where "found = Links (u # us)"
    by (metis links_found.exhaust list.exhaust)
  then show ?thesis
  proof cases
    case 1
    then show ?thesis
      using leads_step[OF fin leads_refl] assms(2,5) f page_links_fails[of e url html s] by (auto simp: crawl_job_def end_place_def)
  next
    case 2
    then show ?thesis using leads_step[OF fin] assms(2,5) f by (simp add: crawl_job_def end_place_def)
  next
    case (3 u us)
    obtain sp1 t1 where p: "publish us sp = (sp1, t1)" by fastforce
    then have e: "sp1 = sp'" "t1 = t" "work' = end_str (length u) URL_SIZE (copy_chars u 0 work)" "b"
      using assms(5) f 3 by (simp_all add: crawl_job_def)
    let ?w = "\<lparr>role_of = Crawler, place_of = At_Links us, work_url = work', has_url = True\<rparr>"
    have "leads envs (solo \<sigma> i sp lk ?w) (solo \<sigma> i sp' lk (?w\<lparr>place_of := end_place t\<rparr>))"
      using publish_runs[OF assms(1) _ p, of ?w] e by simp
    then show ?thesis using leads_step[OF fin] assms(2) 3 e by simp
  qed
qed

lemma crawl_page_runs:
  assumes "i < length (crew \<sigma>)" "w = \<lparr>role_of = Crawler, place_of = At_Work, work_url = work, has_url = False\<rparr>"
    and "e \<in> envs" "run_state (crawl_page e sp work) s = (((sp', work', b), t), s')"
  shows "leads envs (solo \<sigma> i sp lk w) (solo \<sigma> i sp' lk \<lparr>role_of = Crawler, place_of = end_place t, work_url = work', has_url = b\<rparr>)"
proof (cases "work_string work")
  case None
  have "farm_step envs (solo \<sigma> i sp lk w) Quiet (solo \<sigma> i sp lk (w\<lparr>place_of := Gone Crashed\<rparr>))"
    using unterminated[of i "solo \<sigma> i sp lk w" w envs] assms(1,2) None by simp
  from leads_step[OF this leads_refl] show ?thesis using assms(2,4) None by (simp add: crawl_page_def end_place_def)
next
  case (Some url)
  obtain r s1 where r: "run_state (look_at e url) s = (r, s1)" by fastforce
  have fin: "farm_step envs (solo \<sigma> i sp lk w) Quiet (solo \<sigma> i sp lk (w\<lparr>place_of := after_look Crawler r\<rparr>))"
    using looked[of i "solo \<sigma> i sp lk w" w url e envs s r s1] assms(1-3) Some r by simp
  have turn: "run_state (crawl_page e sp work) s = (case r of
      Fetch_Undefined \<Rightarrow> (((sp, work, False), Crashed), s1) | No_Page \<Rightarrow> (((sp, work, False), Started), s1)
    | Page html \<Rightarrow> if ring_full (html_queue (shm sp)) then run_state (crawl_job e sp work url html) s1
        else (((sp\<lparr>shm := (shm sp)\<lparr>html_queue := ring_store (write_html_cell work html) (html_queue (shm sp))\<rparr>\<rparr>, work, False), Started), s1))"
    using r by (auto simp: crawl_page_def Some look_at_def case_prod_unfold split: fetched.split if_splits)
  show ?thesis
  proof (cases r)
    case (Page html)
    let ?w = "w\<lparr>place_of := At_Page html\<rparr>"
    show ?thesis
    proof (cases "ring_full (html_queue (shm sp))")
      case True
      have "farm_step envs (solo \<sigma> i sp lk ?w) Quiet (solo \<sigma> i sp lk (w\<lparr>place_of := At_Job html\<rparr>))"
        using pages_full[of i "solo \<sigma> i sp lk ?w" ?w html envs] assms(1) True by simp
      moreover have "leads envs (solo \<sigma> i sp lk (w\<lparr>place_of := At_Job html\<rparr>))
          (solo \<sigma> i sp' lk \<lparr>role_of = Crawler, place_of = end_place t, work_url = work', has_url = b\<rparr>)"
        using assms(2,4) turn Page True by (intro crawl_job_runs[OF assms(1) _ Some assms(3), where s = s1 and s' = s']) simp_all
      ultimately show ?thesis using leads_step[OF fin] leads_step Page by fastforce
    next
      case False
      have "farm_step envs (solo \<sigma> i sp lk ?w) (Page_Put (work_url ?w, html))
          (solo \<sigma> i (sp\<lparr>shm := (shm sp)\<lparr>html_queue := ring_store (write_html_cell work html) (html_queue (shm sp))\<rparr>\<rparr>) lk
            (w\<lparr>place_of := At_Start\<rparr>))"
        using page_put[of i "solo \<sigma> i sp lk ?w" ?w html envs] assms(1,2) False by simp
      from leads_step[OF fin[unfolded Page after_look.simps] leads_step[OF this leads_refl]] show ?thesis
        using assms(2,4) turn Page False by (auto simp: end_place_def)
    qed
  qed (use leads_step[OF fin leads_refl] assms(2,4) turn in \<open>simp_all add: end_place_def\<close>)
qed

lemma take_runs:
  fixes envs :: "('d, 'a) env set"
  assumes "i < length (crew \<sigma>)" "place_of w = At_Url"
  shows "case take_url sp (work_url w) of
      Took sp' work \<Rightarrow> leads envs (solo \<sigma> i sp None w) (solo \<sigma> i sp' None (w\<lparr>place_of := At_Work, work_url := work\<rparr>))
    | None_Left \<Rightarrow> leads envs (solo \<sigma> i sp None w) (solo \<sigma> i sp None (w\<lparr>place_of := At_Start\<rparr>))
    | No_File \<Rightarrow> leads envs (solo \<sigma> i sp None w) (solo \<sigma> i sp (Some i) (w\<lparr>place_of := Gone Exited\<rparr>))
    | Overflow \<Rightarrow> leads envs (solo \<sigma> i sp None w) (solo \<sigma> i sp (Some i) (w\<lparr>place_of := Gone Crashed\<rparr>))"
proof (cases "ring_empty (url_queue (shm sp))")
  case False
  let ?r = "url_queue (shm sp)"
  have "farm_step envs (solo \<sigma> i sp None w) (Url_Got (read_chars 0 URL_SIZE (ring_front ?r)))
      (solo \<sigma> i (sp\<lparr>shm := (shm sp)\<lparr>url_queue := ring_advance ?r\<rparr>\<rparr>) None
        (w\<lparr>place_of := At_Work, work_url := load_work (ring_front ?r) (work_url w)\<rparr>))"
    using url_got[of i "solo \<sigma> i sp None w" w envs] assms False by simp
  from leads_step[OF this leads_refl] show ?thesis using False by (simp add: take_url_def Let_def)
next
  case True
  let ?l = "w\<lparr>place_of := At_List\<rparr>" and ?w = "w\<lparr>place_of := In_List\<rparr>"
  have a: "farm_step envs (solo \<sigma> i sp None w) Quiet (solo \<sigma> i sp None ?l)"
    using no_url[of i "solo \<sigma> i sp None w" w envs] assms True by simp
  have b: "farm_step envs (solo \<sigma> i sp None ?l) Quiet (solo \<sigma> i sp (Some i) ?w)"
    using lock_list[of i "solo \<sigma> i sp None ?l" ?l envs] assms True by simp
  note go = leads_step[OF a leads_step[OF b]]
  note at = leads_step[OF _ leads_refl, THEN go]
  show ?thesis
  proof (cases "read_file sp")
    case None
    have "farm_step envs (solo \<sigma> i sp (Some i) ?w) Quiet (solo \<sigma> i sp (Some i) (w\<lparr>place_of := Gone Exited\<rparr>))"
      using no_file[of i "solo \<sigma> i sp (Some i) ?w" ?w envs] assms None by simp
    from at[OF this] show ?thesis using True None by (simp add: take_url_def Let_def)
  next
    case (Some lines)
    consider "first_line lines = []" | "first_line lines \<noteq> []" "load_line (first_line lines) (work_url w) = None"
      | work where "first_line lines \<noteq> []" "load_line (first_line lines) (work_url w) = Some work" by fastforce
    then show ?thesis
    proof cases
      case 1
      have "farm_step envs (solo \<sigma> i sp (Some i) ?w) Quiet (solo \<sigma> i sp None (w\<lparr>place_of := At_Start\<rparr>))"
        using no_line[of i "solo \<sigma> i sp (Some i) ?w" ?w lines envs] assms Some 1 by simp
      from at[OF this] show ?thesis using True Some 1 by (simp add: take_url_def Let_def first_line_def)
    next
      case 2
      have "farm_step envs (solo \<sigma> i sp (Some i) ?w) Quiet (solo \<sigma> i sp (Some i) (w\<lparr>place_of := Gone Crashed\<rparr>))"
        using long_line[of i "solo \<sigma> i sp (Some i) ?w" ?w lines envs] assms Some 2 by simp
      from at[OF this] show ?thesis using True Some 2 by (simp add: take_url_def Let_def first_line_def)
    next
      case (3 work)
      have "farm_step envs (solo \<sigma> i sp (Some i) ?w) (Line_Got (first_line lines))
          (solo \<sigma> i (sp\<lparr>read_file := Some (tl lines)\<rparr>) None (w\<lparr>place_of := At_Work, work_url := work\<rparr>))"
        using line_got[of i "solo \<sigma> i sp (Some i) ?w" ?w lines work envs] assms Some 3 by simp
      from at[OF this] show ?thesis using True Some 3 by (simp add: take_url_def Let_def first_line_def)
    qed
  qed
qed

lemma solo_self: "list_lock \<sigma> = None \<Longrightarrow> solo \<sigma> i (world \<sigma>) None (crew \<sigma> ! i) = \<sigma>"
  by (simp add: solo_def)


lemma parse_job_runs:
  assumes "i < length (crew \<sigma>)" "w = \<lparr>role_of = Parser, place_of = At_Job html, work_url = work, has_url = h\<rparr>"
    and "work_string work = Some url" "e \<in> envs" "run_state (parse_job e sp work url html) s = (((sp', work'), t), s')"
  shows "leads envs (solo \<sigma> i sp lk w) (solo \<sigma> i sp' lk (w\<lparr>place_of := end_place t, work_url := work'\<rparr>))"
proof -
  obtain found s1 where f: "run_state (page_links e url html) s = (found, s1)" by fastforce
  have fin: "farm_step envs (solo \<sigma> i sp lk w) Quiet (solo \<sigma> i sp lk (after_job w found))"
    using job_done[of i "solo \<sigma> i sp lk w" w html url e envs s found s1] assms(1-4) f by simp
  consider t' where "found = Links_Fail t'" | "found = Links []" | u us where "found = Links (u # us)"
    by (metis links_found.exhaust list.exhaust)
  then show ?thesis
  proof cases
    case 1
    then show ?thesis
      using leads_step[OF fin leads_refl] assms(2,5) f page_links_fails[of e url html s] by (auto simp: parse_job_def end_place_def)
  next
    case 2
    then show ?thesis using leads_step[OF fin] assms(2,5) f by (simp add: parse_job_def end_place_def)
  next
    case (3 u us)
    obtain sp1 t1 where p: "publish (u # us) sp = (sp1, t1)" by fastforce
    then have e: "sp1 = sp'" "t1 = t" "work' = work" using assms(5) f 3 by (simp_all add: parse_job_def)
    let ?w = "w\<lparr>place_of := At_Links (u # us)\<rparr>"
    have "leads envs (solo \<sigma> i sp lk ?w) (solo \<sigma> i sp' lk (?w\<lparr>place_of := end_place t\<rparr>))"
      using publish_runs[OF assms(1) _ p, of ?w] e by simp
    then show ?thesis using leads_step[OF fin] assms(2) 3 e by simp
  qed
qed

lemma unterminated_runs:
  assumes "i < length (crew \<sigma>)" "place_of w = At_Work \<or> (\<exists>html. place_of w = At_Job html)" "work_string (work_url w) = None"
  shows "leads envs (solo \<sigma> i sp lk w) (solo \<sigma> i sp lk (w\<lparr>place_of := end_place Crashed\<rparr>))"
proof -
  have "farm_step envs (solo \<sigma> i sp lk w) Quiet (solo \<sigma> i sp lk (w\<lparr>place_of := end_place Crashed\<rparr>))"
    using unterminated[of i "solo \<sigma> i sp lk w" w envs] assms by (simp add: end_place_def)
  then show ?thesis by (rule leads_step) simp
qed

lemma parse_url_page_runs:
  assumes "i < length (crew \<sigma>)" "w = \<lparr>role_of = Parser, place_of = At_Work, work_url = work, has_url = h\<rparr>"
    and "e \<in> envs" "run_state (parse_url_page e sp work) s = (((sp', work'), t), s')"
  shows "leads envs (solo \<sigma> i sp lk w) (solo \<sigma> i sp' lk (w\<lparr>place_of := end_place t, work_url := work'\<rparr>))"
proof (cases "work_string work")
  case None
  then show ?thesis
    using unterminated_runs[OF assms(1), of w] assms(2,4) by (simp add: parse_url_page_def)
next
  case (Some url)
  obtain r s1 where r: "run_state (look_at e url) s = (r, s1)" by fastforce
  have fin: "farm_step envs (solo \<sigma> i sp lk w) Quiet (solo \<sigma> i sp lk (w\<lparr>place_of := after_look Parser r\<rparr>))"
    using looked[of i "solo \<sigma> i sp lk w" w url e envs s r s1] assms(1-3) Some r by simp
  have turn: "run_state (parse_url_page e sp work) s = (case r of
      Fetch_Undefined \<Rightarrow> (((sp, work), Crashed), s1) | No_Page \<Rightarrow> (((sp, work), Started), s1)
    | Page html \<Rightarrow> run_state (parse_job e sp work url html) s1)"
    using r by (auto simp: parse_url_page_def Some look_at_def case_prod_unfold split: fetched.split if_splits)
  show ?thesis
  proof (cases r)
    case (Page html)
    have "run_state (parse_job e sp work url html) s1 = (((sp', work'), t), s')" using turn assms(4) Page by simp
    from parse_job_runs[OF assms(1) refl Some assms(3) this, where h = h and lk = lk] leads_step[OF fin] show ?thesis
      using assms(2) Page by simp
  qed (use leads_step[OF fin leads_refl] assms(2,4) turn in \<open>simp_all add: end_place_def\<close>)
qed

text \<open>The same for a turn of the parser.\<close>

theorem parse_turn_runs:
  assumes "i < length (crew \<sigma>)" "place_of (crew \<sigma> ! i) = At_Start" "role_of (crew \<sigma> ! i) = Parser" "list_lock \<sigma> = None"
    and "e \<in> envs" "run_state (parse_turn e (world \<sigma>, work_url (crew \<sigma> ! i))) s = (((sp', work'), t), s')"
  shows "\<exists>hs \<tau>. farm_run envs \<sigma> hs \<tau> \<and> world \<tau> = sp' \<and>
    crew \<tau> = (crew \<sigma>)[i := (crew \<sigma> ! i)\<lparr>place_of := end_place t, work_url := work'\<rparr>]"
proof -
  let ?sp = "world \<sigma>"
  obtain work h where w: "crew \<sigma> ! i = \<lparr>role_of = Parser, place_of = At_Start, work_url = work, has_url = h\<rparr>"
    using assms(2,3) by (cases "crew \<sigma> ! i") auto
  let ?at = "\<lambda>p. \<lparr>role_of = Parser, place_of = p, work_url = work, has_url = h\<rparr>"
  let ?goal = "\<lambda>lk. leads envs \<sigma> (solo \<sigma> i sp' lk (?at (end_place t)\<lparr>work_url := work'\<rparr>))"
  note self = solo_self[OF assms(4), of i] and upd = solo_simps(5)[of i _ \<sigma> ?sp None "crew \<sigma> ! i", unfolded solo_self[OF assms(4)]]
  have "\<exists>lk. ?goal lk"
  proof (cases "ring_empty (pages_of \<sigma>)")
    case False
    let ?r = "pages_of \<sigma>"
    let ?sp1 = "?sp\<lparr>shm := (shm ?sp)\<lparr>html_queue := ring_advance ?r\<rparr>\<rparr>"
    obtain work1 html where c: "read_html_cell (ring_front ?r) work = (work1, html)" by fastforce
    let ?w = "?at (At_Job html)\<lparr>work_url := work1\<rparr>"
    have go: "farm_step envs \<sigma> (Page_Got (read_chars 0 URL_SIZE (ring_front ?r), html)) (solo \<sigma> i ?sp1 None ?w)"
      using page_got[of i "solo \<sigma> i ?sp None (crew \<sigma> ! i)" "crew \<sigma> ! i" work1 html envs] assms(1) w c False
        solo_simps(7)[of i _ _ \<sigma> ?sp None "crew \<sigma> ! i"] unfolding self by simp
    show ?thesis
    proof (cases "work_string work1")
      case None
      then have "sp' = ?sp1" "work' = work1" "t = Crashed"
        using assms(6) w c False by (simp_all add: parse_turn_def parse_queued_def Let_def)
      then show ?thesis
        using leads_step[OF go unterminated_runs[OF assms(1), of ?w]] None by (intro exI[of _ None]) simp
    next
      case (Some url)
      have "run_state (parse_job e ?sp1 work1 url html) s = (((sp', work'), t), s')"
        using assms(6) w c False Some by (simp add: parse_turn_def parse_queued_def Let_def)
      from leads_step[OF go] parse_job_runs[OF assms(1) _ Some assms(5) this, where w = ?w and h = h and lk = None] show ?thesis
        by (intro exI[of _ None]) simp
    qed
  next
    case True
    have go: "farm_step envs \<sigma> Quiet (solo \<sigma> i ?sp None (?at At_Url))"
      using no_page[of i "solo \<sigma> i ?sp None (crew \<sigma> ! i)" "crew \<sigma> ! i" envs] assms(1) w True upd unfolding self by simp
    note t = take_runs[OF assms(1), where w = "?at At_Url" and sp = ?sp and envs = envs]
    show ?thesis
    proof (cases "take_url ?sp work")
      case (Took sp1 work1)
      have p: "run_state (parse_url_page e sp1 work1) s = (((sp', work'), t), s')"
        using assms(6) w True Took by (simp add: parse_turn_def)
      have "leads envs (solo \<sigma> i ?sp None (?at At_Url)) (solo \<sigma> i sp1 None \<lparr>role_of = Parser, place_of = At_Work, work_url = work1, has_url = h\<rparr>)"
        using t Took by simp
      from leads_step[OF go leads_trans[OF this parse_url_page_runs[OF assms(1) refl assms(5) p]]] show ?thesis by auto
    qed (use t leads_step[OF go] assms(6) w True in \<open>auto simp: parse_turn_def end_place_def\<close>)
  qed
  then show ?thesis unfolding leads_def solo_def using w by fastforce
qed


section \<open>Examples\<close>

abbreviation no_envs :: "(unit, unit) env set" where
  "no_envs \<equiv> {}"

definition worker_at :: "role \<Rightarrow> place \<Rightarrow> worker" where
  "worker_at c p = (new_worker c)\<lparr>place_of := p\<rparr>"

definition two_workers :: farm where
  "two_workers = \<lparr>world = start_spider, list_lock = None,
     crew = [worker_at Parser (At_Links [''a.com'', ''b.org'']), worker_at Crawler At_Url]\<rparr>"


definition file_farm :: "string list option \<Rightarrow> farm" where
  "file_farm file = \<lparr>world = start_spider\<lparr>read_file := file\<rparr>, list_lock = Some 0,
     crew = [worker_at Parser In_List, worker_at Crawler At_List]\<rparr>"

lemma file_farm_ok: "lock_ok (file_farm file)"
  by (simp add: lock_ok_def file_farm_def worker_at_def less_Suc_eq)

theorem list_lock_leaks_witness:
  "\<exists>\<sigma>'. farm_step no_envs (file_farm None) Quiet \<sigma>' \<and>
    (\<forall>hs \<tau>. farm_run no_envs \<sigma>' hs \<tau> \<longrightarrow> list_lock \<tau> = Some 0 \<and> lines_got hs = [])"
  using list_lock_leaks[OF file_farm_ok, of 0 None no_envs]
  by (auto simp: file_farm_def worker_at_def)

theorem lines_given_once_witness:
  "\<exists>hs \<tau>. farm_run no_envs (file_farm (Some [''a.com'', ''b.org''])) hs \<tau> \<and>
    lines_got hs = [''a.com''] \<and> read_file (world \<tau>) = Some [''b.org'']"
proof -
  let ?\<sigma> = "file_farm (Some [''a.com'', ''b.org''])"
  obtain work where w: "load_line ''a.com'' (replicate URL_SIZE NUL) = Some work"
    by (simp add: load_line_def URL_SIZE_def)
  obtain \<tau> where "farm_step no_envs ?\<sigma> (Line_Got (first_line [''a.com'', ''b.org''])) \<tau>"
    using line_got[of 0 ?\<sigma> "crew ?\<sigma> ! 0" "[''a.com'', ''b.org'']" work no_envs] w
    by (simp add: file_farm_def worker_at_def new_worker_def first_line_def)
  from go_on[OF at_rest this] have run: "farm_run no_envs ?\<sigma> [Line_Got ''a.com''] \<tau>"
    by (simp add: first_line_def)
  have "read_file (world ?\<sigma>) = Some [''a.com'', ''b.org'']" by (simp add: file_farm_def)
  from lines_given_once[OF run file_farm_ok this] run show ?thesis by (intro exI conjI) auto
qed


end
