(* ===== verification/Launch.thy ===== *)
theory Launch
  imports Spider
begin

text \<open>
  The master process of the spider (\<open>src/spider/master.cc\<close>) from its command line to its end: attaching the shared
  memory, loading the start addresses, starting the workers, and \<open>at_exit\<close>, which every call of \<open>exit\<close>
  runs from line 85 on, whatever has been set up by then.  The answers of the system calls are a parameter.
\<close>

section \<open>The master\<close>

text \<open>The pointer \<open>shmptr\<close>: null at first, \<open>-1\<close> after a failed \<open>shmat\<close>.\<close>

datatype segment = Null_Segment | Bad_Segment | Attached

datatype system_call = Remove_Segment int | Send_Sigint int

record master =
  m_shmid :: int
  m_shmptr :: segment
  m_write_url :: "string option"  \<comment> \<open>\<open>None\<close>: still the empty string\<close>
  m_world :: spider
  m_pid_str :: "int \<rightharpoonup> string"
  m_calls :: "system_call list"

text \<open>
  What the system answers: whether the constructor of \<open>SqlDBOperation\<close> returns, the result of \<open>shmget\<close>, success of
  \<open>shmat\<close> and of the three calls of \<open>signal\<close>, the lines of the file of start addresses, and for the
  \<open>i\<close>-th child the result of \<open>vfork\<close> and whether \<open>execl\<close> succeeds.
\<close>

record answers =
  db_starts :: bool
  shmget_gives :: int
  shmat_works :: bool
  signals_set :: bool
  start_lines :: "string list option"
  vfork_gives :: "nat \<Rightarrow> int"
  execl_works :: "nat \<Rightarrow> bool"
  processors :: nat

datatype outcome =
    Usage_Shown
  | Ended "master option"   \<comment> \<open>\<open>exit\<close>; \<open>None\<close> if \<open>at_exit\<close> reads through a bad pointer\<close>
  | Undefined
  | Serving master          \<comment> \<open>the loop of \<open>pause\<close>\<close>

text \<open>\<open>fopen\<close> fails for the empty name.\<close>

definition exit_handler :: "(int set \<Rightarrow> int list) \<Rightarrow> master \<Rightarrow> master option" where
  "exit_handler order m =
     (if m_write_url m = None \<or> write_file (m_world m) = None
      then Some (m\<lparr>m_calls := m_calls m @ [Remove_Segment (m_shmid m)]\<rparr>)
      else if m_shmptr m \<noteq> Attached then None
      else case master_exit (m_world m) of
        None \<Rightarrow> None
      | Some sp \<Rightarrow> Some (m\<lparr>m_world := sp,
          m_calls := m_calls m @ Remove_Segment (m_shmid m) # map Send_Sigint (order (dom (m_pid_str m)))\<rparr>))"

text \<open>
  The two loops over \<open>WORKERS\<close>.  A child of \<open>vfork\<close> may only call \<open>execl\<close> or \<open>_exit\<close>; when \<open>execl\<close> fails this one
  calls \<open>exit\<close>, which is undefined.
\<close>

fun start_workers :: "answers \<Rightarrow> (int set \<Rightarrow> int list) \<Rightarrow> (nat \<times> string) list \<Rightarrow> master \<Rightarrow> outcome" where
  "start_workers sys order [] m = Serving m"
| "start_workers sys order ((i, program) # rest) m =
     (if vfork_gives sys i < 0 then Ended (exit_handler order m)
      else if \<not> execl_works sys i then Undefined
      else start_workers sys order rest (m\<lparr>m_pid_str := (m_pid_str m)(vfork_gives sys i \<mapsto> program)\<rparr>))"

definition programs :: "nat \<Rightarrow> (nat \<times> string) list" where
  "programs n = map (\<lambda>i. (i, ''crawl_worker'')) [0..<n] @ map (\<lambda>i. (n + i, ''parse_worker'')) [0..<n]"

definition new_master :: "spider \<Rightarrow> master" where
  "new_master sp = \<lparr>m_shmid = 0, m_shmptr = Null_Segment, m_write_url = None, m_world = sp, m_pid_str = Map.empty, m_calls = []\<rparr>"

text \<open>The segment; \<open>Inl\<close> is an exit.  A new segment is filled with zeros, as \<open>memset\<close> does it again later.\<close>

definition attach :: "answers \<Rightarrow> (int set \<Rightarrow> int list) \<Rightarrow> master \<Rightarrow> master option + master" where
  "attach sys order m =
     (let m1 = m\<lparr>m_shmid := shmget_gives sys\<rparr>; m2 = m1\<lparr>m_shmptr := Attached, m_world := (m_world m1)\<lparr>shm := new_shmctrl\<rparr>\<rparr> in
      if shmget_gives sys < 0 then Inl (exit_handler order m1)
      else if \<not> shmat_works sys then Inl (exit_handler order (m1\<lparr>m_shmptr := Bad_Segment\<rparr>))
      else if \<not> signals_set sys then Inl (exit_handler order m2)
      else Inr m2)"

definition first_urls :: "('d, 'a) env \<Rightarrow> answers \<Rightarrow> ('d, ring option) op" where
  "first_urls e sys = (case start_lines sys of
      None \<Rightarrow> State_Monad.return (Some (url_queue new_shmctrl))
    | Some lines \<Rightarrow> load_start_urls e lines (url_queue new_shmctrl))"

definition master_main :: "('d, 'a) env \<Rightarrow> answers \<Rightarrow> (int set \<Rightarrow> int list) \<Rightarrow> string list \<Rightarrow> spider \<Rightarrow> ('d, outcome) op" where
  "master_main e sys order argv sp =
     (case master_args argv of
        Usage \<Rightarrow> State_Monad.return Usage_Shown
      | Null_String \<Rightarrow> State_Monad.return Undefined
      | Paths conf start read write dict \<Rightarrow>
          if \<not> db_starts sys then State_Monad.return (Ended (exit_handler order (new_master sp)))
          else case attach sys order ((new_master sp)\<lparr>m_write_url := Some write\<rparr>) of
            Inl ending \<Rightarrow> State_Monad.return (Ended ending)
          | Inr m \<Rightarrow> do {
              r \<leftarrow> first_urls e sys;
              State_Monad.return (case r of
                None \<Rightarrow> Undefined
              | Some r \<Rightarrow> start_workers sys order (programs (processors sys))
                  (m\<lparr>m_world := (m_world m)\<lparr>shm := (shm (m_world m))\<lparr>url_queue := r\<rparr>\<rparr>\<rparr>)) })"

section \<open>Starting the workers\<close>

definition lists_sets :: "(int set \<Rightarrow> int list) \<Rightarrow> bool" where
  "lists_sets order \<longleftrightarrow> (\<forall>S. finite S \<longrightarrow> set (order S) = S \<and> distinct (order S))"

fun add_pids :: "answers \<Rightarrow> (nat \<times> string) list \<Rightarrow> (int \<rightharpoonup> string) \<Rightarrow> (int \<rightharpoonup> string)" where
  "add_pids sys [] t = t"
| "add_pids sys ((i, program) # ps) t = add_pids sys ps (t(vfork_gives sys i \<mapsto> program))"

definition all_start :: "answers \<Rightarrow> (nat \<times> string) list \<Rightarrow> bool" where
  "all_start sys ps \<longleftrightarrow> (\<forall>(i, p) \<in> set ps. 0 < vfork_gives sys i \<and> execl_works sys i)"

lemma start_workers_append:
  "all_start sys ps \<Longrightarrow>
     start_workers sys order (ps @ qs) m = start_workers sys order qs (m\<lparr>m_pid_str := add_pids sys ps (m_pid_str m)\<rparr>)"
  by (induction sys order ps m rule: start_workers.induct) (simp_all add: all_start_def)

lemma start_workers_all:
  "all_start sys ps \<Longrightarrow> start_workers sys order ps m = Serving (m\<lparr>m_pid_str := add_pids sys ps (m_pid_str m)\<rparr>)"
  using start_workers_append[of sys ps order "[]" m] by simp

lemma add_pids_dom: "dom (add_pids sys ps t) = dom t \<union> (\<lambda>(i, p). vfork_gives sys i) ` set ps"
  by (induction sys ps t rule: add_pids.induct) (auto simp del: fun_upd_apply)

lemma add_pids_at:
  "distinct (map (\<lambda>(i, p). vfork_gives sys i) ps) \<Longrightarrow> (i, p) \<in> set ps \<Longrightarrow> add_pids sys ps t (vfork_gives sys i) = Some p"
proof (induction sys ps t rule: add_pids.induct)
  case (2 sys j q ps t)
  have keep: "k \<notin> (\<lambda>(i, p). vfork_gives sys i) ` set ps \<Longrightarrow> add_pids sys ps u k = u k" for k u
    by (induction sys ps u rule: add_pids.induct) auto
  show ?case using 2 keep by (cases "(i, p) = (j, q)") (auto simp del: fun_upd_apply simp: fun_upd_same)
qed simp

lemma program_indices: "map fst (programs n) = [0..<n + n]"
  by (simp add: programs_def comp_def upt_add_eq_append map_add_upt[symmetric] add.commute)

lemma exit_handler_attached:
  assumes "m_shmptr m = Attached" "m_write_url m \<noteq> None" "write_file (m_world m) = Some text"
    "ring_ok URL_SIZE (url_queue (shm (m_world m)))"
  shows "\<exists>m'. exit_handler order m = Some m' \<and>
    write_file (m_world m') = Some (text @ concat (map (\<lambda>u. u @ [NL]) (url_contents (url_queue (shm (m_world m)))))) \<and>
    m_calls m' = m_calls m @ Remove_Segment (m_shmid m) # map Send_Sigint (order (dom (m_pid_str m)))"
proof -
  obtain r where "drain_urls (url_queue (shm (m_world m))) [] = Some (r, url_contents (url_queue (shm (m_world m))))"
    using drain_urls_writes_all[OF assms(4), of "[]"] by auto
  then show ?thesis using assms(1-3) by (auto simp: exit_handler_def master_exit_def)
qed

lemma first_urls_ok: "run_state (first_urls e sys) s = (Some r, s') \<Longrightarrow> ring_ok URL_SIZE r"
  by (auto simp: first_urls_def split: option.splits dest: load_start_urls_queue[OF new_urls(1)])

text \<open>What the master holds when it starts the first worker.\<close>

definition loaded_master :: "answers \<Rightarrow> string list \<Rightarrow> spider \<Rightarrow> ring \<Rightarrow> master" where
  "loaded_master sys argv sp r = \<lparr>m_shmid = shmget_gives sys, m_shmptr = Attached, m_write_url = Some (argv ! 4),
     m_world = sp\<lparr>shm := new_shmctrl\<lparr>url_queue := r\<rparr>\<rparr>, m_pid_str = Map.empty, m_calls = []\<rparr>"

definition system_ready :: "answers \<Rightarrow> bool" where
  "system_ready sys \<longleftrightarrow> db_starts sys \<and> 0 \<le> shmget_gives sys \<and> shmat_works sys \<and> signals_set sys"

lemma master_main_ready:
  assumes "length argv = 7" "system_ready sys" "run_state (first_urls e sys) s = (Some r, s')"
  shows "run_state (master_main e sys order argv sp) s =
    (start_workers sys order (programs (processors sys)) (loaded_master sys argv sp r), s')"
  using assms by (simp add: master_main_def master_args_def system_ready_def attach_def new_master_def loaded_master_def Let_def)

section \<open>The life of the master\<close>

lemma program_pids: "map (\<lambda>(i, p). vfork_gives sys i) (programs n) = map (vfork_gives sys) [0..<n + n]"
  by (simp add: program_indices[symmetric] case_prod_unfold comp_def)

lemma programs_cases: "(i, p) \<in> set (programs n) \<longleftrightarrow> i < n + n \<and> p = (if i < n then ''crawl_worker'' else ''parse_worker'')"
  by (auto simp: programs_def image_iff intro!: bexI[of _ "i - n"])

theorem master_lifecycle:
  assumes "length argv = 7" "system_ready sys" "run_state (first_urls e sys) s = (Some r, s')" "write_file sp = Some text"
    and children: "\<forall>i < 2 * processors sys. 0 < vfork_gives sys i \<and> execl_works sys i" "inj_on (vfork_gives sys) {..<2 * processors sys}"
    and "lists_sets order"
  shows "\<exists>m m' pids. run_state (master_main e sys order argv sp) s = (Serving m, s') \<and>
    (\<forall>i < 2 * processors sys. m_pid_str m (vfork_gives sys i) =
      Some (if i < processors sys then ''crawl_worker'' else ''parse_worker'')) \<and>
    exit_handler order m = Some m' \<and>
    write_file (m_world m') = Some (text @ concat (map (\<lambda>u. u @ [NL]) (url_contents r))) \<and>
    m_calls m' = Remove_Segment (shmget_gives sys) # map Send_Sigint pids \<and>
    distinct pids \<and> set pids = vfork_gives sys ` {..<2 * processors sys}"
proof -
  let ?ps = "programs (processors sys)" and ?m0 = "loaded_master sys argv sp r"
  let ?m = "?m0\<lparr>m_pid_str := add_pids sys ?ps Map.empty\<rparr>"
  have start: "all_start sys ?ps" using children(1) by (auto simp: all_start_def programs_cases)
  have m: "run_state (master_main e sys order argv sp) s = (Serving ?m, s')"
    unfolding master_main_ready[OF assms(1-3)] start_workers_all[OF start] by (simp add: loaded_master_def)
  have "(\<lambda>(i, p). vfork_gives sys i) ` set ?ps = vfork_gives sys ` {..<2 * processors sys}"
    using arg_cong[OF program_pids, of set sys "processors sys"] by (simp add: atLeast_upt mult_2 lessThan_atLeast0)
  then have dom: "dom (m_pid_str ?m) = vfork_gives sys ` {..<2 * processors sys}" by (simp add: add_pids_dom)
  have "distinct (map (\<lambda>(i, p). vfork_gives sys i) ?ps)"
    using children(2) by (simp add: program_pids distinct_map mult_2 lessThan_atLeast0)
  note at = add_pids_at[OF this]
  have names: "\<forall>i < 2 * processors sys. m_pid_str ?m (vfork_gives sys i) =
      Some (if i < processors sys then ''crawl_worker'' else ''parse_worker'')"
    using at by (simp add: programs_cases mult_2)
  obtain m' where "exit_handler order ?m = Some m'"
    "write_file (m_world m') = Some (text @ concat (map (\<lambda>u. u @ [NL]) (url_contents r)))"
    "m_calls m' = Remove_Segment (shmget_gives sys) # map Send_Sigint (order (dom (m_pid_str ?m)))"
    using exit_handler_attached[of ?m "text" order] first_urls_ok[OF assms(3)] assms(4) by (auto simp: loaded_master_def)
  moreover have "set (order (dom (m_pid_str ?m))) = dom (m_pid_str ?m) \<and> distinct (order (dom (m_pid_str ?m)))"
    using assms(7) dom by (simp add: lists_sets_def)
  ultimately show ?thesis using m names dom
    by (intro exI[of _ ?m] exI[of _ m'] exI[of _ "order (dom (m_pid_str ?m))"]) simp
qed

text \<open>A machine with one processor, two start addresses and the process numbers 7 and 8.\<close>

definition plain_answers :: answers where
  "plain_answers = \<lparr>db_starts = True, shmget_gives = 3, shmat_works = True, signals_set = True, start_lines = None,
     vfork_gives = (\<lambda>i. int i + 7), execl_works = (\<lambda>i. True), processors = 1\<rparr>"

definition plain_argv :: "string list" where
  "plain_argv = [''master'', ''db.conf'', ''start'', ''read'', ''write'', ''dict'', ''time'']"

lemma sorted_lists: "lists_sets sorted_list_of_set"
  by (simp add: lists_sets_def)

theorem master_lifecycle_witness:
  "\<exists>m m'. run_state (master_main (plain_env No_Host) plain_answers sorted_list_of_set plain_argv start_spider)
      \<lparr>server = (), taken = 0, peak = 0, sent = []\<rparr> = (Serving m, \<lparr>server = (), taken = 0, peak = 0, sent = []\<rparr>) \<and>
    m_pid_str m 7 = Some ''crawl_worker'' \<and> m_pid_str m 8 = Some ''parse_worker'' \<and>
    exit_handler sorted_list_of_set m = Some m' \<and> write_file (m_world m') = Some []"
proof -
  let ?s = "\<lparr>server = (), taken = 0, peak = 0, sent = []\<rparr>"
  have a: "length plain_argv = 7" "system_ready plain_answers" "processors plain_answers = 1"
    "write_file start_spider = Some []" "run_state (first_urls (plain_env No_Host) plain_answers) ?s = (Some (url_queue new_shmctrl), ?s)"
    by (simp_all add: plain_argv_def system_ready_def plain_answers_def start_spider_def first_urls_def)
  have c: "\<forall>i < 2 * processors plain_answers. 0 < vfork_gives plain_answers i \<and> execl_works plain_answers i"
    "inj_on (vfork_gives plain_answers) {..<2 * processors plain_answers}"
    by (simp_all add: plain_answers_def inj_on_def)
  obtain m m' where m: "run_state (master_main (plain_env No_Host) plain_answers sorted_list_of_set plain_argv start_spider) ?s = (Serving m, ?s)"
    "\<forall>i < 2. m_pid_str m (vfork_gives plain_answers i) = Some (if i < 1 then ''crawl_worker'' else ''parse_worker'')"
    "exit_handler sorted_list_of_set m = Some m'" "write_file (m_world m') = Some []"
    using master_lifecycle[OF a(1,2,5,4) c sorted_lists] by (auto simp: a(3))
  have "m_pid_str m 7 = Some ''crawl_worker''" "m_pid_str m 8 = Some ''parse_worker''"
    using m(2)[rule_format, of 0] m(2)[rule_format, of 1] by (simp_all add: plain_answers_def)
  then show ?thesis using m by blast
qed

section \<open>Ending early\<close>

text \<open>
  When the \<open>k\<close>-th \<open>vfork\<close> fails, the exit still reaches every child that was started before.
\<close>

theorem failed_fork_stops_children:
  assumes "length argv = 7" "system_ready sys" "run_state (first_urls e sys) s = (Some r, s')" "write_file sp = Some text"
    and "k < 2 * processors sys" "\<forall>i < k. 0 < vfork_gives sys i \<and> execl_works sys i" "vfork_gives sys k < 0"
    and "lists_sets order"
  shows "\<exists>m pids. run_state (master_main e sys order argv sp) s = (Ended (Some m), s') \<and>
    m_calls m = Remove_Segment (shmget_gives sys) # map Send_Sigint pids \<and> set pids = vfork_gives sys ` {..<k}"
proof -
  let ?ps = "programs (processors sys)" and ?m0 = "loaded_master sys argv sp r"
  have idx: "map fst ?ps = [0..<2 * processors sys]" by (simp add: program_indices mult_2)
  have split: "?ps = take k ?ps @ (k, snd (?ps ! k)) # drop (Suc k) ?ps"
  proof -
    have l: "k < length ?ps" using arg_cong[OF idx, of length] assms(5) by simp
    moreover have "fst (?ps ! k) = k" using arg_cong[OF idx, of "\<lambda>xs. xs ! k"] l assms(5) by simp
    ultimately show ?thesis using id_take_nth_drop[OF l] by (metis prod.collapse)
  qed
  have firsts: "map fst (take k ?ps) = [0..<k]" using arg_cong[OF idx, of "take k"] assms(5) by (simp add: take_map)
  then have nos: "fst ` set (take k ?ps) = {..<k}" by (metis atLeast_upt set_map)
  then have "\<forall>x \<in> set (take k ?ps). fst x < k" by blast
  then have started: "all_start sys (take k ?ps)" using assms(6) by (simp add: all_start_def case_prod_unfold)
  have img: "(\<lambda>(i, p). vfork_gives sys i) ` set (take k ?ps) = vfork_gives sys ` {..<k}"
    by (simp add: nos[symmetric] image_image case_prod_unfold)
  let ?m = "?m0\<lparr>m_pid_str := add_pids sys (take k ?ps) Map.empty\<rparr>"
  have m: "run_state (master_main e sys order argv sp) s = (Ended (exit_handler order ?m), s')"
    unfolding master_main_ready[OF assms(1-3)]
    by (subst split, subst start_workers_append[OF started]) (simp add: loaded_master_def assms(7))
  have dom: "dom (m_pid_str ?m) = vfork_gives sys ` {..<k}" by (simp add: add_pids_dom img)
  obtain m' where "exit_handler order ?m = Some m'"
    "m_calls m' = Remove_Segment (shmget_gives sys) # map Send_Sigint (order (dom (m_pid_str ?m)))"
    using exit_handler_attached[of ?m "text" order] first_urls_ok[OF assms(3)] assms(4) by (auto simp: loaded_master_def)
  moreover have "set (order (dom (m_pid_str ?m))) = dom (m_pid_str ?m)" using assms(8) dom by (simp add: lists_sets_def)
  ultimately show ?thesis using m dom by (intro exI[of _ m'] exI[of _ "order (dom (m_pid_str ?m))"]) simp
qed

text \<open>
  Exits before the segment is attached.  If \<open>shmget\<close> fails, as it does while another master runs, \<open>at_exit\<close>
  reads through the null pointer; if the database cannot be reached, \<open>write_url\<close> is still empty and it removes
  segment 0, whoever that belongs to.
\<close>

theorem early_exit_unsafe:
  assumes "length argv = 7" "write_file sp \<noteq> None" "\<not> db_starts sys \<or> shmget_gives sys < 0"
  shows "run_state (master_main e sys order argv sp) s =
    (if db_starts sys then Ended None else Ended (Some ((new_master sp)\<lparr>m_calls := [Remove_Segment 0]\<rparr>)), s)"
  using assms by (auto simp: master_main_def master_args_def attach_def exit_handler_def new_master_def Let_def)

theorem early_exit_unsafe_witness:
  "run_state (master_main (plain_env No_Host) (plain_answers\<lparr>shmget_gives := -1\<rparr>) sorted_list_of_set plain_argv start_spider)
    \<lparr>server = (), taken = 0, peak = 0, sent = []\<rparr> = (Ended None, \<lparr>server = (), taken = 0, peak = 0, sent = []\<rparr>)"
  by (subst early_exit_unsafe) (simp_all add: plain_answers_def plain_argv_def start_spider_def)

end
