(* ===== verification/HtmlText.thy ===== *)
theory HtmlText
  imports Prelude
begin

text \<open>
  \<open>str2html\<close> (\<open>src/utils/str2html.cc\<close>): the escaping of page titles and contents on their way
  into the result page of the search server.
\<close>

text \<open>The \<open>switch\<close> of the loop body.\<close>

definition html_entity :: "char \<Rightarrow> string" where
  "html_entity c =
     (if c = CHR 0x60 then ''&acute;''
      else if c = CHR ''<'' then ''&lt;''
      else if c = CHR ''>'' then ''&gt;''
      else if c = CHR ''&'' then ''&amp''
      else if c = CHR 0x22 then ''&quot;''
      else if c = CHR ''^'' then ''&circ;''
      else if c = CHR ''/'' then ''&frasl;''
      else if c = SQUOTE then ''&apos;''
      else [c])"

fun str2html :: "string \<Rightarrow> string" where
  "str2html [] = []"
| "str2html (c # cs) = html_entity c @ str2html cs"

definition html_special :: "char list" where
  "html_special = [CHR 0x60, CHR ''<'', CHR ''>'', CHR 0x22, CHR ''^'', CHR ''/'', SQUOTE]"

lemma html_entity_plain:
  "d \<notin> set html_special \<Longrightarrow> d \<noteq> CHR ''&'' \<Longrightarrow> html_entity d = [d]"
  by (simp add: html_entity_def html_special_def)

lemma html_entity_special: "\<forall>d\<in>set (CHR ''&'' # html_special). \<forall>c\<in>set html_special. c \<notin> set (html_entity d)"
  by code_simp

lemma html_entity_no_special: "c \<in> set html_special \<Longrightarrow> c \<notin> set (html_entity d)"
proof (cases "d \<in> set (CHR ''&'' # html_special)")
  case True
  assume "c \<in> set html_special"
  with True html_entity_special show ?thesis by blast
next
  case False
  assume "c \<in> set html_special"
  with False html_entity_plain [of d] show ?thesis by auto
qed

lemma str2html_no_special: "c \<in> set html_special \<Longrightarrow> c \<notin> set (str2html s)"
  by (induction s) (simp_all add: html_entity_no_special)

text \<open>
  No replacement is a prefix of another one: the first character of a text can be told from its
  translation.
\<close>

lemma html_entity_amp:
  "d \<in> set (CHR ''&'' # html_special) \<Longrightarrow> hd (html_entity d) = CHR ''&''"
  by (auto simp: html_entity_def html_special_def)

lemma html_entities_prefix_free:
  "\<forall>d\<in>set (CHR ''&'' # html_special). \<forall>e\<in>set (CHR ''&'' # html_special).
     d \<noteq> e \<longrightarrow>
       take (min (length (html_entity d)) (length (html_entity e))) (html_entity d) \<noteq>
       take (min (length (html_entity d)) (length (html_entity e))) (html_entity e)"
  by code_simp

lemma append_eq_take:
  assumes "xs @ u = ys @ v"
  shows "take (min (length xs) (length ys)) xs = take (min (length xs) (length ys)) ys"
proof -
  let ?n = "min (length xs) (length ys)"
  have "take ?n (xs @ u) = take ?n (ys @ v)" using assms by simp
  then show ?thesis by simp
qed

lemma html_entity_inj:
  assumes "html_entity c @ u = html_entity d @ v"
  shows "c = d"
proof -
  define S where "S = set (CHR ''&'' # html_special)"
  have plain: "html_entity x = [x]" "x \<noteq> CHR ''&''" if "x \<notin> S" for x
    using that html_entity_plain [of x] by (simp_all add: S_def)
  have amp: "\<exists>t. html_entity x = CHR ''&'' # t" if "x \<in> S" for x
    using that by (auto simp: S_def html_entity_def html_special_def)
  have free: "x = y" if "x \<in> S" "y \<in> S"
    "take (min (length (html_entity x)) (length (html_entity y))) (html_entity x) =
     take (min (length (html_entity x)) (length (html_entity y))) (html_entity y)" for x y
    using that html_entities_prefix_free unfolding S_def by blast
  consider "c \<in> S" "d \<in> S" | "c \<in> S" "d \<notin> S" | "c \<notin> S" "d \<in> S" | "c \<notin> S" "d \<notin> S"
    by blast
  then show ?thesis
  proof cases
    case 1
    then show ?thesis using append_eq_take [OF assms] by (rule free)
  next
    case 2
    then show ?thesis using assms amp [of c] plain [of d] by auto
  next
    case 3
    then show ?thesis using assms amp [of d] plain [of c] by auto
  next
    case 4
    then show ?thesis using assms plain [of c] plain [of d] by simp
  qed
qed

text \<open>
  A text that went through \<open>str2html\<close> cannot leave the HTML context it is pasted into: it
  holds no angle bracket, quote, backquote, caret or slash.  And the page still shows what the text
  was: two texts with the same translation are equal.
\<close>

theorem str2html_safe_injective:
  "set (str2html s) \<inter> {CHR ''<'', CHR ''>'', CHR 0x22, SQUOTE, CHR 0x60, CHR ''/'', CHR ''^''} = {} \<and>
   (str2html s = str2html t \<longleftrightarrow> s = t)"
proof -
  have "s = t" if "str2html s = str2html t" for s t
    using that
  proof (induction s arbitrary: t)
    case Nil
    then show ?case by (cases t) (auto simp: html_entity_def split: if_splits)
  next
    case (Cons c s)
    show ?case
    proof (cases t)
      case Nil
      with Cons.prems show ?thesis by (auto simp: html_entity_def split: if_splits)
    next
      case (Cons d t')
      with Cons.prems have "html_entity c @ str2html s = html_entity d @ str2html t'" by simp
      moreover from this have "c = d" by (rule html_entity_inj)
      ultimately show ?thesis using Cons.IH Cons by simp
    qed
  qed
  moreover have "set (str2html s) \<inter> set html_special = {}"
    using str2html_no_special [of _ s] by auto
  ultimately show ?thesis by (auto simp: html_special_def)
qed

end
