(* ===== verification/HttpServer.thy ===== *)
theory HttpServer
  imports Search HtmlText
begin

text \<open>
  The search server (\<open>src/http/search_server.cc\<close>): reading the query string of a request, searching, and
  writing the page of results with its page bar.  The string stream is static, so its rest goes from one
  request to the next.  FastCGI is a parameter only in what it delivers: the method and the query string.
\<close>

section \<open>The query string\<close>

text \<open>
  \<open>q=..&start_page=..&results_per_page=..\<close>: the values are found by counting, the names are not looked at.
  \<open>No_Query\<close> is the \<open>continue\<close> without an answer, \<open>Bad_Query\<close> a sentence that is read past its end.
\<close>

datatype query = No_Query | Bad_Query | Query string int int sstream

definition up_to :: "char \<Rightarrow> string \<Rightarrow> nat \<Rightarrow> nat" where
  "up_to c s i = scan_while (\<lambda>d. d \<noteq> c) s i"

definition read_short :: "string \<Rightarrow> int \<Rightarrow> sstream \<Rightarrow> int \<times> sstream" where
  "read_short v old ss = ss_get_int short_min short_max (ss_put ss v) old"

definition parse_query :: "string \<Rightarrow> sstream \<Rightarrow> query" where
  "parse_query param ss =
     (let n = length param; j = up_to CHR ''='' param 0 + 1 in
      if n \<le> j then No_Query
      else let i = up_to CHR ''&'' param j in
      case deescape_url (substr param j (i - j)) of
        None \<Rightarrow> Bad_Query
      | Some sentence \<Rightarrow>
          let j = up_to CHR ''='' param i + 1 in
          if n \<le> j then Query sentence 0 0 ss
          else let i = up_to CHR ''&'' param j; (start_page, ss) = read_short (substr param j (i - j)) 0 ss; i = i + 1 in
          if n \<le> i then Query sentence start_page 0 ss
          else let j = up_to CHR ''='' param i + 1 in
          if n \<le> j then Query sentence start_page 0 ss
          else let i = up_to CHR ''&'' param j; (results_per_page, ss) = read_short (substr param j (i - j)) 0 ss in
            Query sentence start_page results_per_page ss)"

section \<open>The pages\<close>

definition http_response_header :: string where
  "http_response_header = ''HTTP/1.1 200 OK'' @ [CR, NL] @ ''Content-Type: text/html;charset=utf-8'' @ [CR, NL, CR, NL]"

definition style_head :: string where
  "style_head = ''<meta charset='utf-8'><link rel='stylesheet' type='text/css' href='/css/a_link.css'><link rel='stylesheet' type='text/css' href='/css/scrollbar_orange.css'>''"

definition body_style :: string where
  "body_style = ''html,body{background-color:#282a36;color:#868686;margin:0;}</style>''"

definition invalid_method_page :: string where
  "invalid_method_page =
     ''<html><head><title>Invalid Request Method(only GET supported)</title>'' @ style_head @ [TAB] @ ''<style> '' @ body_style @
     ''</head><body style='overflow-x:hidden'><h1 style='text-align:center;'>Invalid Request Method (only GET is allowed)</h1></body></html>''"

definition amigao_head :: string where
  "amigao_head = ''<html><head><title>amigao</title>'' @ style_head @
     ''<link rel='stylesheet' type='text/css' href='/css/paging.css'></link> <style> '' @ body_style"

definition nothing_page :: "string \<Rightarrow> string" where
  "nothing_page sentence = amigao_head @
     ''</head><body style='overflow-x:hidden'><h3>sorry,there are no result about:<br></h3>&nbsp;&nbsp;&nbsp;'' @ sentence @
     ''</body></html>''"

definition or_empty :: "string \<Rightarrow> string \<Rightarrow> string" where
  "or_empty s d = (if s = [] then d else s)"

definition result_item :: "search_result \<Rightarrow> nat \<Rightarrow> string" where
  "result_item r i =
     (let url = or_empty (get_url r i) ''#empty'';
          contents = or_empty (str2html (get_contents r i)) ''#empty'';
          title = or_empty (str2html (get_title r i)) url;
          time = or_empty (get_time r i) ''#empty''
      in ''<div><a href='http://'' @ url @ [SQUOTE] @ '' title='' @ sq url @ '' target='_blank' style='font-size:18px'>'' @ title @
         ''</a>&nbsp;&nbsp;&nbsp;&nbsp;'' @ time @ ''<br>&nbsp;&nbsp;&nbsp;&nbsp;&nbsp;'' @ contents @
         ''...<br><i>'' @ url @ ''</i></div><br>'')"

definition DFL_PAGES :: int where "DFL_PAGES = 7"

definition page_link :: "int \<Rightarrow> string \<Rightarrow> string" where
  "page_link page label = ''<li><a href='javascript:paging('' @ int_str page @ '')'' @ [SQUOTE] @ ''>'' @ label @ ''</a></li>''"

definition page_item :: "int \<Rightarrow> int \<Rightarrow> string" where
  "page_item start_page i =
     (if i = start_page then ''<li><a href='#' class='active'>'' @ int_str i @ ''</a></li>''
      else page_link i (int_str i))"

text \<open>The loop counts with a \<open>short\<close>.\<close>

partial_function (option) page_items :: "int \<Rightarrow> int \<Rightarrow> int \<Rightarrow> string \<Rightarrow> string option" where
  "page_items start_page i j paging =
     (if i \<le> j then page_items start_page (to_short (i + 1)) j (paging @ page_item start_page i) else Some paging)"

definition bar_open :: "int \<Rightarrow> string" where
  "bar_open pre = ''<div style='text-align:center;'><ul class='paging'>'' @ page_link pre [CHR 0xC2, CHR 0xAB]"

definition bar_close :: "int \<Rightarrow> string" where
  "bar_close next = page_link next [CHR 0xC2, CHR 0xBB] @ ''</ul></div></body></html>''"

definition page_bar :: "int \<Rightarrow> int \<Rightarrow> string option" where
  "page_bar start_page pages =
     (let i = to_short (start_page - DFL_PAGES div 2);
          pre = to_short (start_page - 1);
          next = to_short (start_page + 1);
          i = (if i < 1 then 1 else i);
          j = to_short (i + DFL_PAGES - 1);
          j = (if j > pages then pages else j);
          pre = (if pre < 1 then pages else pre);
          next = (if next > j then 1 else next)
      in map_option (\<lambda>p. p @ bar_close next) (page_items start_page i j (bar_open pre)))"

definition result_page :: "string \<Rightarrow> int \<Rightarrow> int \<Rightarrow> search_result \<Rightarrow> string option" where
  "result_page sentence start_page pages r =
     map_option (\<lambda>bar. amigao_head @ ''<script>function paging(page){window.parent.amigao_paging('' @ sq sentence @
         '',page,'' @ int_str pages @ '');}</script></head><body style='overflow-x:hidden'><h3 style='text-align:center'>'' @
         sentence @ ''</h3>'' @ concat (map (result_item r) [0..<length r]) @ bar)
       (page_bar start_page pages)"

section \<open>The server\<close>

text \<open>
  The answer is handed to \<open>FCGX_FPrintF\<close> as its format, without arguments: a percent sign not doubled
  reads an argument that is not there.
\<close>

fun format_only :: "string \<Rightarrow> string option" where
  "format_only [] = Some []"
| "format_only (c # s) =
     (if c = NUL then Some []
      else if c \<noteq> CHR ''%'' then map_option ((#) c) (format_only s)
      else case s of [] \<Rightarrow> None
      | d # s \<Rightarrow> if d = CHR ''%'' then map_option ((#) d) (format_only s) else None)"

datatype http_reply = Answered string | No_Answer | Server_Exit | Server_Undefined | Server_Looping

definition answer_with :: "string option \<Rightarrow> http_reply" where
  "answer_with page =
     (case page of None \<Rightarrow> Server_Looping
      | Some p \<Rightarrow> (case format_only (http_response_header @ p) of None \<Rightarrow> Server_Undefined | Some t \<Rightarrow> Answered t))"

text \<open>\<open>handle\<close> cuts the sentence it is given.\<close>

definition serve ::
    "(string \<Rightarrow> string list) \<Rightarrow> 'd database \<Rightarrow> int \<Rightarrow> (string set \<Rightarrow> string list) \<Rightarrow> string \<Rightarrow> string \<Rightarrow> sstream \<Rightarrow>
     ('d, http_reply \<times> sstream) op" where
  "serve jcut db max_insert hash method param ss =
     (if method \<noteq> ''GET'' then State_Monad.return (answer_with (Some invalid_method_page), ss)
      else case parse_query param ss of
        No_Query \<Rightarrow> State_Monad.return (No_Answer, ss)
      | Bad_Query \<Rightarrow> State_Monad.return (Server_Undefined, ss)
      | Query sentence start_page results_per_page ss \<Rightarrow> do {
          found \<leftarrow> handle jcut db max_insert hash sentence [] start_page results_per_page True;
          State_Monad.return (case found of
            Process_Exit \<Rightarrow> Server_Exit
          | Undefined \<Rightarrow> Server_Undefined
          | Found start_page pages r \<Rightarrow>
              (let sentence = substr sentence 0 MAX_SEARCH_SENTENCE_SIZE in
               answer_with
                 (if start_page < 0 \<or> pages < 0 then Some (nothing_page sentence)
                  else result_page sentence start_page pages r)), ss) })"

fun serve_all ::
    "(string \<Rightarrow> string list) \<Rightarrow> 'd database \<Rightarrow> int \<Rightarrow> (string set \<Rightarrow> string list) \<Rightarrow> (string \<times> string) list \<Rightarrow> sstream \<Rightarrow>
     ('d, http_reply list \<times> sstream) op" where
  "serve_all jcut db max_insert hash [] ss = State_Monad.return ([], ss)"
| "serve_all jcut db max_insert hash ((method, param) # reqs) ss = do {
     (reply, ss) \<leftarrow> serve jcut db max_insert hash method param ss;
     if reply \<in> {Server_Exit, Server_Undefined, Server_Looping} then State_Monad.return ([reply], ss)
     else do {
       (replies, ss) \<leftarrow> serve_all jcut db max_insert hash reqs ss;
       State_Monad.return (reply # replies, ss) } }"

section \<open>Reading the query string\<close>

lemma up_to_append: "c \<notin> set ys \<Longrightarrow> up_to c (xs @ ys @ c # zs) (length xs) = length xs + length ys"
  unfolding up_to_def by (rule scan_while_append) auto

lemma up_to_end: "c \<notin> set ys \<Longrightarrow> up_to c (xs @ ys) (length xs) = length xs + length ys"
  using scan_while_append[of ys "\<lambda>d. d \<noteq> c" "[]" "length xs" xs] by (auto simp: up_to_def)

lemma escape_url_no_sep: "CHR ''&'' \<notin> set (escape_url s)" "CHR ''='' \<notin> set (escape_url s)"
  by (auto dest!: url.enc_alphabet simp: url_plain_def is_alnum_code is_hex_out_def code_def)

lemma nat_str_no_sep: "CHR ''&'' \<notin> set (nat_str n)" "CHR ''='' \<notin> set (nat_str n)"
  by (auto dest!: nat_str_digits simp: is_digit_code code_def)

definition query_string :: "string \<Rightarrow> string \<Rightarrow> string \<Rightarrow> string" where
  "query_string s p r = ''q='' @ escape_url s @ ''&start_page='' @ p @ ''&results_per_page='' @ r"

text \<open>The three values, wherever they come from, and what the stream makes of the last two.\<close>

lemma parse_query_values:
  assumes "CHR ''&'' \<notin> set p" "CHR ''&'' \<notin> set r" "r \<noteq> []"
  shows "parse_query (query_string s p r) ss =
    (case read_short p 0 ss of (start_page, ss) \<Rightarrow>
       (case read_short r 0 ss of (results_per_page, ss) \<Rightarrow> Query s start_page results_per_page ss))"
proof -
  let ?q = "query_string s p r" and ?e = "escape_url s"
  define a where "a = length (''q='' @ ?e)"
  define b where "b = length (''q='' @ ?e @ ''&start_page='')"
  define c where "c = length (''q='' @ ?e @ ''&start_page='' @ p)"
  define d where "d = length (''q='' @ ?e @ ''&start_page='' @ p @ ''&results_per_page='')"
  have 1: "up_to CHR ''='' ?q 0 + 1 = Suc (Suc 0)"
    using up_to_append[of "CHR ''=''" "''q''" "[]"] by (simp add: query_string_def)
  have 2: "up_to CHR ''&'' ?q (Suc (Suc 0)) = a"
    using up_to_append[of "CHR ''&''" ?e "''q=''" "''start_page='' @ p @ ''&results_per_page='' @ r"] escape_url_no_sep
    by (simp add: query_string_def a_def)
  have 3: "up_to CHR ''='' ?q a + 1 = b"
    using up_to_append[of "CHR ''=''" "''&start_page''" "''q='' @ ?e" "p @ ''&results_per_page='' @ r"]
    by (simp add: query_string_def a_def b_def)
  have 4: "up_to CHR ''&'' ?q b = c"
    using up_to_append[of "CHR ''&''" p "''q='' @ ?e @ ''&start_page=''" "''results_per_page='' @ r"] assms(1)
    by (simp add: query_string_def b_def c_def)
  have 5: "up_to CHR ''='' ?q (c + 1) + 1 = d"
    using up_to_append[of "CHR ''=''" "''results_per_page''" "''q='' @ ?e @ ''&start_page='' @ p @ ''&''" r]
    by (simp add: query_string_def c_def d_def)
  have 6: "up_to CHR ''&'' ?q d = d + length r"
    using up_to_end[of "CHR ''&''" r "''q='' @ ?e @ ''&start_page='' @ p @ ''&results_per_page=''"] assms(2)
    by (simp add: query_string_def d_def)
  have n: "length ?q = d + length r" by (simp add: query_string_def d_def)
  have lt: "0 < length r" "Suc (Suc 0) \<le> a" "a < b" "b \<le> c" "c + 1 < d"
    using assms(3) by (simp_all add: a_def b_def c_def d_def)
  have v1: "substr ?q (Suc (Suc 0)) (a - Suc (Suc 0)) = ?e"
    using substr_middle[of "''q=''" ?e] by (simp add: query_string_def a_def)
  have v2: "substr ?q b (c - b) = p"
    using substr_middle[of "''q='' @ ?e @ ''&start_page=''" p "''&results_per_page='' @ r"]
    by (simp add: query_string_def b_def c_def)
  have v3: "substr ?q d (length r) = r"
    using substr_middle[of "''q='' @ ?e @ ''&start_page='' @ p @ ''&results_per_page=''" r "[]"]
    by (simp add: query_string_def d_def)
  have le: "\<not> d + length r \<le> Suc (Suc 0)" "\<not> d + length r \<le> b" "\<not> d + length r \<le> c + 1" "\<not> d + length r \<le> d"
    using lt by linarith+
  show ?thesis
    unfolding parse_query_def Let_def n 1 2 v1 url.roundtrip option.case 3 4 v2
    using le by (simp add: case_prod_unfold 5 6 v3 del: add_Suc_right One_nat_def)
qed

text \<open>
  C38. The server reads back what the form sends: whatever the sentence holds, encoded by \<open>escape_url\<close>, and
  for numbers written in decimal that fit into a \<open>short\<close>, on a stream that earlier requests left empty,
  which it is again afterwards.
\<close>

theorem parse_query_roundtrip:
  assumes "p \<le> 32767" "r \<le> 32767"
  shows "parse_query (query_string s (nat_str p) (nat_str r)) [] = Query s (int p) (int r) []"
proof -
  have "read_short (nat_str k) 0 [] = (int k, [])" if "k \<le> 32767" for k
    using that ss_get_int_nat_str[of k short_max short_min 0] by (simp add: read_short_def ss_put_def)
  then show ?thesis
    using parse_query_values[OF nat_str_no_sep(1) nat_str_no_sep(1), of r s p "[]"] assms by simp
qed

theorem parse_query_roundtrip_witness:
  "parse_query (query_string ''a b&c=d'' (nat_str 12) (nat_str 20)) [] = Query ''a b&c=d'' 12 20 []"
  using parse_query_roundtrip[of 12 20 "''a b&c=d''"] by simp

section \<open>The poisoned stream\<close>

text \<open>The queries of a list of requests, as the server reads them one after the other.\<close>

fun read_queries :: "string list \<Rightarrow> sstream \<Rightarrow> query list" where
  "read_queries [] ss = []"
| "read_queries (q # qs) ss =
     parse_query q ss # read_queries qs (case parse_query q ss of Query _ _ _ ss \<Rightarrow> ss | _ \<Rightarrow> ss)"

lemma stuck_read: "ss_stuck ss \<Longrightarrow> fst (read_short v 0 ss) = 0 \<and> ss_stuck (snd (read_short v 0 ss))"
  by (simp add: read_short_def ss_stuck_get_int ss_stuck_put)

lemma stuck_parse: "ss_stuck ss \<Longrightarrow> parse_query q ss = Query s p r ss' \<Longrightarrow> p = 0 \<and> r = 0 \<and> ss_stuck ss'"
  using stuck_read stuck_read[OF stuck_read[THEN conjunct2]]
  by (fastforce simp: parse_query_def Let_def case_prod_unfold split: option.splits if_splits)

text \<open>
  One request whose page number begins with a letter spoils all later ones: the text stays in the
  static stream, and from then on, for any queries at all, both numbers are read as 0 and the stream
  stays as it is.
\<close>

theorem page_number_poisons:
  assumes "\<not> is_space c" "\<not> is_digit c" "c \<notin> {CHR ''-'', CHR ''+'', CHR ''&''}" "CHR ''&'' \<notin> set v"
    and "Query t p' r' ss' \<in> set (read_queries (query_string s (c # v) (nat_str r) # qs) [])"
  shows "p' = 0 \<and> r' = 0"
proof -
  have get: "read_short (c # v) 0 [] = (0, c # v)"
    using assms(1-3) by (simp add: read_short_def ss_put_def ss_get_int_def ss_sign_def Let_def)
  have stuck: "ss_stuck (c # v)" using assms(1-3) by (auto simp: ss_stuck_def)
  have first: "parse_query (query_string s (c # v) (nat_str r)) [] = Query s 0 0 (snd (read_short (nat_str r) 0 (c # v)))"
    using parse_query_values[of "c # v" "nat_str r" s "[]"] assms(3,4) nat_str_no_sep get stuck_read[OF stuck, of "nat_str r"]
    by (auto simp: case_prod_unfold)
  have rest: "p' = 0 \<and> r' = 0" if "ss_stuck ss" "Query t p' r' ss' \<in> set (read_queries qs ss)" for ss
    using that
  proof (induction qs arbitrary: ss)
    case (Cons q qs)
    have n: "ss_stuck (case parse_query q ss of Query _ _ _ ss \<Rightarrow> ss | _ \<Rightarrow> ss)"
      using stuck_parse[OF Cons.prems(1)] Cons.prems(1) by (auto split: query.split)
    show ?case
      using Cons.prems(2) stuck_parse[OF Cons.prems(1), of q t p' r' ss'] Cons.IH[OF n] by auto
  qed simp
  show ?thesis
    using assms(5) rest[OF stuck_read[OF stuck, THEN conjunct2, of "nat_str r"]] by (auto simp: first)
qed

theorem page_number_poisons_witness:
  "\<exists>t p r ss. Query t p r ss \<in>
      set (read_queries [query_string ''x'' ''abc'' (nat_str 10), query_string ''y'' (nat_str 2) (nat_str 10)] []) \<and> t = ''y'' \<and> p = 0"
proof -
  let ?qs = "[query_string ''x'' ''abc'' (nat_str 10), query_string ''y'' (nat_str 2) (nat_str 10)]"
  have "CHR ''&'' \<notin> set ''abc''" by simp
  note v = parse_query_values[OF this nat_str_no_sep(1), of 10 "''x''" "[]"]
  obtain p r ss where "Query ''y'' p r ss \<in> set (read_queries ?qs [])"
    using v parse_query_values[OF nat_str_no_sep(1) nat_str_no_sep(1), of 10 "''y''" 2]
    by (auto simp: case_prod_unfold)
  moreover from page_number_poisons[of "CHR ''a''" "''bc''" "''y''" p r ss "''x''" 10 "[query_string ''y'' (nat_str 2) (nat_str 10)]", OF _ _ _ _ this]
  have "p = 0" by (simp add: is_space_def is_digit_code code_def)
  ultimately show ?thesis by blast
qed

section \<open>The page bar\<close>

lemma to_short_id: "short_min \<le> i \<Longrightarrow> i \<le> short_max \<Longrightarrow> to_short i = i"
  by (simp add: to_short_def)

lemma page_items_run:
  "short_min \<le> i \<Longrightarrow> j < short_max \<Longrightarrow> page_items p i j acc = Some (acc @ concat (map (page_item p) [i..j]))"
proof (induction "nat (j + 1 - i)" arbitrary: i acc)
  case 0
  then have "\<not> i \<le> j" by linarith
  then show ?case by (simp add: page_items.simps)
next
  case (Suc k)
  then have "i \<le> j" "k = nat (j + 1 - (i + 1))" by linarith+
  then show ?case
    using Suc.hyps(1)[of "i + 1" "acc @ page_item p i"] Suc.prems
    by (subst page_items.simps) (simp add: to_short_id upto_rec1)
qed

text \<open>
  For every page of a search with at most 32764 pages the bar shows seven pages around it, from the
  first one on, cut at the last page; the page itself is among them, and the arrows lead to the pages
  before and after it, around the ends.
\<close>

theorem page_bar_shows:
  assumes "1 \<le> p" "p \<le> n" "n \<le> 32764"
  defines "lo \<equiv> max 1 (p - 3)"
  shows "page_bar p n = Some (bar_open (if p = 1 then n else p - 1) @
      concat (map (page_item p) [lo..min n (lo + 6)]) @ bar_close (if p = n then 1 else p + 1)) \<and>
    p \<in> set [lo..min n (lo + 6)] \<and> set [lo..min n (lo + 6)] \<subseteq> {1..n}"
proof -
  have s: "to_short (p - 3) = p - 3" "to_short (p - 1) = p - 1" "to_short (p + 1) = p + 1" "to_short (lo + 6) = lo + 6"
    using assms by (auto intro!: to_short_id)
  have d: "DFL_PAGES div 2 = 3" "x + DFL_PAGES - 1 = x + 6" for x
    by (simp_all add: DFL_PAGES_def)
  have i: "(if p - 3 < 1 then 1 else p - 3) = lo" by (simp add: lo_def)
  have j: "(if lo + 6 > n then n else lo + 6) = min n (lo + 6)" by simp
  have pre: "(if p - 1 < 1 then n else p - 1) = (if p = 1 then n else p - 1)" using assms(1) by simp
  have nxt: "(if p + 1 > min n (lo + 6) then 1 else p + 1) = (if p = n then 1 else p + 1)"
    using assms by (auto simp: lo_def min_def max_def)
  have run: "page_items p lo (min n (lo + 6)) acc = Some (acc @ concat (map (page_item p) [lo..min n (lo + 6)]))" for acc
    using assms by (intro page_items_run) auto
  have bar: "page_bar p n = Some (bar_open (if p = 1 then n else p - 1) @
      concat (map (page_item p) [lo..min n (lo + 6)]) @ bar_close (if p = n then 1 else p + 1))"
    unfolding page_bar_def Let_def d s(1,2,3) i s(4) j pre nxt run by simp
  show ?thesis
    unfolding bar using assms by (auto simp: lo_def)
qed

theorem page_bar_shows_witness:
  "page_bar 5 6 = Some (bar_open 4 @ concat (map (page_item 5) [2..6]) @ bar_close 6)"
  using page_bar_shows[of 5 6] by simp

lemma page_items_wraps: "page_items p i j acc = Some r \<Longrightarrow> j = short_max \<longrightarrow> \<not> i \<le> short_max"
proof (induction rule: page_items.raw_induct [rotated 1, consumes 1])
  case (1 f p i j acc r)
  have "to_short (i + 1) \<le> short_max"
    using pos_mod_bound[of 65536 "i + 1 + 32768"] by (simp add: to_short_def)
  then show ?case
    using 1(1)[of p "to_short (i + 1)" j "acc @ page_item p i" r] 1(2) by (auto split: if_splits)
qed

text \<open>
  With as many pages as a \<open>short\<close> can count, the bar of a page near the end is never finished: the
  counter wraps below the bound it runs against.
\<close>

theorem page_bar_loops: "page_bar 32764 32767 = None"
proof -
  have "page_items 32764 32761 32767 acc = None" for acc
    using page_items_wraps[of 32764 32761 short_max acc] by (cases "page_items 32764 32761 32767 acc") auto
  then show ?thesis
    by (simp add: page_bar_def DFL_PAGES_def to_short_def)
qed

section \<open>The sentence in the answer\<close>

lemma format_plain:
  "CHR ''%'' \<notin> set x \<Longrightarrow> NUL \<notin> set x \<Longrightarrow> format_only (x @ y) = map_option ((@) x) (format_only y)"
proof (induction x)
  case Nil
  show ?case by (cases "format_only y") simp_all
next
  case (Cons c x)
  then show ?case by (cases "format_only y") auto
qed

definition plain_html :: "string \<Rightarrow> bool" where
  "plain_html x \<longleftrightarrow> CHR ''%'' \<notin> set x \<and> NUL \<notin> set x"

lemma plain_html_append [simp]: "plain_html (x @ y) \<longleftrightarrow> plain_html x \<and> plain_html y"
  by (auto simp: plain_html_def)

lemma amigao_head_plain: "plain_html (http_response_header @ amigao_head)"
  unfolding plain_html_append http_response_header_def amigao_head_def style_head_def body_style_def
  by (simp add: plain_html_def)

text \<open>Both pages that a search can end with show the sentence behind a fixed start.\<close>

definition paging_head :: string where
  "paging_head = ''<script>function paging(page){window.parent.amigao_paging('' @ [SQUOTE]"

definition nothing_head :: string where
  "nothing_head = ''</head><body style='overflow-x:hidden'><h3>sorry,there are no result about:<br></h3>&nbsp;&nbsp;&nbsp;''"

lemma heads_plain: "plain_html paging_head" "plain_html nothing_head"
  by (simp_all add: paging_head_def nothing_head_def plain_html_def)

lemma answer_shape:
  assumes "parse_query param ss = Query s p0 r0 ss0" "length s \<le> MAX_SEARCH_SENTENCE_SIZE"
    and "run_state (serve jcut db mi hash ''GET'' param ss) \<sigma> = ((Answered t, ss'), \<sigma>')"
  shows "\<exists>x y. plain_html x \<and> format_only (x @ s @ y) = Some t"
proof -
  have s: "substr s 0 MAX_SEARCH_SENTENCE_SIZE = s" using assms(2) by (simp add: substr_def)
  obtain out \<sigma>1 where h: "run_state (handle jcut db mi hash s [] p0 r0 True) \<sigma> = (out, \<sigma>1)" by fastforce
  have "(case out of Process_Exit \<Rightarrow> Server_Exit | Undefined \<Rightarrow> Server_Undefined
      | Found p n r \<Rightarrow> answer_with (if p < 0 \<or> n < 0 then Some (nothing_page s) else result_page s p n r)) = Answered t"
    using assms(1,3) h by (cases out) (auto simp: serve_def s)
  then obtain p n r where a: "answer_with (if p < 0 \<or> n < 0 then Some (nothing_page s) else result_page s p n r) = Answered t"
    by (cases out) auto
  obtain page where page: "(if p < 0 \<or> n < 0 then Some (nothing_page s) else result_page s p n r) = Some page"
    using a by (auto simp: answer_with_def split: option.splits)
  have f: "format_only (http_response_header @ page) = Some t"
    using a unfolding page by (simp add: answer_with_def split: option.splits)
  obtain x y where "page = amigao_head @ x @ s @ y" "plain_html x"
  proof (cases "p < 0 \<or> n < 0")
    case True
    then have "page = amigao_head @ nothing_head @ s @ ''</body></html>''"
      using page by (simp add: nothing_page_def nothing_head_def)
    then show ?thesis using that heads_plain(2) by blast
  next
    case False
    then obtain y where "page = amigao_head @ paging_head @ s @ y"
      using page by (auto simp: result_page_def paging_head_def sq_def)
    then show ?thesis using that heads_plain(1) by blast
  qed
  then show ?thesis
    using f amigao_head_plain by (intro exI[of _ "http_response_header @ amigao_head @ x"] exI[of _ y]) simp
qed

text \<open>
  The answer shows the sentence as it came, without escaping: whatever the database holds, a request
  whose sentence is markup gets it back in the page.
\<close>

theorem sentence_reflected:
  assumes "plain_html s" "length s \<le> MAX_SEARCH_SENTENCE_SIZE" "CHR ''&'' \<notin> set p" "CHR ''&'' \<notin> set r" "r \<noteq> []"
    and "run_state (serve jcut db mi hash ''GET'' (query_string s p r) ss) \<sigma> = ((Answered t, ss'), \<sigma>')"
  shows "\<exists>before after. t = before @ s @ after"
proof -
  obtain p0 r0 ss0 where q: "parse_query (query_string s p r) ss = Query s p0 r0 ss0"
    using parse_query_values[OF assms(3-5), of s ss] by (simp add: case_prod_unfold)
  obtain x y where "plain_html x" "format_only (x @ s @ y) = Some t"
    using answer_shape[OF q assms(2,6)] by blast
  then show ?thesis
    using assms(1) by (auto simp: format_plain plain_html_def)
qed

text \<open>A search for which the segmenter finds no word.\<close>

lemma serve_wordless:
  assumes "plain_html s" "s \<noteq> []" "length s \<le> MAX_SEARCH_SENTENCE_SIZE" "parse_query param ss = Query s p0 r0 ss0"
  shows "\<exists>t \<sigma>'. run_state (serve (\<lambda>_. []) db mi (\<lambda>_. []) ''GET'' param ss) \<sigma> = ((Answered t, ss0), \<sigma>')"
proof -
  have s: "substr s 0 MAX_SEARCH_SENTENCE_SIZE = s" using assms(3) by (simp add: substr_def)
  obtain \<sigma>' where h: "run_state (handle (\<lambda>_. []) db mi (\<lambda>_. []) s [] p0 r0 True) \<sigma> = (Found (-1) (-1) [], \<sigma>')"
    using assms(2) by (simp add: handle_def search_words_def batches_def get_db_def answer_page_def recycle_db_def Let_def)
  have "plain_html (http_response_header @ nothing_page s)"
    using assms(1) amigao_head_plain heads_plain(2) unfolding nothing_page_def nothing_head_def[symmetric]
    by (simp add: plain_html_def)
  then have "format_only (http_response_header @ nothing_page s) = Some (http_response_header @ nothing_page s)"
    using format_plain[of "http_response_header @ nothing_page s" "[]"] by (simp add: plain_html_def)
  then show ?thesis
    using assms(4) h by (simp add: serve_def s answer_with_def)
qed

theorem sentence_reflected_witness:
  "\<forall>\<sigma>. \<exists>t before after \<sigma>'. run_state (serve (\<lambda>_. []) empty_server 1000 (\<lambda>_. []) ''GET'' (query_string ''<b>x'' ''1'' ''10'') []) \<sigma> =
      ((Answered t, []), \<sigma>') \<and> t = before @ ''<b>x'' @ after"
proof (rule allI)
  fix \<sigma>
  have a: "plain_html ''<b>x''" "''<b>x'' \<noteq> []" "length ''<b>x'' \<le> MAX_SEARCH_SENTENCE_SIZE"
    by (simp_all add: plain_html_def MAX_SEARCH_SENTENCE_SIZE_def)
  have q: "parse_query (query_string ''<b>x'' ''1'' ''10'') [] = Query ''<b>x'' 1 10 []"
    using parse_query_values[of "''1''" "''10''" "''<b>x''" "[]"]
    by (simp add: read_short_def ss_put_def ss_get_int_def is_space_def is_digit_code code_def ss_sign_def digits_val_def)
  obtain t \<sigma>' where r: "run_state (serve (\<lambda>_. []) empty_server 1000 (\<lambda>_. []) ''GET'' (query_string ''<b>x'' ''1'' ''10'') []) \<sigma> =
      ((Answered t, []), \<sigma>')"
    using serve_wordless[OF a q] by blast
  have "CHR ''&'' \<notin> set ''1''" "CHR ''&'' \<notin> set ''10''" "''10'' \<noteq> []" by simp_all
  from sentence_reflected[OF a(1,3) this r] r
  show "\<exists>t before after \<sigma>'. run_state (serve (\<lambda>_. []) empty_server 1000 (\<lambda>_. []) ''GET'' (query_string ''<b>x'' ''1'' ''10'') []) \<sigma> =
      ((Answered t, []), \<sigma>') \<and> t = before @ ''<b>x'' @ after"
    by blast
qed

text \<open>
  A sentence with a percent sign that is not doubled is never answered: the page is used as the format
  of \<open>FCGX_FPrintF\<close>.
\<close>

theorem percent_never_answered:
  assumes "s = u @ CHR ''%'' # c # v" "plain_html u" "c \<noteq> CHR ''%''" "length s \<le> MAX_SEARCH_SENTENCE_SIZE"
    "CHR ''&'' \<notin> set p" "CHR ''&'' \<notin> set r" "r \<noteq> []"
  shows "fst (fst (run_state (serve jcut db mi hash ''GET'' (query_string s p r) ss) \<sigma>)) \<noteq> Answered t"
proof
  assume a: "fst (fst (run_state (serve jcut db mi hash ''GET'' (query_string s p r) ss) \<sigma>)) = Answered t"
  then obtain ss' \<sigma>' where run: "run_state (serve jcut db mi hash ''GET'' (query_string s p r) ss) \<sigma> = ((Answered t, ss'), \<sigma>')"
    by (metis prod.collapse)
  obtain p0 r0 ss0 where q: "parse_query (query_string s p r) ss = Query s p0 r0 ss0"
    using parse_query_values[OF assms(5-7), of s ss] by (simp add: case_prod_unfold)
  obtain x y where "plain_html x" "format_only (x @ s @ y) = Some t"
    using answer_shape[OF q assms(4) run] by blast
  then show False
    using assms(2,3) format_plain[of x] format_plain[of u] by (simp add: assms(1) plain_html_def)
qed

theorem percent_never_answered_witness:
  "\<forall>\<sigma> t. fst (fst (run_state (serve (\<lambda>_. []) empty_server 1000 (\<lambda>_. []) ''GET'' (query_string ''50% off'' ''1'' ''10'') []) \<sigma>)) \<noteq> Answered t"
  by (intro allI, rule percent_never_answered[where u = "''50''" and c = "CHR '' ''" and v = "''off''"])
    (simp_all add: plain_html_def MAX_SEARCH_SENTENCE_SIZE_def)

end
