(* ===== verification/SearchRank.thy ===== *)
theory SearchRank
  imports Search
begin

text \<open>
  From the sentence to the results: what \<open>PlainSearchStrategy::handle\<close> does against a server that holds a
  dictionary, posting rows and pages.
\<close>

section \<open>Batches that fit\<close>

lemma gather_one:
  "int (length tail + sum_list (map (\<lambda>w. length (item w)) ws) + prefix + extra) \<le> max_insert \<Longrightarrow>
   \<forall>w \<in> set ws. length w \<le> length (item w) \<Longrightarrow>
     gather max_insert prefix item extra ws tail = ([], tail @ concat (map item ws))"
proof (induction ws arbitrary: tail)
  case (Cons w ws)
  have "int (length (tail @ item w) + sum_list (map (\<lambda>w. length (item w)) ws) + prefix + extra) \<le> max_insert"
    using Cons.prems(1) by simp
  moreover have "\<not> int (length tail + prefix + length w + extra) > max_insert" using Cons.prems by auto
  ultimately show ?case using Cons.IH[of "tail @ item w"] Cons.prems(2) by simp
qed simp

lemma batches_one:
  assumes "int (sum_list (map (\<lambda>w. length (item w)) ws) + prefix + extra) \<le> max_insert"
    and "\<forall>w \<in> set ws. length w \<le> length (item w)" "ws \<noteq> []" "\<forall>w \<in> set ws. extra < length (item w)"
  shows "batches max_insert prefix item extra ws = [concat (map item ws)]"
proof -
  have "extra < length (concat (map item ws))" using assms(3,4) by (cases ws) auto
  then show ?thesis using gather_one[of "[]" item ws prefix extra max_insert] assms(1,2) by (simp add: batches_def)
qed

section \<open>Adding up posting rows\<close>

definition weight_in :: "(nat \<times> nat) list \<Rightarrow> nat \<Rightarrow> nat" where
  "weight_in ps v = (case map_of (map (\<lambda>(k, u). (u, k)) ps) v of None \<Rightarrow> 0 | Some k \<Rightarrow> k)"

definition row_ok :: "(nat \<times> nat) list \<Rightarrow> bool" where
  "row_ok ps \<longleftrightarrow> ps \<noteq> [] \<and> distinct (map snd ps) \<and> 0 \<notin> snd ` set ps \<and> (\<forall>p \<in> set ps. fst p < 2 ^ 32)"

definition sum_at :: "(string \<rightharpoonup> 64 word) \<Rightarrow> nat \<Rightarrow> 64 word" where
  "sum_at m v = (case m (nat_str v) of None \<Rightarrow> 0 | Some x \<Rightarrow> x)"

lemma weight_in_member: "distinct (map snd ps) \<Longrightarrow> (k, v) \<in> set ps \<Longrightarrow> weight_in ps v = k"
  by (induction ps) (auto simp: weight_in_def image_iff split: if_splits)

lemma weight_in_other: "v \<notin> snd ` set ps \<Longrightarrow> weight_in ps v = 0"
  by (induction ps) (auto simp: weight_in_def split: option.splits)

lemma parse_row:
  assumes "row_ok ps"
  shows "\<exists>m'. parse_weight (row ps) occ m = Some m' \<and> dom m' = dom m \<union> nat_str ` snd ` set ps \<and>
    (\<forall>v. sum_at m' v = sum_at m v + ucast ((of_nat (weight_in ps v) :: 32 word) * of_int occ))"
proof -
  have ok: "ps \<noteq> []" "distinct (map snd ps)" "0 \<notin> snd ` set ps" "\<forall>p \<in> set ps. fst p < 2 ^ 32"
    using assms by (simp_all add: row_ok_def)
  obtain m' where m: "parse_weight (row ps) occ m = Some m'"
    "\<forall>(w, v) \<in> set ps. v \<noteq> 0 \<longrightarrow> m' (nat_str v) =
       Some ((case m (nat_str v) of None \<Rightarrow> 0 | Some x \<Rightarrow> x) + ucast ((of_nat w :: 32 word) * of_int occ))"
    "\<forall>k. k \<notin> nat_str ` (snd ` set ps) \<longrightarrow> m' k = m k"
    using parse_weight_adds[OF ok(1,2,4), of occ m] by blast
  have in_row: "m' (nat_str v) = Some (sum_at m v + ucast ((of_nat (weight_in ps v) :: 32 word) * of_int occ))"
    if v: "v \<in> snd ` set ps" for v
  proof -
    obtain w where w: "(w, v) \<in> set ps" using v by auto
    have "v \<noteq> 0" using ok(3) v by metis
    then show ?thesis using m(2) w weight_in_member[OF ok(2) w] by (auto simp: sum_at_def)
  qed
  have out: "m' (nat_str v) = m (nat_str v)" if "v \<notin> snd ` set ps" for v
    using m(3) that by (auto simp: inj_image_mem_iff inj_def)
  have "sum_at m' v = sum_at m v + ucast ((of_nat (weight_in ps v) :: 32 word) * of_int occ)" for v
    using in_row[of v] out[of v] weight_in_other[of v ps] by (cases "v \<in> snd ` set ps") (auto simp: sum_at_def)
  moreover have "k \<in> dom m' \<longleftrightarrow> k \<in> dom m \<union> nat_str ` snd ` set ps" for k
    using m(3) in_row by (cases "k \<in> nat_str ` snd ` set ps") auto
  ultimately show ?thesis using m(1) by blast
qed

lemma sum_rows:
  assumes "\<forall>(n, ps) \<in> set rows. row_ok ps"
  shows "\<exists>m'. sum_weights (map (\<lambda>(n, ps). (nat_str n, row ps)) rows) times_no m = Some m' \<and>
    dom m' = dom m \<union> nat_str ` (\<Union>(n, ps) \<in> set rows. snd ` set ps) \<and>
    (\<forall>v. sum_at m' v = sum_at m v +
      (\<Sum>(n, ps)\<leftarrow>rows. ucast ((of_nat (weight_in ps v) :: 32 word) * of_int (times_no (nat_str n)))))"
  using assms
proof (induction rows arbitrary: m)
  case (Cons r rows)
  obtain n ps where r: "r = (n, ps)" by fastforce
  obtain m1 where m1: "parse_weight (row ps) (times_no (nat_str n)) m = Some m1" "dom m1 = dom m \<union> nat_str ` snd ` set ps"
    "\<forall>v. sum_at m1 v = sum_at m v + ucast ((of_nat (weight_in ps v) :: 32 word) * of_int (times_no (nat_str n)))"
    using parse_row[of ps "times_no (nat_str n)" m] Cons.prems r by auto
  obtain m2 where m2: "sum_weights (map (\<lambda>(n, ps). (nat_str n, row ps)) rows) times_no m1 = Some m2"
    "dom m2 = dom m1 \<union> nat_str ` (\<Union>(n, ps) \<in> set rows. snd ` set ps)"
    "\<forall>v. sum_at m2 v = sum_at m1 v +
      (\<Sum>(n, ps)\<leftarrow>rows. ucast ((of_nat (weight_in ps v) :: 32 word) * of_int (times_no (nat_str n))))"
    using Cons.IH[of m1] Cons.prems by auto
  show ?case
    using m1 m2 by (auto simp: r image_Un Un_assoc intro!: exI[of _ m2])
qed simp

section \<open>The score of a page\<close>

text \<open>How often the sentence has the word with a number, and what a page scores: weights times occurrences.\<close>

definition occurrences :: "(string \<times> nat) list \<Rightarrow> string list \<Rightarrow> nat \<Rightarrow> nat" where
  "occurrences dict ws n = (case map_of (map (\<lambda>(w, k). (k, w)) dict) n of None \<Rightarrow> 0 | Some w \<Rightarrow> count_list ws w)"

definition score :: "(string \<times> nat) list \<Rightarrow> (nat \<times> (nat \<times> nat) list) list \<Rightarrow> string list \<Rightarrow> nat \<Rightarrow> nat" where
  "score dict posts ws v = (\<Sum>(n, ps)\<leftarrow>posts. weight_in ps v * occurrences dict ws n)"

definition urls_in :: "(nat \<times> (nat \<times> nat) list) list \<Rightarrow> nat set" where
  "urls_in posts = (\<Union>(n, ps) \<in> set posts. snd ` set ps)"

lemma count_words_value:
  assumes "length ws \<le> 32767"
  shows "times_of (count_words ws) w = int (count_list ws w)"
proof -
  define step where "step m a = m(a \<mapsto> (case m a of None \<Rightarrow> 1 | Some k \<Rightarrow> to_short (k + 1)))" for m :: "string \<rightharpoonup> int" and a
  have "times_of (foldl step m ws) x = times_of m x + int (count_list ws x)"
    if "\<forall>y. 0 \<le> times_of m y \<and> times_of m y + int (length ws) \<le> 32767" for m x
    using that
  proof (induction ws arbitrary: m)
    case (Cons a ws)
    have b: "0 \<le> times_of m y" "times_of m y + 1 + int (length ws) \<le> 32767" for y
      using Cons.prems by (simp_all add: algebra_simps)
    have s: "times_of (step m a) y = times_of m y + (if y = a then 1 else 0)" for y
      using b[of a] by (auto simp: times_of_def to_short_def step_def split: option.splits)
    have "0 \<le> times_of (step m a) y \<and> times_of (step m a) y + int (length ws) \<le> 32767" for y
      unfolding s using b[of y] by auto
    then have "\<forall>y. 0 \<le> times_of (step m a) y \<and> times_of (step m a) y + int (length ws) \<le> 32767" by blast
    from Cons.IH[OF this] show ?case by (simp add: s)
  qed simp
  from this[of Map.empty] show ?thesis using assms by (simp add: count_words_def times_of_def step_def[abs_def])
qed

lemma map_of_rev_distinct: "distinct (map fst xs) \<Longrightarrow> map_of (rev xs) = map_of xs"
  by (simp add: map_of_inject_set flip: rev_map)

lemma word_times:
  assumes "distinct (map snd dict)" "length ws \<le> 32767"
  shows "times_of (map_of (rev (map (\<lambda>cs. (cs ! 1, times_of (count_words ws) (hd cs)))
      (map (\<lambda>(w, n). [w, nat_str n]) dict)))) (nat_str n) = int (occurrences dict ws n)"
proof -
  let ?l = "map (\<lambda>(w, k). (nat_str k, int (count_list ws w))) dict"
  have l: "map (\<lambda>cs. (cs ! 1, times_of (count_words ws) (hd cs))) (map (\<lambda>(w, n). [w, nat_str n]) dict) = ?l"
    by (simp add: count_words_value[OF assms(2)] case_prod_unfold comp_def)
  have "distinct (map fst ?l)"
  proof -
    have "map fst ?l = map nat_str (map snd dict)" by (simp add: case_prod_unfold comp_def)
    then show ?thesis using assms(1) by (simp only: distinct_map) (simp add: inj_on_def distinct_map)
  qed
  then have "map_of (rev ?l) = map_of ?l" by (rule map_of_rev_distinct)
  moreover have "times_of (map_of ?l) (nat_str n) = int (occurrences dict ws n)" unfolding occurrences_def
    by (induction dict) (auto simp: times_of_def)
  ultimately show ?thesis by (simp only: l)
qed

lemma sum_words_nat:
  "\<forall>x \<in> set xs. f x < 2 ^ 32 \<Longrightarrow>
     (\<Sum>x\<leftarrow>xs. ucast (of_nat (f x) :: 32 word)) = (of_nat (\<Sum>x\<leftarrow>xs. f x) :: 64 word)"
proof (induction xs)
  case (Cons x xs)
  have "ucast (of_nat (f x) :: 32 word) = (of_nat (f x) :: 64 word)"
  proof -
    have "unat (of_nat (f x) :: 32 word) = f x" using Cons.prems by (simp add: unat_of_nat)
    then show ?thesis by (metis of_nat_unat)
  qed
  then show ?case using Cons by simp
qed simp

text \<open>The sums do not wrap when the score is less than \<open>2 ^ 32\<close>, in whatever order the rows are added up.\<close>

lemma rows_scored:
  assumes "\<forall>(n, ps) \<in> set rows. row_ok ps" "mset rows = mset posts"
    and "\<forall>v. score dict posts ws v < 2 ^ 32" "\<forall>n. times_no (nat_str n) = int (occurrences dict ws n)"
  shows "\<exists>m. sum_weights (map (\<lambda>(n, ps). (nat_str n, row ps)) rows) times_no Map.empty = Some m \<and>
    dom m = nat_str ` urls_in posts \<and> (\<forall>v. unat (sum_at m v) = score dict posts ws v)"
proof -
  let ?f = "\<lambda>v (n, ps). weight_in ps v * occurrences dict ws n"
  obtain m where m: "sum_weights (map (\<lambda>(n, ps). (nat_str n, row ps)) rows) times_no Map.empty = Some m"
    "dom m = nat_str ` (\<Union>(n, ps) \<in> set rows. snd ` set ps)"
    "\<forall>v. sum_at m v = (\<Sum>(n, ps)\<leftarrow>rows. ucast ((of_nat (weight_in ps v) :: 32 word) * of_int (times_no (nat_str n))))"
    using sum_rows[OF assms(1), of times_no Map.empty] by (auto simp: sum_at_def)
  have total: "(\<Sum>x\<leftarrow>rows. ?f v x) = score dict posts ws v" for v
    unfolding score_def sum_mset_sum_list[symmetric] mset_map assms(2) by (simp add: case_prod_unfold)
  have "unat (sum_at m v) = score dict posts ws v" for v
  proof -
    have "?f v x \<le> (\<Sum>x\<leftarrow>rows. ?f v x)" if "x \<in> set rows" for x
      using that by (intro member_le_sum_list) auto
    then have small: "\<forall>x \<in> set rows. ?f v x < 2 ^ 32" using assms(3) unfolding total by (meson le_less_trans)
    have "sum_at m v = (\<Sum>x\<leftarrow>rows. ucast (of_nat (?f v x) :: 32 word))"
      using m(3) assms(4) by (simp add: case_prod_unfold)
    also have "\<dots> = of_nat (score dict posts ws v)" unfolding sum_words_nat[OF small] total ..
    finally have s: "sum_at m v = of_nat (score dict posts ws v)" .
    have "score dict posts ws v < 2 ^ 64" using assms(3)[rule_format, of v] by simp
    then show ?thesis unfolding s by (simp add: unat_of_nat)
  qed
  moreover have "(\<Union>(n, ps) \<in> set rows. snd ` set ps) = urls_in posts"
    using assms(2) by (simp add: urls_in_def flip: set_mset_mset)
  ultimately show ?thesis using m(1,2) by auto
qed

text \<open>A hash table with the numbers of the rows as keys is read in some order of the rows.\<close>

lemma hashed_rows:
  assumes "distinct (map fst posts)" "set L = nat_str ` fst ` set posts" "distinct L"
  defines "table \<equiv> map_of (rev (map (\<lambda>cs. (hd cs, cs ! 1)) (map (\<lambda>(n, ps). [nat_str n, row ps]) posts)))"
  shows "\<exists>rows. mset rows = mset posts \<and> map (\<lambda>no. (no, the (table no))) L = map (\<lambda>(n, ps). (nat_str n, row ps)) rows"
proof -
  let ?l = "map (\<lambda>(n, ps). (nat_str n, row ps)) posts"
  have "map fst ?l = map nat_str (map fst posts)" by (simp add: case_prod_unfold comp_def)
  then have d: "distinct (map fst ?l)" using assms(1) by (simp only: distinct_map) (simp add: inj_on_def distinct_map)
  have "table = map_of (rev ?l)" by (simp add: table_def case_prod_unfold comp_def)
  then have t: "table = map_of ?l" using map_of_rev_distinct[OF d] by simp
  define pick where "pick no = (digits_val no, the (map_of posts (digits_val no)))" for no
  have pick: "pick (nat_str n) = (n, ps) \<and> table (nat_str n) = Some (row ps)" if "(n, ps) \<in> set posts" for n ps
    using that assms(1) d unfolding t pick_def by (auto intro!: map_of_is_SomeI)
  have L: "no \<in> set L \<Longrightarrow> \<exists>n ps. (n, ps) \<in> set posts \<and> no = nat_str n" for no using assms(2) by auto
  have "set (map pick L) = set posts"
    using pick assms(2) by (auto simp: image_image) (metis image_eqI fst_conv)
  moreover have "distinct (map pick L)"
    using assms(3) L by (auto simp: distinct_map inj_on_def pick_def) (metis digits_val_nat_str)
  moreover have "distinct posts" using assms(1) by (simp add: distinct_map)
  ultimately have "mset (map pick L) = mset posts" by (metis set_eq_iff_mset_eq_distinct)
  moreover have "map (\<lambda>no. (no, the (table no))) L = map (\<lambda>(n, ps). (nat_str n, row ps)) (map pick L)"
    using L pick by (fastforce intro!: map_cong simp: comp_def)
  ultimately show ?thesis by blast
qed

section \<open>The server\<close>

text \<open>What the server holds is read only: a query is answered with the same rows in every state.\<close>

definition answers :: "'d database \<Rightarrow> string \<Rightarrow> string list list \<Rightarrow> bool" where
  "answers db q rows \<longleftrightarrow> (\<forall>d. db d q = (Rows rows, d))"

definition page_row :: "string \<times> string \<times> string \<times> string \<Rightarrow> string list" where
  "page_row = (\<lambda>(url, title, contents, time). [crypt url, crypt title, crypt contents, time])"

definition page_result :: "string \<times> string \<times> string \<times> string \<Rightarrow> result_node" where
  "page_result = (\<lambda>(url, title, contents, time). \<lparr>node_url = url, node_title = substr title 0 MAX_CONTENTS_SIZE,
     node_contents = substr contents 0 MAX_CONTENTS_SIZE, node_html = [], node_time = time\<rparr>)"

definition page_query :: "string list \<Rightarrow> string" where
  "page_query us = concat (map or_no us) @ ''order by field(no'' @ concat (map (\<lambda>u. '','' @ sq u) us) @ '') ''"

lemma add_rows_pages: "add_rows (map page_row ps) r = Some (r @ map page_result ps)"
  by (induction ps arbitrary: r) (auto simp: page_row_def page_result_def add_result_def sql.roundtrip)

lemma ask_answers:
  "answers db (p @ e) rows \<Longrightarrow> run_state (ask db p [e]) s = (Some rows, s\<lparr>sent := sent s @ [p @ e]\<rparr>)"
  by (simp add: answers_def real_query_def)

lemma page_query_batch:
  assumes "us \<noteq> []" "length us \<le> 50" "\<forall>u \<in> set us. u \<noteq> [] \<and> length u \<le> 20" "3145728 \<le> max_insert"
  shows "page_batches max_insert us [] [] = [page_query us]"
proof -
  have "9 < length (concat (map or_no us))" using assms(1,3) by (cases us) (auto simp: or_no_def sq_def)
  moreover have "int (length ([] :: string) + 29 * length us + 42) \<le> max_insert" using assms(2,4) by simp
  ultimately show ?thesis
    using page_batches_one[of us "[]" max_insert "[]"] assms(3) by (simp add: page_query_def del: append_Cons)
qed

lemma sort_perm: "mset xs = mset ys \<Longrightarrow> sort xs = sort ys"
  by (metis sorted_list_of_multiset_mset)

lemma answer_page_results:
  assumes "set (hash (dom sums)) = nat_str ` urls" "distinct (hash (dom sums))" "finite urls"
    and "page_window p r (card urls) = Some (s, e, t)" "1 \<le> p" "1 \<le> r" "r \<le> 50"
    and "\<forall>v \<in> urls. length (nat_str v) \<le> 20" "3145728 \<le> max_insert"
    and "\<forall>us. us \<noteq> [] \<and> distinct us \<and> set us \<subseteq> urls \<longrightarrow>
      answers db (get_page_urls @ page_query (map nat_str us)) (map (\<lambda>v. page_row (page v)) us)"
  shows "\<exists>us st'. run_state (answer_page db max_insert hash sums p r []) st =
      (Found p (to_short t) (map (\<lambda>v. page_result (page v)) us), st') \<and> taken st' = taken st - 1 \<and>
    distinct us \<and> set us \<subseteq> urls \<and> map (\<lambda>v. unat (sum_at sums v)) us =
      take (nat e + 1 - nat s) (drop (nat s) (rev (sort (map (\<lambda>v. unat (sum_at sums v)) (sorted_list_of_set urls)))))"
proof -
  let ?L = "hash (dom sums)" and ?key = "\<lambda>u. unat (case sums u of None \<Rightarrow> 0 | Some x \<Rightarrow> x)" and ?val = "\<lambda>v. unat (sum_at sums v)"
  have card: "length ?L = card urls"
    using assms(1,2) by (metis card_image distinct_card inj_onI nat_str_inj)
  note w = real_window[OF assms(4-6), folded card]
  let ?page = "select_page ?key ?L (nat s) (nat e)"
  note sel = select_page_props[OF w(1,2), of ?key]
  define us where "us = map digits_val ?page"
  have sub: "set ?page \<subseteq> nat_str ` urls" using sel assms(1) by blast
  have page: "?page = map nat_str us"
    unfolding us_def map_map using sub by (intro map_idI[symmetric]) auto
  have us: "distinct us" "set us \<subseteq> urls"
    using sel assms(2) sub unfolding page by (auto simp: distinct_map inj_image_subset_iff inj_def)
  have len: "length ?page = nat e + 1 - nat s" using w(1) by (auto simp: select_page_def Let_def)
  have ne: "?page \<noteq> []" using len w(1) by auto
  have q: "page_batches max_insert ?page [] [] = [page_query ?page]"
    using len w assms(5-9) us ne unfolding page by (intro page_query_batch) auto
  have keys: "map ?key (map nat_str vs) = map ?val vs" for vs by (simp add: sum_at_def)
  have perm: "sort (map ?key ?L) = sort (map ?val (sorted_list_of_set urls))"
  proof -
    have "mset ?L = mset (map nat_str (sorted_list_of_set urls))"
      using assms(1-3) by (intro set_eq_iff_mset_eq_distinct[THEN iffD1]) (auto simp: distinct_map inj_on_def)
    then have "mset (map ?key ?L) = mset (map ?key (map nat_str (sorted_list_of_set urls)))" unfolding mset_map by simp
    then show ?thesis unfolding keys by (rule sort_perm)
  qed
  have vals: "map ?val us = take (nat e + 1 - nat s) (drop (nat s) (rev (sort (map ?val (sorted_list_of_set urls)))))"
    using sel unfolding page keys perm by blast
  have a: "answers db (get_page_urls @ page_query ?page) (map page_row (map page us))"
    using assms(10) us ne unfolding page by (simp add: comp_def)
  have "?L \<noteq> []" using w(2) by auto
  then have "run_state (answer_page db max_insert hash sums p r []) st =
      (Found p (to_short t) (map page_result (map page us)), st\<lparr>sent := sent st @ [get_page_urls @ page_query ?page], taken := taken st - 1\<rparr>)"
    unfolding answer_page_def Let_def card assms(4) option.case prod.case q
    using ask_answers[OF a, of st] add_rows_pages[of "map page us" "[]"] by (simp add: recycle_db_def del: ask.simps)
  then show ?thesis using us vals by (intro exI[of _ us] exI) (auto simp: comp_def)
qed

section \<open>handle\<close>

definition lists_keys :: "(string set \<Rightarrow> string list) \<Rightarrow> string set \<Rightarrow> bool" where
  "lists_keys hash S \<longleftrightarrow> set (hash S) = S \<and> distinct (hash S)"

lemma sum_list_le: "\<forall>x \<in> set xs. f x \<le> k \<Longrightarrow> sum_list (map f xs) \<le> (k :: nat) * length xs"
  by (induction xs) auto

lemma search_words_length: "w \<in> set (search_words jcut s) \<Longrightarrow> w \<noteq> [] \<and> length w \<le> 765"
proof -
  assume "w \<in> set (search_words jcut s)"
  then obtain e where "w = crypt e" "e \<noteq> []" "length e \<le> 255" by (auto simp: search_words_def WORD_SIZE_def)
  then show ?thesis using sql.enc_length[of e] crypt_nonempty[of e] by auto
qed

lemma word_batch:
  assumes "ws = search_words jcut s" "ws \<noteq> []" "length ws \<le> 300" "3145728 \<le> max_insert" "prefix \<le> 100"
  shows "batches max_insert prefix or_word 11 ws = [concat (map or_word ws)]"
proof (rule batches_one)
  have w: "w \<in> set ws \<Longrightarrow> w \<noteq> [] \<and> length w \<le> 765" for w using search_words_length[of w jcut s] assms(1) by blast
  have l: "length (or_word w) = length w + 11" for w by (simp add: or_word_def sq_def)
  have "sum_list (map (\<lambda>w. length (or_word w)) ws) \<le> 776 * length ws" using w by (intro sum_list_le) (auto simp: l)
  then show "int (sum_list (map (\<lambda>w. length (or_word w)) ws) + prefix + 11) \<le> max_insert" using assms(3-5) by linarith
  show "\<forall>w \<in> set ws. length w \<le> length (or_word w)" "\<forall>w \<in> set ws. 11 < length (or_word w)" using w by (auto simp: l)
qed (rule assms(2))

lemma number_batch:
  assumes "ns \<noteq> []" "length ns \<le> 300" "\<forall>n \<in> set ns. n \<noteq> [] \<and> length n \<le> 20" "3145728 \<le> max_insert" "prefix \<le> 100"
  shows "batches max_insert prefix or_no 9 ns = [concat (map or_no ns)]"
proof (rule batches_one)
  have l: "length (or_no n) = length n + 9" for n by (simp add: or_no_def sq_def)
  have "sum_list (map (\<lambda>n. length (or_no n)) ns) \<le> 29 * length ns" using assms(3) by (intro sum_list_le) (auto simp: l)
  then show "int (sum_list (map (\<lambda>n. length (or_no n)) ns) + prefix + 9) \<le> max_insert" using assms(2,4,5) by linarith
  show "\<forall>n \<in> set ns. length n \<le> length (or_no n)" "\<forall>n \<in> set ns. 9 < length (or_no n)" using assms(3) by (auto simp: l)
qed (rule assms(1))

text \<open>
  C12. The search as a whole, against a server that holds a dictionary, posting rows in the form
  \<open>ReverseValuateStrategy\<close> writes, and pages.  The answer is the page of results that was asked for: distinct
  addresses from the posting rows of the words of the sentence, in falling order of their scores (the weights
  in the rows times the occurrences of the words), at the positions of that page among all scores, each with
  its address, title and contents unescaped; the connection is given back.  Scores below \<open>2 ^ 32\<close> do not
  wrap; a sentence of ninety bytes has fewer than 300 words.
\<close>

theorem handle_ranks:
  assumes "sentence \<noteq> []" "ws = search_words jcut (substr sentence 0 MAX_SEARCH_SENTENCE_SIZE)" "ws \<noteq> []" "length ws \<le> 300"
    and dict: "answers db (find_word @ concat (map or_word ws)) (map (\<lambda>(w, n). [w, nat_str n]) dict)"
      "dict \<noteq> []" "length dict \<le> 300" "distinct (map snd dict)" "\<forall>(w, n) \<in> set dict. length (nat_str n) \<le> 20"
    and posts: "answers db (find_wordno_weight @ concat (map (\<lambda>(w, n). or_no (nat_str n)) dict))
        (map (\<lambda>(n, ps). [nat_str n, row ps]) posts)"
      "distinct (map fst posts)" "\<forall>(n, ps) \<in> set posts. row_ok ps" "\<forall>v. score dict posts ws v < 2 ^ 32"
      "\<forall>v \<in> urls_in posts. length (nat_str v) \<le> 20"
    and pages: "\<forall>us. us \<noteq> [] \<and> distinct us \<and> set us \<subseteq> urls_in posts \<longrightarrow>
      answers db (get_page_urls @ page_query (map nat_str us)) (map (\<lambda>v. page_row (page v)) us)"
    and hash: "lists_keys hash (nat_str ` fst ` set posts)" "lists_keys hash (nat_str ` urls_in posts)"
    and window: "page_window (fix_start_page p) (fix_results_per_page r) (card (urls_in posts)) = Some (s, e, t)"
    and room: "3145728 \<le> max_insert"
  shows "\<exists>us st'. run_state (handle jcut db max_insert hash sentence [] p r False) st =
      (Found (fix_start_page p) (to_short t) (map (\<lambda>v. page_result (page v)) us), st') \<and> taken st' = taken st \<and>
    distinct us \<and> set us \<subseteq> urls_in posts \<and>
    map (score dict posts ws) us =
      take (nat e + 1 - nat s) (drop (nat s) (rev (sort (map (score dict posts ws) (sorted_list_of_set (urls_in posts))))))"
proof -
  let ?found = "map (\<lambda>(w, n). [w, nat_str n]) dict" and ?rows = "map (\<lambda>(n, ps). [nat_str n, row ps]) posts"
  let ?table = "map_of (rev (map (\<lambda>cs. (hd cs, cs ! 1)) ?rows))"
  let ?times = "\<lambda>no. times_of (map_of (rev (map (\<lambda>cs. (cs ! 1, times_of (count_words ws) (hd cs))) ?found))) no"
  have batch1: "batches max_insert (length find_stop_word) or_word 11 ws = [concat (map or_word ws)]"
    using assms(2-4) room by (intro word_batch) (auto simp: find_stop_word_def)
  have nos: "map (\<lambda>cs. cs ! 1) ?found = map (\<lambda>(w, n). nat_str n) dict" by (simp add: case_prod_unfold comp_def)
  have batch2: "batches max_insert (length find_wordno_weight) or_no 9 (map (\<lambda>cs. cs ! 1) ?found) =
      [concat (map (\<lambda>(w, n). or_no (nat_str n)) dict)]"
    unfolding nos using dict(2,3,5) room
    by (subst number_batch) (auto simp: find_wordno_weight_def case_prod_unfold comp_def)
  have dom: "dom ?table = nat_str ` fst ` set posts"
    by (auto simp: dom_map_of_conv_image_fst case_prod_unfold image_image)
  have L: "set (hash (dom ?table)) = nat_str ` fst ` set posts" "distinct (hash (dom ?table))"
    using hash(1) unfolding dom lists_keys_def by simp_all
  obtain rows where rows: "mset rows = mset posts"
    "map (\<lambda>no. (no, the (?table no))) (hash (dom ?table)) = map (\<lambda>(n, ps). (nat_str n, row ps)) rows"
    using hashed_rows[OF posts(2) L] by blast
  have ok: "\<forall>(n, ps) \<in> set rows. row_ok ps" using posts(3) rows(1) by (metis set_mset_mset)
  have times: "\<forall>n. ?times (nat_str n) = int (occurrences dict ws n)"
    using word_times[OF dict(4)] assms(4) by simp
  obtain m where m: "sum_weights (map (\<lambda>no. (no, the (?table no))) (hash (dom ?table))) ?times Map.empty = Some m"
    "dom m = nat_str ` urls_in posts" "\<forall>v. unat (sum_at m v) = score dict posts ws v"
    using rows_scored[OF ok rows(1) posts(4) times] unfolding rows(2) by blast
  have fin: "finite (urls_in posts)" by (auto simp: urls_in_def)
  have hm: "set (hash (dom m)) = nat_str ` urls_in posts" "distinct (hash (dom m))" using hash(2) unfolding m(2) lists_keys_def by simp_all
  have pr: "1 \<le> fix_start_page p" "1 \<le> fix_results_per_page r" "fix_results_per_page r \<le> 50"
    using fix_results_range[of r] by (auto simp: fix_start_page_def)
  let ?st = "st\<lparr>taken := taken st + 1, peak := max (peak st) (taken st + 1),
    sent := sent st @ [find_word @ concat (map or_word ws), find_wordno_weight @ concat (map (\<lambda>(w, n). or_no (nat_str n)) dict)]\<rparr>"
  obtain us st' where us: "run_state (answer_page db max_insert hash m (fix_start_page p) (fix_results_per_page r) []) ?st =
      (Found (fix_start_page p) (to_short t) (map (\<lambda>v. page_result (page v)) us), st')" "taken st' = taken ?st - 1"
    "distinct us" "set us \<subseteq> urls_in posts" "map (\<lambda>v. unat (sum_at m v)) us =
      take (nat e + 1 - nat s) (drop (nat s) (rev (sort (map (\<lambda>v. unat (sum_at m v)) (sorted_list_of_set (urls_in posts))))))"
    using answer_page_results[where hash = hash and sums = m and urls = "urls_in posts" and page = page and st = ?st,
        OF hm fin window pr posts(5) room pages] by blast
  have "run_state (handle jcut db max_insert hash sentence [] p r False) st =
      run_state (answer_page db max_insert hash m (fix_start_page p) (fix_results_per_page r) []) ?st"
  proof -
    define found where "found = ?found"
    define rows0 where "rows0 = ?rows"
    define q1 where "q1 = concat (map or_word ws)"
    define q2 where "q2 = concat (map (\<lambda>(w, n). or_no (nat_str n)) dict)"
    note a1 = ask_answers[OF dict(1), folded found_def q1_def] and a2 = ask_answers[OF posts(1), folded rows0_def q2_def]
    note b2 = batch2[folded found_def q2_def, unfolded One_nat_def] and m1 = m(1)[folded rows0_def found_def, unfolded One_nat_def]
    show ?thesis
      unfolding handle_def Let_def if_not_P[OF assms(1)] assms(2)[symmetric] batch1[folded q1_def]
      using m1 by (simp add: get_db_def a1 a2 b2 q1_def[symmetric] q2_def[symmetric] del: ask.simps)
  qed
  then show ?thesis using us m(3) by (intro exI[of _ us] exI[of _ st']) simp
qed

section \<open>A small server\<close>

definition small_words :: "(string \<times> nat) list" where
  "small_words = [(''a'', 1), (''b'', 2)]"

definition small_posts :: "(nat \<times> (nat \<times> nat) list) list" where
  "small_posts = [(1, [(5, 7)]), (2, [(9, 12), (3, 7)])]"

definition small_page :: "nat \<Rightarrow> string \<times> string \<times> string \<times> string" where
  "small_page v = (''site.org/'' @ nat_str v, ''a b'', ''b'', ''2020'')"

definition small_asked :: "nat list \<Rightarrow> string" where
  "small_asked us = get_page_urls @ page_query (map nat_str us)"

definition small_server :: "unit database" where
  "small_server d q =
     (if is_prefix find_word q then (Rows (map (\<lambda>(w, n). [w, nat_str n]) small_words), d)
      else if is_prefix find_wordno_weight q then (Rows (map (\<lambda>(n, ps). [nat_str n, row ps]) small_posts), d)
      else case find (\<lambda>us. small_asked us = q) [[7], [12], [7, 12], [12, 7]] of
        None \<Rightarrow> (Failed, d) | Some us \<Rightarrow> (Rows (map (\<lambda>v. page_row (small_page v)) us), d))"

definition small_hash :: "string set \<Rightarrow> string list" where
  "small_hash S = filter (\<lambda>k. k \<in> S) [''2'', ''12'', ''1'', ''7'']"

lemma small_numbers: "nat_str 1 = ''1''" "nat_str 2 = ''2''" "nat_str 7 = ''7''" "nat_str 12 = ''12''"
  by code_simp+

lemma small_urls: "urls_in small_posts = {7, 12}" "card (urls_in small_posts) = 2" "sorted_list_of_set (urls_in small_posts) = [7, 12]"
  by (auto simp: urls_in_def small_posts_def)

lemma small_lists: "us \<noteq> [] \<Longrightarrow> distinct us \<Longrightarrow> set us \<subseteq> {7, 12 :: nat} \<Longrightarrow> us \<in> {[7], [12], [7, 12], [12, 7]}"
proof -
  assume us: "us \<noteq> []" "distinct us" "set us \<subseteq> {7, 12}"
  then have "length us \<le> 2" using card_mono[OF _ us(3)] distinct_card[OF us(2)] by simp
  then show ?thesis using us by (cases us rule: list.exhaust; cases "tl us") (auto simp: length_Suc_conv)
qed

lemma small_find:
  "find (\<lambda>us. small_asked us = small_asked [7]) [[7], [12], [7, 12], [12, 7]] = Some [7]"
  "find (\<lambda>us. small_asked us = small_asked [12]) [[7], [12], [7, 12], [12, 7]] = Some [12]"
  "find (\<lambda>us. small_asked us = small_asked [7, 12]) [[7], [12], [7, 12], [12, 7]] = Some [7, 12]"
  "find (\<lambda>us. small_asked us = small_asked [12, 7]) [[7], [12], [7, 12], [12, 7]] = Some [12, 7]"
  by code_simp+

lemma small_answers:
  "answers small_server (find_word @ q) (map (\<lambda>(w, n). [w, nat_str n]) small_words)"
  "answers small_server (find_wordno_weight @ q) (map (\<lambda>(n, ps). [nat_str n, row ps]) small_posts)"
  "us \<in> {[7], [12], [7, 12], [12, 7]} \<Longrightarrow>
     answers small_server (get_page_urls @ page_query (map nat_str us)) (map (\<lambda>v. page_row (small_page v)) us)"
proof -
  have p: "is_prefix find_word (find_word @ q)" "is_prefix find_wordno_weight (find_wordno_weight @ q)"
    "\<not> is_prefix find_word (find_wordno_weight @ q)" "\<not> is_prefix find_word (get_page_urls @ q)"
    "\<not> is_prefix find_wordno_weight (get_page_urls @ q)" for q
    by (simp_all add: find_word_def find_wordno_weight_def get_page_urls_def)
  show "answers small_server (find_word @ q) (map (\<lambda>(w, n). [w, nat_str n]) small_words)"
    "answers small_server (find_wordno_weight @ q) (map (\<lambda>(n, ps). [nat_str n, row ps]) small_posts)"
    by (simp_all add: answers_def small_server_def p)
  assume "us \<in> {[7], [12], [7, 12], [12, 7]}"
  then have "find (\<lambda>vs. small_asked vs = small_asked us) [[7], [12], [7, 12], [12, 7]] = Some us"
    using small_find by blast
  then have "find (\<lambda>vs. small_asked vs = get_page_urls @ page_query (map nat_str us)) [[7], [12], [7, 12], [12, 7]] = Some us"
    by (simp only: small_asked_def)
  then show "answers small_server (get_page_urls @ page_query (map nat_str us)) (map (\<lambda>v. page_row (small_page v)) us)"
    unfolding answers_def small_server_def by (simp only: p if_False option.case) simp
qed

theorem handle_ranks_witness:
  "\<exists>us st'. run_state (handle (\<lambda>_. [''a'', ''b'', ''a'']) small_server 3145728 small_hash ''a b a'' [] 1 10 False)
      \<lparr>server = (), taken = 0, peak = 0, sent = []\<rparr> =
      (Found 1 1 (map (\<lambda>v. page_result (small_page v)) us), st') \<and>
    map (score small_words small_posts [''a'', ''b'', ''a'']) us = [13, 9]"
proof -
  let ?ws = "[''a'', ''b'', ''a'']" and ?jcut = "\<lambda>_. [''a'', ''b'', ''a'']"
  have ws: "?ws = search_words ?jcut (substr ''a b a'' 0 MAX_SEARCH_SENTENCE_SIZE)"
    by (simp add: search_words_def WORD_SIZE_def is_alnum_code code_def)
  have score: "score small_words small_posts ?ws 7 = 13" "score small_words small_posts ?ws 12 = 9" by code_simp+
  have other: "score small_words small_posts ?ws v = 0" if "v \<noteq> 7" "v \<noteq> 12" for v
    using that by (simp add: score_def small_posts_def weight_in_def)
  have small: "\<forall>v. score small_words small_posts ?ws v < 2 ^ 32"
  proof
    fix v show "score small_words small_posts ?ws v < 2 ^ 32"
      using score other[of v] by (cases "v = 7"; cases "v = 12") simp_all
  qed
  have rows: "\<forall>(n, ps) \<in> set small_posts. row_ok ps" by (simp add: small_posts_def row_ok_def)
  have hash: "lists_keys small_hash (nat_str ` fst ` set small_posts)" "lists_keys small_hash (nat_str ` urls_in small_posts)"
    unfolding small_urls by (auto simp: lists_keys_def small_hash_def small_posts_def small_numbers small_numbers(1)[unfolded One_nat_def])
  have fix1: "fix_start_page 1 = 1" "fix_results_per_page 10 = 10"
    by (simp_all add: fix_start_page_def fix_results_per_page_def MAX_RESULTS_PER_PAGE_def)
  have window: "page_window (fix_start_page 1) (fix_results_per_page 10) (card (urls_in small_posts)) = Some (0, 1, 1)"
    unfolding small_urls fix1 by (simp add: page_window_Some)
  have pages: "\<forall>us. us \<noteq> [] \<and> distinct us \<and> set us \<subseteq> urls_in small_posts \<longrightarrow>
      answers small_server (get_page_urls @ page_query (map nat_str us)) (map (\<lambda>v. page_row (small_page v)) us)"
    unfolding small_urls using small_lists small_answers(3) by blast
  have lens: "\<forall>(w, n) \<in> set small_words. length (nat_str n) \<le> 20" "\<forall>v \<in> urls_in small_posts. length (nat_str v) \<le> 20"
    unfolding small_urls by (simp_all add: small_words_def small_numbers small_numbers(1)[unfolded One_nat_def])
  have dict: "small_words \<noteq> []" "length small_words \<le> 300" "distinct (map snd small_words)" "distinct (map fst small_posts)"
    by (simp_all add: small_words_def small_posts_def)
  have t: "to_short 1 = 1" by (simp add: to_short_def)
  from handle_ranks[where st = "\<lparr>server = (), taken = 0, peak = 0, sent = []\<rparr>" and max_insert = 3145728,
      OF _ ws _ _ small_answers(1) dict(1-3) lens(1) small_answers(2) dict(4) rows small lens(2) pages hash window]
  obtain us st' where "run_state (handle ?jcut small_server 3145728 small_hash ''a b a'' [] 1 10 False)
      \<lparr>server = (), taken = 0, peak = 0, sent = []\<rparr> = (Found 1 1 (map (\<lambda>v. page_result (small_page v)) us), st')"
    "map (score small_words small_posts ?ws) us = take 2 (rev (sort (map (score small_words small_posts ?ws) [7, 12])))"
    unfolding small_urls t fix1 by auto
  then show ?thesis using score by (intro exI[of _ us] exI[of _ st']) simp
qed

end
