(* ===== verification/Runes.thy ===== *)
theory Runes
  imports Prelude "HOL-Library.Word"
begin

unbundle bit_operations_syntax

text \<open>
  Code points: the UTF-8 decoder of the segmenter (\<open>src/utils/cppjieba/Unicode.hpp\<close>).  A rune is a 32-bit
  word; offsets and lengths are counted without the wrap-around of their 32 bits, which needs a text of
  four gigabytes.  A word range is the pair of its first and last subscript in the rune array.
\<close>

section \<open>The decoder\<close>

type_synonym rune = "32 word"

record rune_str =
  rune :: rune
  offset :: nat
  len :: nat
  unicode_offset :: nat
  unicode_length :: nat

record jieba_word =
  word :: string
  word_offset :: nat
  word_unicode_offset :: nat
  word_unicode_length :: nat

definition byte :: "char \<Rightarrow> rune" where
  "byte c = of_nat (code c)"

definition cont :: "rune \<Rightarrow> char \<Rightarrow> rune" where
  "cont r c = (push_bit 6 r) OR (byte c AND 0x3f)"

definition decode_rune :: "string \<Rightarrow> rune \<times> nat" where
  "decode_rune s =
     (case s of [] \<Rightarrow> (0, 0)
      | c # _ \<Rightarrow>
          if byte c AND 0x80 = 0 then (byte c AND 0x7f, 1)
          else if byte c \<le> 0xdf \<and> 1 < length s then (cont (byte c AND 0x1f) (s ! 1), 2)
          else if byte c \<le> 0xef \<and> 2 < length s then (cont (cont (byte c AND 0x0f) (s ! 1)) (s ! 2), 3)
          else if byte c \<le> 0xf7 \<and> 3 < length s
          then (cont (cont (cont (byte c AND 0x07) (s ! 1)) (s ! 2)) (s ! 3), 4)
          else (0, 0))"

lemma decode_rune_len: "snd (decode_rune s) \<le> length s"
  by (auto simp: decode_rune_def Suc_le_eq neq_Nil_conv split: list.split)

text \<open>The loop over the text, from byte \<open>i\<close> and rune \<open>j\<close> on.\<close>

function decode_from :: "string \<Rightarrow> nat \<Rightarrow> nat \<Rightarrow> rune_str list option" where
  "decode_from s i j =
     (if i < length s
      then case decode_rune (drop i s) of (r, l) \<Rightarrow>
        if l = 0 then None
        else map_option ((#) \<lparr>rune = r, offset = i, len = l, unicode_offset = j, unicode_length = 1\<rparr>)
          (decode_from s (i + l) (j + 1))
      else Some [])"
  by pat_completeness auto
termination by (relation "measure (\<lambda>(s, i, j). length s - i)") auto

declare decode_from.simps [simp del]

text \<open>A text that cannot be decoded gives no runes at all.\<close>

definition decode_runes :: "string \<Rightarrow> rune_str list \<times> bool" where
  "decode_runes s = (case decode_from s 0 0 of None \<Rightarrow> ([], False) | Some rs \<Rightarrow> (rs, True))"

definition decode_unicode :: "string \<Rightarrow> rune list \<times> bool" where
  "decode_unicode s = (case decode_runes s of (rs, ok) \<Rightarrow> (map rune rs, ok))"

definition is_single_word :: "string \<Rightarrow> bool" where
  "is_single_word s \<longleftrightarrow> snd (decode_rune s) = length s"

section \<open>Ranges and words\<close>

type_synonym word_range = "nat \<times> nat"

definition range_length :: "word_range \<Rightarrow> nat" where
  "range_length w = snd w - fst w + 1"

definition all_ascii :: "rune_str list \<Rightarrow> word_range \<Rightarrow> bool" where
  "all_ascii rs w = (\<forall>i \<in> set [fst w..<snd w + 1]. rune (rs ! i) < 0x80)"

definition get_word :: "string \<Rightarrow> rune_str list \<Rightarrow> word_range \<Rightarrow> jieba_word" where
  "get_word s rs = (\<lambda>(l, r).
     let n = offset (rs ! r) - offset (rs ! l) + len (rs ! r);
         u = unicode_offset (rs ! r) - unicode_offset (rs ! l) + unicode_length (rs ! r)
     in \<lparr>word = substr s (offset (rs ! l)) n, word_offset = offset (rs ! l),
         word_unicode_offset = unicode_offset (rs ! l), word_unicode_length = u\<rparr>)"

definition get_words :: "string \<Rightarrow> rune_str list \<Rightarrow> word_range list \<Rightarrow> jieba_word list" where
  "get_words s rs ws = map (get_word s rs) ws"

definition strings_of :: "jieba_word list \<Rightarrow> string list" where
  "strings_of ws = map word ws"

section \<open>What decoding keeps\<close>

text \<open>The runes from rune \<open>j\<close> at byte \<open>i\<close> on cover the text without a gap.\<close>

fun tiles :: "nat \<Rightarrow> nat \<Rightarrow> nat \<Rightarrow> rune_str list \<Rightarrow> bool" where
  "tiles n i j [] = (i = n)"
| "tiles n i j (r # rs) =
     (offset r = i \<and> unicode_offset r = j \<and> unicode_length r = 1 \<and> 1 \<le> len r \<and> len r \<le> 4 \<and> tiles n (i + len r) (j + 1) rs)"

lemma decode_rune_le4: "snd (decode_rune s) \<le> 4"
  by (auto simp: decode_rune_def split: list.split)

lemma decode_from_tiles: "decode_from s i j = Some rs \<Longrightarrow> i \<le> length s \<Longrightarrow> tiles (length s) i j rs"
proof (induction s i j arbitrary: rs rule: decode_from.induct)
  case (1 s i j)
  show ?case
  proof (cases "i < length s")
    case True
    obtain r l where d: "decode_rune (drop i s) = (r, l)" by fastforce
    have l: "l \<le> length s - i" "l \<le> 4"
      using decode_rune_len[of "drop i s"] decode_rune_le4[of "drop i s"] by (simp_all add: d)
    obtain rest where "l \<noteq> 0" "decode_from s (i + l) (j + 1) = Some rest"
      "rs = \<lparr>rune = r, offset = i, len = l, unicode_offset = j, unicode_length = 1\<rparr> # rest"
      using 1(2) True d by (subst (asm) decode_from.simps) (auto split: if_splits)
    then show ?thesis using 1(1)[OF True d[symmetric]] l True by simp
  next
    case False
    then show ?thesis using 1(2,3) by (subst (asm) decode_from.simps) simp
  qed
qed

lemma tiles_drop: "tiles n i j (xs @ ys) \<Longrightarrow> tiles n (i + sum_list (map len xs)) (j + length xs) ys"
proof (induction xs arbitrary: i j)
  case (Cons a xs)
  then show ?case using Cons.IH[of "i + len a" "j + 1"] by (simp add: add.assoc)
qed simp

lemma tiles_nth:
  "tiles n i j rs \<Longrightarrow> k < length rs \<Longrightarrow>
     offset (rs ! k) = i + sum_list (map len (take k rs)) \<and> unicode_offset (rs ! k) = j + k \<and> unicode_length (rs ! k) = 1"
proof -
  assume t: "tiles n i j rs" and k: "k < length rs"
  from k have e: "rs = take k rs @ rs ! k # drop (Suc k) rs" by (intro id_take_nth_drop)
  show ?thesis
    using tiles_drop[of n i j "take k rs" "rs ! k # drop (Suc k) rs"] t e k by simp
qed

section \<open>Decoding UTF-8\<close>

text \<open>The encoding as the standard defines it, on code points below \<open>2 ^ 21\<close>.\<close>

definition utf8 :: "nat \<Rightarrow> string" where
  "utf8 n =
     (if n < 0x80 then [char_of n]
      else if n < 0x800 then [char_of (0xc0 + n div 64), char_of (0x80 + n mod 64)]
      else if n < 0x10000
      then [char_of (0xe0 + n div 4096), char_of (0x80 + n div 64 mod 64), char_of (0x80 + n mod 64)]
      else [char_of (0xf0 + n div 262144), char_of (0x80 + n div 4096 mod 64), char_of (0x80 + n div 64 mod 64),
        char_of (0x80 + n mod 64)])"

lemma masks: "(0x3f :: rune) = mask 6" "(0x7f :: rune) = mask 7" "(0x1f :: rune) = mask 5" "(0x0f :: rune) = mask 4" "(0x07 :: rune) = mask 3"
  by (simp_all add: mask_eq_exp_minus_1)

lemma byte_and: "byte c AND mask k = of_nat (code c mod 2 ^ k)"
  unfolding byte_def take_bit_eq_mask[symmetric] take_bit_of_nat by (simp add: take_bit_eq_mod)

lemma cont_nat: "cont (of_nat a) c = of_nat (64 * a + code c mod 64)"
proof -
  have "push_bit 6 (of_nat a :: rune) AND (byte c AND mask 6) = 0"
    by (rule bit_word_eqI) (auto simp: bit_simps)
  then have "cont (of_nat a) c = push_bit 6 (of_nat a) + (byte c AND mask 6)"
    unfolding cont_def masks by (simp add: disjunctive_add_eq_or)
  also have "\<dots> = of_nat (64 * a + code c mod 64)"
    unfolding byte_and by (simp add: push_bit_eq_mult)
  finally show ?thesis .
qed

lemma unat_byte: "unat (byte c) = code c"
  using code_lt[of c] by (simp add: byte_def unat_of_nat)

lemma byte_le:
  "byte c \<le> 0xdf \<longleftrightarrow> code c \<le> 0xdf" "byte c \<le> 0xef \<longleftrightarrow> code c \<le> 0xef" "byte c \<le> 0xf7 \<longleftrightarrow> code c \<le> 0xf7"
  by (simp_all add: word_le_nat_alt unat_byte)

lemma byte_high: "byte c AND 0x80 = 0 \<longleftrightarrow> code c < 128"
proof -
  have e: "(0x80 :: rune) = 2 ^ 7" by simp
  have "byte c AND 0x80 = 0 \<longleftrightarrow> \<not> bit (byte c) 7"
    unfolding e by (rule and_exp_eq_0_iff_not_bit)
  also have "\<dots> \<longleftrightarrow> \<not> bit (code c) 7"
    by (simp add: byte_def bit_simps)
  also have "\<dots> \<longleftrightarrow> code c < 128"
  proof (cases "code c < 128")
    case False
    then have "code c div 128 = 1" using code_lt[of c] by (intro div_nat_eqI) simp_all
    then show ?thesis using False by (simp add: bit_iff_odd)
  qed (simp add: bit_iff_odd)
  finally show ?thesis .
qed

lemma low_bits:
  "code c < 128 \<Longrightarrow> byte c AND 0x7f = of_nat (code c)" "byte c AND 0x1f = of_nat (code c mod 32)"
  "byte c AND 0x0f = of_nat (code c mod 16)" "byte c AND 0x07 = of_nat (code c mod 8)"
  unfolding masks byte_and by simp_all

lemma decode_rune_1: "code c < 128 \<Longrightarrow> decode_rune (c # s) = (of_nat (code c), 1)"
  by (simp add: decode_rune_def byte_high low_bits)

lemma decode_rune_2:
  "128 \<le> code c \<Longrightarrow> code c \<le> 0xdf \<Longrightarrow>
     decode_rune (c # c1 # s) = (of_nat (64 * (code c mod 32) + code c1 mod 64), 2)"
  by (simp add: decode_rune_def byte_high byte_le low_bits cont_nat del: of_nat_add of_nat_mult)

lemma decode_rune_3:
  "0xdf < code c \<Longrightarrow> code c \<le> 0xef \<Longrightarrow>
     decode_rune (c # c1 # c2 # s) = (of_nat (64 * (64 * (code c mod 16) + code c1 mod 64) + code c2 mod 64), 3)"
  by (simp add: decode_rune_def byte_high byte_le low_bits cont_nat numeral_2_eq_2 del: of_nat_add of_nat_mult)

lemma decode_rune_4:
  "0xef < code c \<Longrightarrow> code c \<le> 0xf7 \<Longrightarrow>
     decode_rune (c # c1 # c2 # c3 # s) =
       (of_nat (64 * (64 * (64 * (code c mod 8) + code c1 mod 64) + code c2 mod 64) + code c3 mod 64), 4)"
  by (simp add: decode_rune_def byte_high byte_le low_bits cont_nat numeral_2_eq_2 numeral_3_eq_3 del: of_nat_add of_nat_mult)

lemma mod_digit: "q < m \<Longrightarrow> (k * m + q) mod m = (q :: nat)"
  by simp

lemmas digits = mod_digit[of _ 64 2, simplified] mod_digit[of _ 32 6, simplified] mod_digit[of _ 16 14, simplified]
  mod_digit[of _ 8 30, simplified]

lemma base_64: "64 * (n div 64) + n mod 64 = (n :: nat)" "64 * (n div 4096) + n div 64 mod 64 = n div 64"
  "64 * (n div 262144) + n div 4096 mod 64 = n div 4096"
  using mult_div_mod_eq[of 64 n] mult_div_mod_eq[of 64 "n div 64"] mult_div_mod_eq[of 64 "n div 4096"]
  by (simp_all flip: div_mult2_eq)

text \<open>
  Every code point below \<open>2 ^ 21\<close> in the encoding of the standard is decoded to itself, whatever text
  follows, and takes as many bytes as the encoding has.
\<close>

theorem decode_rune_utf8:
  assumes "n < 2 ^ 21"
  shows "decode_rune (utf8 n @ s) = (of_nat n, length (utf8 n))"
proof -
  consider "n < 0x80" | "0x80 \<le> n" "n < 0x800" | "0x800 \<le> n" "n < 0x10000" | "0x10000 \<le> n" by linarith
  then show ?thesis
  proof cases
    case 1
    then show ?thesis by (simp add: utf8_def decode_rune_1)
  next
    case 2
    then have q: "n div 64 < 32" by (simp add: div_less_iff_less_mult)
    show ?thesis
      using 2 q decode_rune_2[of "char_of (0xc0 + n div 64)" "char_of (0x80 + n mod 64)" s]
      by (simp add: utf8_def digits base_64 del: of_nat_add of_nat_mult)
  next
    case 3
    then have q: "n div 4096 < 16" by (simp add: div_less_iff_less_mult)
    show ?thesis
      using 3 q decode_rune_3[of "char_of (0xe0 + n div 4096)" "char_of (0x80 + n div 64 mod 64)" "char_of (0x80 + n mod 64)" s]
      by (simp add: utf8_def digits base_64 del: of_nat_add of_nat_mult)
  next
    case 4
    have q: "n div 262144 < 8" using assms by (simp add: div_less_iff_less_mult)
    show ?thesis
      using 4 q decode_rune_4[of "char_of (0xf0 + n div 262144)" "char_of (0x80 + n div 4096 mod 64)"
          "char_of (0x80 + n div 64 mod 64)" "char_of (0x80 + n mod 64)" s]
      by (simp add: utf8_def digits base_64 del: of_nat_add of_nat_mult)
  qed
qed

lemma decode_from_utf8:
  "\<forall>n \<in> set ns. n < 2 ^ 21 \<Longrightarrow>
     map_option (map rune) (decode_from (pre @ concat (map utf8 ns)) (length pre) j) = Some (map of_nat ns)"
proof (induction ns arbitrary: pre j)
  case Nil
  show ?case by (subst decode_from.simps) simp
next
  case (Cons n ns)
  have l: "length (utf8 n) \<noteq> 0" by (simp add: utf8_def)
  have d: "decode_rune (drop (length pre) (pre @ concat (map utf8 (n # ns)))) = (of_nat n, length (utf8 n))"
    using Cons.prems decode_rune_utf8[of n] by simp
  have t: "length pre < length (pre @ concat (map utf8 (n # ns)))" using l by simp
  have IH: "map_option (map rune) (decode_from (pre @ utf8 n @ concat (map utf8 ns)) (length pre + length (utf8 n)) (Suc j)) =
      Some (map of_nat ns)"
    using Cons.IH[of "pre @ utf8 n" "Suc j"] Cons.prems by simp
  show ?case
    by (subst decode_from.simps, subst if_P[OF t], subst d)
      (use IH l in \<open>auto simp: option.map_comp comp_def map_option_case split: option.splits\<close>)
qed

text \<open>
  A text written in the encoding of the standard is decoded to exactly its code points.
\<close>

theorem decode_unicode_utf8:
  "\<forall>n \<in> set ns. n < 2 ^ 21 \<Longrightarrow> decode_unicode (concat (map utf8 ns)) = (map of_nat ns, True)"
  using decode_from_utf8[of ns "[]" 0]
  by (auto simp: decode_unicode_def decode_runes_def split: option.splits)

theorem decode_unicode_utf8_witness:
  "decode_unicode (concat (map utf8 [0x41, 0x4e2d, 0x1f600])) = ([0x41, 0x4e2d, 0x1f600], True)"
  using decode_unicode_utf8[of "[0x41, 0x4e2d, 0x1f600]"] by simp

section \<open>Words cover the text\<close>

text \<open>The ranges \<open>ws\<close> divide the runes from \<open>a\<close> to before \<open>b\<close>.\<close>

fun divides :: "nat \<Rightarrow> nat \<Rightarrow> word_range list \<Rightarrow> bool" where
  "divides a b [] = (a = b)"
| "divides a b ((l, r) # ws) = (l = a \<and> l \<le> r \<and> r < b \<and> divides (r + 1) b ws)"

lemma divides_le: "divides a b ws \<Longrightarrow> a \<le> b"
  by (induction a b ws rule: divides.induct) auto

lemma divides_append: "divides a b xs \<Longrightarrow> divides b c ys \<Longrightarrow> divides a c (xs @ ys)"
proof (induction a b xs rule: divides.induct)
  case (2 a b l r ws)
  then show ?case using divides_le[of b c ys] by auto
qed simp

definition rune_pos :: "rune_str list \<Rightarrow> nat \<Rightarrow> nat" where
  "rune_pos rs k = sum_list (map len (take k rs))"

lemma rune_pos_Suc: "k < length rs \<Longrightarrow> rune_pos rs (Suc k) = rune_pos rs k + len (rs ! k)"
  by (simp add: rune_pos_def take_Suc_conv_app_nth)

lemma rune_pos_mono: "a \<le> b \<Longrightarrow> rune_pos rs a \<le> rune_pos rs b"
proof -
  assume "a \<le> b"
  then have "take b rs = take a rs @ take (b - a) (drop a rs)" by (metis le_add_diff_inverse take_add)
  then show ?thesis by (simp add: rune_pos_def)
qed

lemma word_text:
  assumes "tiles n 0 0 rs" "l \<le> r" "r < length rs"
  shows "word (get_word s rs (l, r)) = substr s (rune_pos rs l) (rune_pos rs (r + 1) - rune_pos rs l)"
proof -
  have l: "l < length rs" using assms(2,3) by simp
  show ?thesis
    using tiles_nth[OF assms(1) l] tiles_nth[OF assms(1,3)] rune_pos_Suc[OF assms(3)] rune_pos_mono[OF assms(2), of rs]
    by (simp add: get_word_def rune_pos_def)
qed

lemma words_text:
  assumes "tiles n 0 0 rs"
  shows "divides a b ws \<Longrightarrow> b \<le> length rs \<Longrightarrow>
    concat (strings_of (get_words s rs ws)) = substr s (rune_pos rs a) (rune_pos rs b - rune_pos rs a)"
proof (induction a b ws rule: divides.induct)
  case (1 a b)
  then show ?case by (simp add: strings_of_def get_words_def substr_def)
next
  case (2 a b l r ws)
  have d: "l = a" "l \<le> r" "r < length rs" "r + 1 \<le> b" "divides (r + 1) b ws" using 2 by auto
  let ?p = "rune_pos rs"
  have m: "?p a \<le> ?p (r + 1)" "?p (r + 1) \<le> ?p b" using d by (auto intro!: rune_pos_mono)
  have "concat (strings_of (get_words s rs ((l, r) # ws))) =
      substr s (?p a) (?p (r + 1) - ?p a) @ substr s (?p (r + 1)) (?p b - ?p (r + 1))"
    using 2 d word_text[OF assms d(2,3), of s] by (simp add: strings_of_def get_words_def)
  also have "\<dots> = take (?p (r + 1) - ?p a + (?p b - ?p (r + 1))) (drop (?p a) s)"
    unfolding take_add using m by (simp add: substr_def)
  also have "\<dots> = substr s (?p a) (?p b - ?p a)" using m by (simp add: substr_def)
  finally show ?case .
qed

lemma tiles_total: "tiles n i j rs \<Longrightarrow> i + sum_list (map len rs) = n"
  using tiles_drop[of n i j rs "[]"] by simp

lemma decode_runes_tiles: "decode_runes s = (rs, True) \<Longrightarrow> tiles (length s) 0 0 rs"
  using decode_from_tiles[of s 0 0] by (auto simp: decode_runes_def split: option.splits)

lemma whole_text:
  assumes "decode_runes s = (rs, True)" "divides 0 (length rs) ws"
  shows "concat (strings_of (get_words s rs ws)) = s"
proof -
  note t = decode_runes_tiles[OF assms(1)]
  have "rune_pos rs (length rs) = length s" "rune_pos rs 0 = 0"
    using tiles_total[OF t] by (simp_all add: rune_pos_def)
  then show ?thesis using words_text[OF t assms(2), of s] by (simp add: substr_def)
qed

end
