(* ===== verification/RuneTrie.thy ===== *)
theory RuneTrie
  imports Runes "HOL-Library.AList"
begin

text \<open>
  The dictionary trie of the segmenter (\<open>src/utils/cppjieba/Trie.hpp\<close>).  A node holds a hash map from runes
  to nodes, here an association list (no map is the empty one: the code asks for either before it looks a
  rune up), and a pointer to a value or NULL.  The values are those of the dictionary, of any type \<open>'v\<close>.
\<close>

section \<open>The trie\<close>

definition MAX_WORD_LENGTH :: nat where "MAX_WORD_LENGTH = 512"

datatype 'v trie_node = Trie_Node (next_map: "(rune \<times> 'v trie_node) list") (pt_value: "'v option")

abbreviation new_node :: "'v trie_node" where "new_node \<equiv> Trie_Node [] None"

fun walk :: "'v trie_node \<Rightarrow> rune list \<Rightarrow> 'v option" where
  "walk n [] = pt_value n"
| "walk n (r # rs) = (case map_of (next_map n) r of None \<Rightarrow> None | Some n \<Rightarrow> walk n rs)"

definition trie_find :: "'v trie_node \<Rightarrow> rune list \<Rightarrow> 'v option" where
  "trie_find root rs = (if rs = [] then None else walk root rs)"

fun insert_from :: "rune list \<Rightarrow> 'v \<Rightarrow> 'v trie_node \<Rightarrow> 'v trie_node" where
  "insert_from [] v n = Trie_Node (next_map n) (Some v)"
| "insert_from (r # rs) v n =
     Trie_Node (AList.update r (insert_from rs v (case map_of (next_map n) r of None \<Rightarrow> new_node | Some m \<Rightarrow> m)) (next_map n))
       (pt_value n)"

definition insert_node :: "rune list \<Rightarrow> 'v \<Rightarrow> 'v trie_node \<Rightarrow> 'v trie_node" where
  "insert_node key v root = (if key = [] then root else insert_from key v root)"

definition create_trie :: "rune list list \<Rightarrow> 'v list \<Rightarrow> 'v trie_node" where
  "create_trie keys vals =
     (if vals = [] \<or> keys = [] then new_node
      else foldl (\<lambda>n (key, v). insert_node key v n) new_node (zip keys vals))"

section \<open>All the words that start at a rune\<close>

record ('v, 'w) dag =
  nexts :: "(nat \<times> 'v option) list"
  p_info :: "'v option"
  dag_weight :: 'w

text \<open>The inner loop: \<open>j\<close> is the subscript of the next rune, \<open>k\<close> how many more may be taken.\<close>

fun extend :: "'v trie_node \<Rightarrow> rune list \<Rightarrow> nat \<Rightarrow> nat \<Rightarrow> (nat \<times> 'v option) list" where
  "extend n (r # rs) j (Suc k) =
     (case map_of (next_map n) r of
        None \<Rightarrow> []
      | Some m \<Rightarrow> (case pt_value m of None \<Rightarrow> [] | Some v \<Rightarrow> [(j, Some v)]) @ extend m rs (j + 1) k)"
| "extend n rs j k = []"

definition nexts_at :: "'v trie_node \<Rightarrow> rune list \<Rightarrow> nat \<Rightarrow> nat \<Rightarrow> (nat \<times> 'v option) list" where
  "nexts_at root rs max_word_len i =
     (case map_of (next_map root) (rs ! i) of
        None \<Rightarrow> [(i, None)]
      | Some n \<Rightarrow> (i, pt_value n) # extend n (drop (i + 1) rs) (i + 1) (max_word_len - 1))"

text \<open>A fresh \<open>Dag\<close> has weight 0.0, which is \<open>z\<close>.\<close>

definition find_dags :: "'w \<Rightarrow> 'v trie_node \<Rightarrow> rune list \<Rightarrow> nat \<Rightarrow> ('v, 'w) dag list" where
  "find_dags z root rs max_word_len =
     map (\<lambda>i. \<lparr>nexts = nexts_at root rs max_word_len i, p_info = None, dag_weight = z\<rparr>) [0..<length rs]"

section \<open>The trie as a map\<close>

lemma walk_new [simp]: "walk new_node ks = None"
  by (cases ks) simp_all

lemma walk_insert: "walk (insert_from ks v n) ks' = (if ks' = ks then Some v else walk n ks')"
proof (induction ks v n arbitrary: ks' rule: insert_from.induct)
  case (1 v n)
  show ?case by (cases ks') simp_all
next
  case (2 r rs v n)
  show ?case
  proof (cases ks')
    case (Cons r' rs')
    then show ?thesis
      using 2[of rs'] by (cases "r' = r"; cases "map_of (next_map n) r") (simp_all add: update_conv)
  qed simp
qed

lemma trie_find_insert:
  "trie_find (insert_node ks v n) ks' = (if ks' = ks \<and> ks \<noteq> [] then Some v else trie_find n ks')"
  by (auto simp: trie_find_def insert_node_def walk_insert)

lemma trie_find_foldl:
  "trie_find (foldl (\<lambda>n (key, v). insert_node key v n) n kvs) ks =
    (case map_of (rev kvs) ks of None \<Rightarrow> trie_find n ks | Some v \<Rightarrow> if ks = [] then trie_find n ks else Some v)"
proof (induction kvs arbitrary: n)
  case (Cons kv kvs)
  obtain k v where kv: "kv = (k, v)" by fastforce
  show ?case
    by (cases "map_of (rev kvs) ks") (auto simp: kv Cons.IH trie_find_insert map_add_def split: option.splits)
qed simp

lemma trie_find_new [simp]: "trie_find new_node ks = None"
  by (simp add: trie_find_def)

lemma create_trie_find:
  "length keys = length vals \<Longrightarrow> trie_find (create_trie keys vals) ks = (if ks = [] then None else map_of (rev (zip keys vals)) ks)"
  by (cases "keys = []"; cases "vals = []") (auto simp: create_trie_def trie_find_foldl split: option.split)

text \<open>
  C36. The trie is the map of its dictionary: a word that is not empty is found exactly when it was inserted,
  with the value it was inserted with last.
\<close>

theorem create_trie_map:
  "length keys = length vals \<Longrightarrow>
     trie_find (create_trie keys vals) ks = (if ks = [] then None else map_of (rev (zip keys vals)) ks)"
  by (rule create_trie_find)

theorem create_trie_map_witness:
  "trie_find (create_trie [[0x4e2d], [0x4e2d, 0x6587], [0x4e2d]] [1 :: nat, 2, 3]) [0x4e2d] = Some 3"
  using create_trie_map[of "[[0x4e2d], [0x4e2d, 0x6587], [0x4e2d]]" "[1 :: nat, 2, 3]" "[0x4e2d]"] by simp

section \<open>The edges\<close>

definition edge :: "nat \<Rightarrow> 'v option \<Rightarrow> (nat \<times> 'v option) list" where
  "edge j v = (case v of None \<Rightarrow> [] | Some v \<Rightarrow> [(j, Some v)])"

lemma extend_spec:
  "extend n rs j k = concat (map (\<lambda>d. edge (j + d) (walk n (take (d + 1) rs))) [0..<min k (length rs)])"
proof (induction n rs j k rule: extend.induct)
  case (1 n r rs j k)
  let ?f = "\<lambda>n rs j d. edge (j + d) (walk n (take (d + 1) rs))"
  have "[0..<min (Suc k) (length (r # rs))] = 0 # map Suc [0..<min k (length rs)]"
    by (simp add: upt_conv_Cons map_Suc_upt del: upt_Suc)
  then have split: "concat (map (?f n (r # rs) j) [0..<min (Suc k) (length (r # rs))]) =
      ?f n (r # rs) j 0 @ concat (map (\<lambda>d. ?f n (r # rs) j (Suc d)) [0..<min k (length rs)])"
    by (simp only: list.map concat.simps map_map comp_def)
  show ?case
  proof (cases "map_of (next_map n) r")
    case None
    then show ?thesis unfolding split by (simp add: edge_def)
  next
    case (Some m)
    have "extend m rs (j + 1) k = concat (map (\<lambda>d. ?f n (r # rs) j (Suc d)) [0..<min k (length rs)])"
      using 1[OF Some] Some by simp
    then show ?thesis unfolding split using Some by (simp add: edge_def)
  qed
qed simp_all

definition word_at :: "rune list \<Rightarrow> nat \<Rightarrow> nat \<Rightarrow> rune list" where
  "word_at rs i j = take (j + 1 - i) (drop i rs)"

lemma nexts_at_spec:
  assumes "i < length rs"
  shows "nexts_at root rs m i = (i, trie_find root [rs ! i]) #
    concat (map (\<lambda>j. edge j (trie_find root (word_at rs i j))) [i + 1..<min (i + m) (length rs)])"
proof -
  have d: "drop i rs = rs ! i # drop (Suc i) rs" using assms by (simp add: Cons_nth_drop_Suc)
  show ?thesis
  proof (cases "map_of (next_map root) (rs ! i)")
    case None
    have "trie_find root (word_at rs i j) = None" if "i < j" for j
      using that None by (cases "j - i") (simp_all add: trie_find_def word_at_def d Suc_diff_le)
    then show ?thesis using None by (simp add: nexts_at_def trie_find_def edge_def)
  next
    case (Some n)
    have w: "walk n (take (d + 1) (drop (i + 1) rs)) = trie_find root (word_at rs i (d + (i + 1)))" for d
      using Some by (simp add: trie_find_def word_at_def d)
    have e: "[i + 1..<min (i + m) (length rs)] = map (\<lambda>d. d + (i + 1)) [0..<min (m - 1) (length rs - (i + 1))]"
    proof (cases m)
      case (Suc k)
      then have "min (m - 1) (length rs - (i + 1)) + (i + 1) = min (i + m) (length rs)"
        using assms by linarith
      then show ?thesis unfolding map_add_upt by simp
    qed simp
    have "extend n (drop (i + 1) rs) (i + 1) (m - 1) =
        concat (map (\<lambda>j. edge j (trie_find root (word_at rs i j))) [i + 1..<min (i + m) (length rs)])"
      unfolding extend_spec e map_map comp_def w by (simp add: add.commute)
    then show ?thesis
      using Some by (simp add: nexts_at_def trie_find_def)
  qed
qed

text \<open>
  For every rune of a text the outgoing edges are exactly: the rune alone, with its entry if it has one,
  and then, by length, every longer word of the dictionary that starts there and has at most
  \<open>max_word_len\<close> runes, with its entry.
\<close>

theorem nexts_at_edges:
  "i < length rs \<Longrightarrow> nexts_at root rs m i = (i, trie_find root [rs ! i]) #
    concat (map (\<lambda>j. edge j (trie_find root (word_at rs i j))) [i + 1..<min (i + m) (length rs)])"
  by (rule nexts_at_spec)

theorem nexts_at_edges_witness:
  "nexts_at (create_trie [[1, 2], [1], [1, 2, 3, 4], [2]] [10 :: nat, 20, 30, 40]) [1, 2, 3, 4] 3 0 = [(0, Some 20), (1, Some 10)]"
  using nexts_at_edges[of 0 "[1, 2, 3, 4]" "create_trie [[1, 2], [1], [1, 2, 3, 4], [2]] [10 :: nat, 20, 30, 40]" 3]
  by (simp add: create_trie_find word_at_def upt_rec edge_def)

section \<open>Releasing the trie\<close>

text \<open>\<open>DeleteNode\<close>: the nodes, by the runes that lead to them, in the order they are deleted.\<close>

fun delete_node :: "'v trie_node \<Rightarrow> rune list list" where
  "delete_node (Trie_Node next value) = concat (map (\<lambda>(r, n). map (\<lambda>p. r # p) (delete_node n)) next) @ [[]]"

fun node_at :: "'v trie_node \<Rightarrow> rune list \<Rightarrow> 'v trie_node option" where
  "node_at n [] = Some n"
| "node_at n (r # rs) = (case map_of (next_map n) r of None \<Rightarrow> None | Some m \<Rightarrow> node_at m rs)"

fun keys_distinct :: "'v trie_node \<Rightarrow> bool" where
  "keys_distinct (Trie_Node next value) \<longleftrightarrow> distinct (map fst next) \<and> (\<forall>(r, n) \<in> set next. keys_distinct n)"

lemma delete_node_member:
  "keys_distinct n \<Longrightarrow> p \<in> set (delete_node n) \<longleftrightarrow> node_at n p \<noteq> None"
proof (induction n arbitrary: p)
  case (Trie_Node nxt v)
  show ?case
  proof (cases p)
    case (Cons r rs)
    have m: "map_of nxt r = Some n \<longleftrightarrow> (r, n) \<in> set nxt" for n
      using Trie_Node.prems by simp
    have "p \<in> set (delete_node (Trie_Node nxt v)) \<longleftrightarrow> (\<exists>n. (r, n) \<in> set nxt \<and> rs \<in> set (delete_node n))"
      by (force simp: Cons)
    also have "\<dots> \<longleftrightarrow> (\<exists>n. (r, n) \<in> set nxt \<and> node_at n rs \<noteq> None)"
      using Trie_Node.IH[of _ _ rs] Trie_Node.prems by (fastforce simp: snds.simps)
    also have "\<dots> \<longleftrightarrow> node_at (Trie_Node nxt v) p \<noteq> None"
      by (auto simp: Cons m[symmetric] split: option.splits)
    finally show ?thesis .
  qed simp
qed

lemma delete_node_distinct: "keys_distinct n \<Longrightarrow> distinct (delete_node n)"
proof (induction n)
  case (Trie_Node nxt v)
  have "distinct (concat (map (\<lambda>(r, n). map (\<lambda>p. r # p) (delete_node n)) xs))"
    if "distinct (map fst xs)" "set xs \<subseteq> set nxt" for xs
    using that
  proof (induction xs)
    case (Cons x xs)
    obtain r n where x: "x = (r, n)" by fastforce
    then have "distinct (delete_node n)" using Trie_Node.IH[of "(r, n)" n] Trie_Node.prems Cons.prems by fastforce
    then show ?case using Cons x by (force simp: distinct_map inj_on_def)
  qed simp
  then show ?case using Trie_Node.prems by auto
qed

lemma update_member: "x \<in> set (AList.update k v al) \<Longrightarrow> x = (k, v) \<or> x \<in> set al"
  by (induction al) (auto split: if_splits)

lemma insert_keys_distinct: "keys_distinct n \<Longrightarrow> keys_distinct (insert_from ks v n)"
proof (induction ks v n rule: insert_from.induct)
  case (1 v n)
  then show ?case by (cases n) simp
next
  case (2 r rs v n)
  obtain nxt u where n: "n = Trie_Node nxt u" by (cases n)
  have "keys_distinct (insert_from rs v (case map_of nxt r of None \<Rightarrow> new_node | Some m \<Rightarrow> m))"
    using 2 by (auto simp: n split: option.splits dest: map_of_SomeD)
  then show ?case using 2(2) by (auto simp: n distinct_update dest!: update_member)
qed

text \<open>
  The destructor deletes every node of a trie that \<open>CreateTrie\<close> has built exactly once, the root last.
\<close>

theorem delete_node_frees_once:
  "distinct (delete_node (create_trie ks vs)) \<and> last (delete_node (create_trie ks vs)) = [] \<and>
    (p \<in> set (delete_node (create_trie ks vs)) \<longleftrightarrow> node_at (create_trie ks vs) p \<noteq> None)"
proof -
  have "keys_distinct (foldl (\<lambda>n (key, v). insert_node key v n) n kvs)" if "keys_distinct n" for n :: "'a trie_node" and kvs
    using that by (induction kvs arbitrary: n) (auto simp: insert_node_def insert_keys_distinct)
  then have k: "keys_distinct (create_trie ks vs)" by (simp add: create_trie_def)
  have "last (delete_node n) = []" for n :: "'a trie_node" by (cases n) simp
  then show ?thesis using delete_node_distinct[OF k] delete_node_member[OF k] by blast
qed

end
