(* ===== verification/MaxProb.thy ===== *)
theory MaxProb
  imports RuneTrie
begin

text \<open>
  Cutting by the most probable words of the dictionary: \<open>CalcDP\<close> and \<open>CutByDag\<close> of
  \<open>src/utils/cppjieba/MPSegment.hpp\<close>, over the graph of words that \<open>Trie.hpp\<close> finds.
  The weights are doubles.  Their arithmetic is a parameter: a linear order \<open>'w\<close>, a zero, an addition and
  the constant \<open>MIN_DOUBLE\<close>.  What is assumed of the addition is that it is monotone in its first argument,
  which rounding to nearest keeps; it need not be associative.
\<close>

section \<open>Words and weights\<close>

record 'w dict_unit =
  unit_word :: "rune list"
  unit_weight :: 'w
  unit_tag :: string

record 'w arith =
  zero_w :: 'w
  add_w :: "'w \<Rightarrow> 'w \<Rightarrow> 'w"
  min_double :: 'w

type_synonym 'w unit_dag = "('w dict_unit, 'w) dag"

definition edge_weight :: "'w \<Rightarrow> 'w dict_unit option \<Rightarrow> 'w" where
  "edge_weight min_weight p = (case p of Some u \<Rightarrow> unit_weight u | None \<Rightarrow> min_weight)"

definition edge_val :: "'w arith \<Rightarrow> 'w \<Rightarrow> 'w unit_dag list \<Rightarrow> nat \<times> 'w dict_unit option \<Rightarrow> 'w" where
  "edge_val a min_weight dags = (\<lambda>(nextPos, p).
     let val = zero_w a;
         val = (if nextPos + 1 < length dags then add_w a val (dag_weight (dags ! (nextPos + 1))) else val)
     in add_w a val (edge_weight min_weight p))"

text \<open>The loop over the edges: the better of two is kept, the earlier of two equals.\<close>

fun relax ::
    "(nat \<times> 'v option \<Rightarrow> 'w::linorder) \<Rightarrow> (nat \<times> 'v option) list \<Rightarrow> 'v option \<times> 'w \<Rightarrow> 'v option \<times> 'w" where
  "relax val [] best = best"
| "relax val (e # es) best = relax val es (if val e > snd best then (snd e, val e) else best)"

text \<open>The loop from the last node to the first.\<close>

fun dp_down :: "('w::linorder) arith \<Rightarrow> 'w \<Rightarrow> nat \<Rightarrow> 'w unit_dag list \<Rightarrow> 'w unit_dag list" where
  "dp_down a min_weight 0 dags = dags"
| "dp_down a min_weight (Suc i) dags =
     (case relax (edge_val a min_weight dags) (nexts (dags ! i)) (None, min_double a) of
        (p, w) \<Rightarrow> dp_down a min_weight i (dags[i := (dags ! i)\<lparr>p_info := p, dag_weight := w\<rparr>]))"

definition calc_dp :: "('w::linorder) arith \<Rightarrow> 'w \<Rightarrow> 'w unit_dag list \<Rightarrow> 'w unit_dag list" where
  "calc_dp a min_weight dags = dp_down a min_weight (length dags) dags"

text \<open>\<open>None\<close> is the failed assertion that a word of the dictionary is not empty.\<close>

function cut_by_dag :: "nat \<Rightarrow> 'w unit_dag list \<Rightarrow> nat \<Rightarrow> word_range list option" where
  "cut_by_dag begin_at dags i =
     (if i < length dags
      then case p_info (dags ! i) of
        Some p \<Rightarrow>
          if unit_word p = [] then None
          else map_option ((#) (begin_at + i, begin_at + i + length (unit_word p) - 1))
            (cut_by_dag begin_at dags (i + length (unit_word p)))
      | None \<Rightarrow> map_option ((#) (begin_at + i, begin_at + i)) (cut_by_dag begin_at dags (i + 1))
      else Some [])"
  by pat_completeness auto
termination by (relation "measure (\<lambda>(b, d, i). length d - i)") (auto intro!: diff_less_mono2)

declare cut_by_dag.simps [simp del]

definition mp_cut ::
    "('w::linorder) arith \<Rightarrow> 'w \<Rightarrow> 'w dict_unit trie_node \<Rightarrow> nat \<Rightarrow> rune list \<Rightarrow> nat \<Rightarrow> nat \<Rightarrow> word_range list option" where
  "mp_cut a min_weight root max_word_len rs b e =
     cut_by_dag b (calc_dp a min_weight (find_dags (zero_w a) root (take (e - b) (drop b rs)) max_word_len)) 0"

section \<open>What CalcDP computes\<close>

text \<open>The edges of a node lead forwards, inside the text, and are as long as their words.\<close>

definition edges_ok :: "nat \<Rightarrow> nat \<Rightarrow> (nat \<times> 'w dict_unit option) list \<Rightarrow> bool" where
  "edges_ok n i es \<longleftrightarrow> es \<noteq> [] \<and> (\<forall>(j, p) \<in> set es. i \<le> j \<and> j < n \<and>
     (case p of None \<Rightarrow> j = i | Some u \<Rightarrow> length (unit_word u) = j + 1 - i))"

definition dags_ok :: "'w unit_dag list \<Rightarrow> bool" where
  "dags_ok dags \<longleftrightarrow> (\<forall>i < length dags. edges_ok (length dags) i (nexts (dags ! i)))"

lemma relax_best:
  "snd best \<le> snd (relax val es best) \<and> (\<forall>e \<in> set es. val e \<le> snd (relax val es best)) \<and>
   (relax val es best = best \<or> (\<exists>e \<in> set es. relax val es best = (snd e, val e)))"
proof (induction es arbitrary: best)
  case (Cons e es)
  show ?case using Cons.IH[of "if val e > snd best then (snd e, val e) else best"] by (auto split: if_splits)
qed simp

lemma relax_cong: "(\<And>e. e \<in> set es \<Longrightarrow> val e = val' e) \<Longrightarrow> relax val es best = relax val' es best"
  by (induction es arbitrary: best) auto

lemma dp_down_length [simp]: "length (dp_down a m i dags) = length dags"
  by (induction i arbitrary: dags) (simp_all add: case_prod_unfold)

lemma nexts_update: "nexts d = nexts (dags ! i) \<Longrightarrow> nexts (dags[i := d] ! k) = nexts (dags ! k)"
  by (cases "i = k"; cases "i < length dags") (simp_all add: list_update_beyond)

lemma dp_down_nexts [simp]: "nexts (dp_down a m i dags ! k) = nexts (dags ! k)"
  by (induction i arbitrary: dags) (simp_all add: case_prod_unfold nexts_update)

text \<open>A node is settled when it holds the best of its edges, by the final weights.\<close>

definition settled :: "('w::linorder) arith \<Rightarrow> 'w \<Rightarrow> 'w unit_dag list \<Rightarrow> nat \<Rightarrow> bool" where
  "settled a m dags k \<longleftrightarrow>
     (p_info (dags ! k), dag_weight (dags ! k)) = relax (edge_val a m dags) (nexts (dags ! k)) (None, min_double a)"

lemma settled_update:
  assumes "dags_ok dags" "i < k" "k < length dags" "settled a m dags k" "nexts d = nexts (dags ! i)"
  shows "settled a m (dags[i := d]) k"
proof -
  have "edges_ok (length dags) k (nexts (dags ! k))" using assms by (simp add: dags_ok_def)
  then have "relax (edge_val a m (dags[i := d])) (nexts (dags ! k)) best = relax (edge_val a m dags) (nexts (dags ! k)) best" for best
    using assms(2,3) by (intro relax_cong) (auto simp: edge_val_def edges_ok_def Let_def case_prod_unfold)
  then show ?thesis using assms(2,3,4) by (simp add: settled_def)
qed

lemma settled_self:
  assumes "dags_ok dags" "i < length dags" "relax (edge_val a m dags) (nexts (dags ! i)) (None, min_double a) = (p, w)"
  shows "settled a m (dags[i := (dags ! i)\<lparr>p_info := p, dag_weight := w\<rparr>]) i"
proof -
  let ?d = "dags[i := (dags ! i)\<lparr>p_info := p, dag_weight := w\<rparr>]"
  have "edges_ok (length dags) i (nexts (dags ! i))" using assms by (simp add: dags_ok_def)
  then have "relax (edge_val a m ?d) (nexts (dags ! i)) best = relax (edge_val a m dags) (nexts (dags ! i)) best" for best
    using assms(2) by (intro relax_cong) (auto simp: edge_val_def edges_ok_def Let_def case_prod_unfold)
  then show ?thesis using assms(2,3) by (simp add: settled_def)
qed

lemma dags_ok_update: "dags_ok dags \<Longrightarrow> nexts d = nexts (dags ! i) \<Longrightarrow> dags_ok (dags[i := d])"
  by (simp add: dags_ok_def nexts_update)

lemma dp_down_settled:
  "dags_ok dags \<Longrightarrow> i \<le> length dags \<Longrightarrow> \<forall>k. i \<le> k \<and> k < length dags \<longrightarrow> settled a m dags k \<Longrightarrow>
     k < length dags \<Longrightarrow> settled a m (dp_down a m i dags) k"
proof (induction i arbitrary: dags)
  case (Suc i)
  obtain p w where r: "relax (edge_val a m dags) (nexts (dags ! i)) (None, min_double a) = (p, w)" by fastforce
  let ?d = "dags[i := (dags ! i)\<lparr>p_info := p, dag_weight := w\<rparr>]"
  have i: "i < length dags" using Suc.prems(2) by simp
  have "settled a m ?d k" if "i \<le> k" "k < length ?d" for k
  proof (cases "k = i")
    case True
    then show ?thesis using settled_self[OF Suc.prems(1) i r] by simp
  next
    case False
    then show ?thesis using that Suc.prems(3) by (intro settled_update[OF Suc.prems(1)]) auto
  qed
  then have "settled a m (dp_down a m i ?d) k"
    using Suc.prems i by (intro Suc.IH dags_ok_update) auto
  then show ?case by (simp add: r)
qed simp

lemma calc_dp_settled:
  assumes "dags_ok dags" "k < length dags"
  shows "settled a m (calc_dp a m dags) k"
  unfolding calc_dp_def by (rule dp_down_settled[OF assms(1) le_refl _ assms(2)]) auto

lemma calc_dp_ok: "dags_ok dags \<Longrightarrow> dags_ok (calc_dp a m dags)"
  by (simp add: calc_dp_def dags_ok_def)

lemma calc_dp_nexts [simp]:
  "length (calc_dp a m dags) = length dags" "nexts (calc_dp a m dags ! k) = nexts (dags ! k)"
  by (simp_all add: calc_dp_def)

section \<open>Cuts as paths\<close>

text \<open>A path from rune \<open>i\<close> to the end along the edges, and its weight, added up from the end as \<open>CalcDP\<close> does.\<close>

fun path_ok :: "'w unit_dag list \<Rightarrow> nat \<Rightarrow> (nat \<times> 'w dict_unit option) list \<Rightarrow> bool" where
  "path_ok dags i [] = (i = length dags)"
| "path_ok dags i (e # es) = (i < length dags \<and> e \<in> set (nexts (dags ! i)) \<and> path_ok dags (fst e + 1) es)"

fun path_weight :: "'w arith \<Rightarrow> 'w \<Rightarrow> (nat \<times> 'w dict_unit option) list \<Rightarrow> 'w" where
  "path_weight a m [] = zero_w a"
| "path_weight a m (e # es) =
     add_w a (if es = [] then zero_w a else add_w a (zero_w a) (path_weight a m es)) (edge_weight m (snd e))"

definition path_ranges :: "nat \<Rightarrow> nat \<Rightarrow> (nat \<times> 'w dict_unit option) list \<Rightarrow> word_range list" where
  "path_ranges b i es = zip (map ((+) b) (i # map (\<lambda>e. fst e + 1) es)) (map (\<lambda>e. b + fst e) es)"

lemma path_ranges_simps [simp]:
  "path_ranges b i [] = []" "path_ranges b i (e # es) = (b + i, b + fst e) # path_ranges b (fst e + 1) es"
  by (simp_all add: path_ranges_def)

definition mono_add :: "('w::linorder) arith \<Rightarrow> bool" where
  "mono_add a \<longleftrightarrow> (\<forall>x y z. x \<le> y \<longrightarrow> add_w a x z \<le> add_w a y z) \<and> (\<forall>x y. x \<le> y \<longrightarrow> add_w a (zero_w a) x \<le> add_w a (zero_w a) y)"

lemma dag_edge:
  "dags_ok dags \<Longrightarrow> i < length dags \<Longrightarrow> e \<in> set (nexts (dags ! i)) \<Longrightarrow>
     i \<le> fst e \<and> fst e < length dags \<and> (case snd e of None \<Rightarrow> fst e = i | Some u \<Rightarrow> length (unit_word u) = fst e + 1 - i)"
  by (cases e) (fastforce simp: dags_ok_def edges_ok_def split: option.split)

lemma path_nonempty: "path_ok dags i es \<Longrightarrow> es \<noteq> [] \<longleftrightarrow> i < length dags"
  by (cases es) auto

lemma val_path:
  assumes "mono_add a" "path_ok dags (fst e + 1) es"
  shows "es \<noteq> [] \<Longrightarrow> path_weight a m es \<le> dag_weight (dags ! (fst e + 1)) \<Longrightarrow> path_weight a m (e # es) \<le> edge_val a m dags e"
    and "es = [] \<Longrightarrow> path_weight a m (e # es) = edge_val a m dags e"
    and "es \<noteq> [] \<Longrightarrow> path_weight a m es = dag_weight (dags ! (fst e + 1)) \<Longrightarrow> path_weight a m (e # es) = edge_val a m dags e"
  using assms(1) path_nonempty[OF assms(2)] by (auto simp: edge_val_def case_prod_unfold mono_add_def Let_def)

text \<open>No path weighs more than the node it starts at.\<close>

lemma path_bound:
  assumes "mono_add a" "dags_ok dags" "\<And>k. k < length dags \<Longrightarrow> settled a m dags k"
  shows "path_ok dags i es \<Longrightarrow> es \<noteq> [] \<Longrightarrow> path_weight a m es \<le> dag_weight (dags ! i)"
proof (induction es arbitrary: i)
  case (Cons e es)
  have i: "i < length dags" "e \<in> set (nexts (dags ! i))" and p: "path_ok dags (fst e + 1) es" using Cons.prems(1) by auto
  have "path_weight a m (e # es) \<le> edge_val a m dags e"
  proof (cases "es = []")
    case True
    then show ?thesis using val_path(2)[OF assms(1) p] by simp
  next
    case False
    then show ?thesis using val_path(1)[OF assms(1) p] Cons.IH[OF p] by simp
  qed
  also have "\<dots> \<le> snd (relax (edge_val a m dags) (nexts (dags ! i)) (None, min_double a))"
    using relax_best i(2) by blast
  also have "\<dots> = dag_weight (dags ! i)"
    using assms(3)[OF i(1)] unfolding settled_def by (metis snd_conv)
  finally show ?case .
qed simp

text \<open>Following the choices is a path, and it weighs what the node says.\<close>

lemma follow_choices:
  assumes "mono_add a" "dags_ok dags" "\<And>k. k < length dags \<Longrightarrow> settled a m dags k"
    and above: "\<And>i es. path_ok dags i es \<Longrightarrow> es \<noteq> [] \<Longrightarrow> min_double a < path_weight a m es"
  shows "i \<le> length dags \<Longrightarrow> \<exists>es. cut_by_dag b dags i = Some (path_ranges b i es) \<and> path_ok dags i es \<and>
    (es \<noteq> [] \<longrightarrow> path_weight a m es = dag_weight (dags ! i))"
proof (induction "length dags - i" arbitrary: i rule: less_induct)
  case less
  show ?case
  proof (cases "i < length dags")
    case False
    then show ?thesis using less.prems by (intro exI[of _ "[]"]) (simp add: cut_by_dag.simps)
  next
    case True
    let ?rx = "relax (edge_val a m dags) (nexts (dags ! i)) (None, min_double a)"
    have s: "(p_info (dags ! i), dag_weight (dags ! i)) = ?rx" using assms(3)[OF True] by (simp add: settled_def)
    have ne: "nexts (dags ! i) \<noteq> []" using assms(2) True by (simp add: dags_ok_def edges_ok_def)
    have node: "\<exists>es. path_ok dags k es" if "k \<le> length dags" for k
      using that
    proof (induction "length dags - k" arbitrary: k rule: less_induct)
      case less
      show ?case
      proof (cases "k < length dags")
        case True
        then obtain e where e: "e \<in> set (nexts (dags ! k))" using assms(2) by (fastforce simp: dags_ok_def edges_ok_def neq_Nil_conv)
        have k: "k \<le> fst e" "fst e < length dags" using dag_edge[OF assms(2) True e] by auto
        then obtain es where "path_ok dags (fst e + 1) es" using less(1)[of "fst e + 1"] True diff_less_mono2[of k "fst e + 1" "length dags"] by auto
        then show ?thesis using e True by (intro exI[of _ "e # es"]) simp
      next
        case False
        then show ?thesis using less.prems by (intro exI[of _ "[]"]) simp
      qed
    qed
    have big: "min_double a < dag_weight (dags ! i)"
      using node[of i] True path_nonempty path_bound[OF assms(1-3)] above by (metis less_imp_le_nat order_less_le_trans)
    obtain e where e: "e \<in> set (nexts (dags ! i))" "?rx = (snd e, edge_val a m dags e)"
      using relax_best[of "(None, min_double a)" "edge_val a m dags" "nexts (dags ! i)"] big s by (metis order_less_irrefl snd_conv)
    have ce: "p_info (dags ! i) = snd e" "dag_weight (dags ! i) = edge_val a m dags e" using s e(2) by simp_all
    have k: "i \<le> fst e" "fst e < length dags" using dag_edge[OF assms(2) True e(1)] by auto
    obtain es where es: "cut_by_dag b dags (fst e + 1) = Some (path_ranges b (fst e + 1) es)" "path_ok dags (fst e + 1) es"
      "es \<noteq> [] \<longrightarrow> path_weight a m es = dag_weight (dags ! (fst e + 1))"
      using less(1)[of "fst e + 1"] k True diff_less_mono2[of i "fst e + 1" "length dags"] by auto
    have cut: "cut_by_dag b dags i = Some ((b + i, b + fst e) # path_ranges b (fst e + 1) es)"
    proof (cases "snd e")
      case None
      then have "fst e = i" using dag_edge[OF assms(2) True e(1)] by simp
      then show ?thesis using True ce(1) None es(1) by (subst cut_by_dag.simps) simp
    next
      case (Some u)
      then have l: "length (unit_word u) = fst e + 1 - i" using dag_edge[OF assms(2) True e(1)] by simp
      then have "i + length (unit_word u) = fst e + 1" "unit_word u \<noteq> []" using k by auto
      then show ?thesis using True ce(1) Some es(1) by (subst cut_by_dag.simps) simp
    qed
    have "path_weight a m (e # es) = dag_weight (dags ! i)"
      using val_path(2,3)[OF assms(1) es(2)] es(3) ce(2) by (cases "es = []") simp_all
    then show ?thesis
      using cut es(2) e(1) True by (intro exI[of _ "e # es"]) simp
  qed
qed

section \<open>Cuts of a text\<close>

lemma cut_divides:
  assumes "dags_ok dags" "\<And>k. k < length dags \<Longrightarrow> settled a m dags k"
  shows "i \<le> length dags \<Longrightarrow> \<exists>ws. cut_by_dag b dags i = Some ws \<and> divides (b + i) (b + length dags) ws"
proof (induction "length dags - i" arbitrary: i rule: less_induct)
  case less
  show ?case
  proof (cases "i < length dags")
    case False
    then show ?thesis using less.prems by (simp add: cut_by_dag.simps)
  next
    case True
    define k where "k = (case p_info (dags ! i) of None \<Rightarrow> i + 1 | Some u \<Rightarrow> i + length (unit_word u))"
    have s: "(p_info (dags ! i), dag_weight (dags ! i)) = relax (edge_val a m dags) (nexts (dags ! i)) (None, min_double a)"
      using assms(2)[OF True] by (simp add: settled_def)
    have k: "i < k" "k \<le> length dags" "\<And>u. p_info (dags ! i) = Some u \<Longrightarrow> unit_word u \<noteq> []"
    proof -
      have "p_info (dags ! i) = None \<or> (\<exists>e \<in> set (nexts (dags ! i)). p_info (dags ! i) = snd e)"
        using relax_best[of "(None, min_double a)" "edge_val a m dags" "nexts (dags ! i)"] s by (metis Pair_inject)
      then have "i < k \<and> k \<le> length dags \<and> (\<forall>u. p_info (dags ! i) = Some u \<longrightarrow> unit_word u \<noteq> [])"
        using True dag_edge[OF assms(1) True] by (auto simp: k_def split: option.splits) fastforce+
      then show "i < k" "k \<le> length dags" "\<And>u. p_info (dags ! i) = Some u \<Longrightarrow> unit_word u \<noteq> []" by auto
    qed
    obtain ws where ws: "cut_by_dag b dags k = Some ws" "divides (b + k) (b + length dags) ws"
      using less(1)[of k] k True diff_less_mono2[of i k "length dags"] by auto
    have "cut_by_dag b dags i = Some ((b + i, b + k - 1) # ws)"
      using True k(3) ws(1) by (subst cut_by_dag.simps) (auto simp: k_def split: option.splits)
    then show ?thesis using ws(2) k(1,2) True by auto
  qed
qed

definition trie_ok :: "'w dict_unit trie_node \<Rightarrow> bool" where
  "trie_ok root \<longleftrightarrow> (\<forall>ks u. trie_find root ks = Some u \<longrightarrow> unit_word u = ks)"

lemma zip_map_self: "(k, u) \<in> set (zip (map f us) us) \<Longrightarrow> f u = k"
  by (auto simp: in_set_zip)

lemma create_trie_ok: "trie_ok (create_trie (map unit_word us) us)"
  unfolding trie_ok_def
proof (intro allI impI)
  fix ks u
  assume "trie_find (create_trie (map unit_word us) us) ks = Some u"
  then have "map_of (rev (zip (map unit_word us) us)) ks = Some u"
    by (simp add: create_trie_find split: if_splits)
  then show "unit_word u = ks"
    using map_of_SomeD[of "rev (zip (map unit_word us) us)" ks u] zip_map_self by fastforce
qed

lemma find_dags_length [simp]: "length (find_dags z root rs m) = length rs"
  by (simp add: find_dags_def)

lemma find_dags_ok:
  assumes "trie_ok root"
  shows "dags_ok (find_dags z root rs m)"
proof -
  have "edges_ok (length rs) i (nexts_at root rs m i)" if "i < length rs" for i
  proof -
    have "edges_ok (length rs) i ((i, trie_find root [rs ! i]) #
        concat (map (\<lambda>j. edge j (trie_find root (word_at rs i j))) [i + 1..<min (i + m) (length rs)]))"
      using that assms
      by (auto simp: edges_ok_def edge_def trie_ok_def word_at_def split: option.splits)
    then show ?thesis by (simp add: nexts_at_spec[OF that])
  qed
  then show ?thesis by (simp add: dags_ok_def find_dags_def)
qed

lemma mp_cut_divides:
  assumes "trie_ok root" "b \<le> e" "e \<le> length rs"
  shows "\<exists>ws. mp_cut a m root k rs b e = Some ws \<and> divides b e ws"
proof -
  let ?d = "calc_dp a m (find_dags (zero_w a) root (take (e - b) (drop b rs)) k)"
  have "\<exists>ws. cut_by_dag b ?d 0 = Some ws \<and> divides (b + 0) (b + length ?d) ws"
    by (rule cut_divides[where a = a and m = m]) (simp_all add: calc_dp_ok calc_dp_settled find_dags_ok[OF assms(1)])
  then show ?thesis using assms by (simp add: mp_cut_def)
qed

lemma path_ok_calc [simp]: "path_ok (calc_dp a m dags) i es = path_ok dags i es"
  by (induction es arbitrary: i) simp_all

text \<open>
  C14. The cut is a most probable one: among all the ways to divide the range into words of the dictionary
  of at most \<open>max_word_len\<close> runes and single runes, none weighs more than the one chosen, provided the
  addition is monotone and no weight falls to \<open>MIN_DOUBLE\<close>.
\<close>

theorem mp_cut_optimal:
  assumes "trie_ok root" "mono_add a"
    and "\<And>i es. path_ok (find_dags (zero_w a) root (take (e - b) (drop b rs)) k) i es \<Longrightarrow> es \<noteq> [] \<Longrightarrow>
      min_double a < path_weight a m es"
  shows "\<exists>es. mp_cut a m root k rs b e = Some (path_ranges b 0 es) \<and>
    path_ok (find_dags (zero_w a) root (take (e - b) (drop b rs)) k) 0 es \<and>
    (\<forall>es'. path_ok (find_dags (zero_w a) root (take (e - b) (drop b rs)) k) 0 es' \<longrightarrow> path_weight a m es' \<le> path_weight a m es)"
proof -
  let ?f = "find_dags (zero_w a) root (take (e - b) (drop b rs)) k"
  let ?d = "calc_dp a m ?f"
  have ok: "dags_ok ?d" and st: "\<And>k. k < length ?d \<Longrightarrow> settled a m ?d k"
    by (simp_all add: calc_dp_ok calc_dp_settled find_dags_ok[OF assms(1)])
  have above: "\<And>i es. path_ok ?d i es \<Longrightarrow> es \<noteq> [] \<Longrightarrow> min_double a < path_weight a m es"
    using assms(3) by simp
  have "\<exists>es. cut_by_dag b ?d 0 = Some (path_ranges b 0 es) \<and> path_ok ?d 0 es \<and>
      (es \<noteq> [] \<longrightarrow> path_weight a m es = dag_weight (?d ! 0))"
    by (rule follow_choices[OF assms(2) ok]) (use st above in simp_all)
  then obtain es where es: "cut_by_dag b ?d 0 = Some (path_ranges b 0 es)" "path_ok ?d 0 es"
    "es \<noteq> [] \<longrightarrow> path_weight a m es = dag_weight (?d ! 0)"
    by blast
  have bound: "path_weight a m es' \<le> dag_weight (?d ! 0)" if "path_ok ?d 0 es'" "es' \<noteq> []" for es'
    by (rule path_bound[OF assms(2) ok st that])
  have "path_weight a m es' \<le> path_weight a m es" if "path_ok ?d 0 es'" for es'
    using that es(2,3) bound[OF that] path_nonempty[OF that] path_nonempty[OF es(2)]
    by (cases "es' = []") auto
  then show ?thesis using es(1,2) by (auto simp: mp_cut_def)
qed

definition nat_arith :: "nat arith" where
  "nat_arith = \<lparr>zero_w = 0, add_w = (+), min_double = 0\<rparr>"

definition small_dict :: "nat dict_unit trie_node" where
  "small_dict = create_trie [[1, 2], [2, 3], [1, 2, 3]]
     [\<lparr>unit_word = [1, 2], unit_weight = 5, unit_tag = []\<rparr>, \<lparr>unit_word = [2, 3], unit_weight = 7, unit_tag = []\<rparr>,
      \<lparr>unit_word = [1, 2, 3], unit_weight = 6, unit_tag = []\<rparr>]"

theorem mp_cut_optimal_witness:
  "\<exists>es. mp_cut nat_arith 1 small_dict 512 [1, 2, 3] 0 3 = Some (path_ranges 0 0 es) \<and>
    path_ok (find_dags 0 small_dict [1, 2, 3] 512) 0 es"
proof -
  have units: "trie_find small_dict ks = Some u \<Longrightarrow> unit_word u = ks \<and> 1 \<le> unit_weight u" for ks u
    by (auto simp: small_dict_def create_trie_find split: if_splits)
  then have ok: "trie_ok small_dict" by (simp add: trie_ok_def)
  have mono: "mono_add nat_arith" by (simp add: mono_add_def nat_arith_def)
  have ne: "i < length rs \<Longrightarrow> e \<in> set (nexts_at small_dict rs m i) \<Longrightarrow> 1 \<le> edge_weight 1 (snd e)" for i rs m e
    using units by (auto simp: nexts_at_spec edge_weight_def edge_def split: option.splits)
  have "0 < path_weight nat_arith 1 es" if "path_ok (find_dags 0 small_dict rs m) i es" "es \<noteq> []" for rs m i es
  proof (cases es)
    case (Cons x xs)
    then have "1 \<le> edge_weight 1 (snd x)" using that ne[of i rs x m] by (auto simp: find_dags_def)
    then show ?thesis using Cons by (auto simp: nat_arith_def)
  qed (use that in simp)
  then have above: "min_double nat_arith < path_weight nat_arith 1 es"
    if "path_ok (find_dags (zero_w nat_arith) small_dict (take (3 - 0) (drop 0 [1, 2, 3])) 512) i es" "es \<noteq> []" for i es
    using that by (auto simp: nat_arith_def)
  show ?thesis
    using mp_cut_optimal[of small_dict nat_arith 3 0 "[1, 2, 3]" 512 1] ok mono above by (auto simp: nat_arith_def)
qed

end
