(* ===== verification/Hmm.thy ===== *)
theory Hmm
  imports MaxProb
begin

text \<open>
  Cutting runs of unknown runes by a hidden Markov model: \<open>HMMSegment.hpp\<close> and the tables of
  \<open>HMMModel.hpp\<close> (\<open>src/utils/cppjieba/\<close>), with \<open>Viterbi\<close> over the four states begin, end, middle and single.
  The arithmetic of weights is the parameter of \<open>MaxProb\<close>.
\<close>

section \<open>The model\<close>

abbreviation stB :: nat where "stB \<equiv> 0"
abbreviation stE :: nat where "stE \<equiv> 1"
abbreviation stM :: nat where "stM \<equiv> 2"
abbreviation stS :: nat where "stS \<equiv> 3"

definition STATUS_SUM :: nat where "STATUS_SUM = 4"

record 'w hmm_model =
  start_prob :: "'w list"
  trans_prob :: "'w list list"
  emit_prob :: "(rune \<rightharpoonup> 'w) list"

definition get_emit_prob :: "'w arith \<Rightarrow> 'w hmm_model \<Rightarrow> nat \<Rightarrow> rune \<Rightarrow> 'w" where
  "get_emit_prob a m y r = (case (emit_prob m ! y) r of None \<Rightarrow> min_double a | Some w \<Rightarrow> w)"

section \<open>Viterbi\<close>

text \<open>
  A column holds, for every state, the best weight of a run that ends in it and the state before it (-1 in
  the first column).  The columns are kept newest first.
\<close>

type_synonym 'w column = "('w \<times> int) list"

definition first_col :: "'w arith \<Rightarrow> 'w hmm_model \<Rightarrow> rune \<Rightarrow> 'w column" where
  "first_col a m r = map (\<lambda>y. (add_w a (start_prob m ! y) (get_emit_prob a m y r), -1)) [0..<STATUS_SUM]"

definition step_weight :: "'w arith \<Rightarrow> 'w hmm_model \<Rightarrow> rune \<Rightarrow> nat \<Rightarrow> 'w \<Rightarrow> nat \<Rightarrow> 'w" where
  "step_weight a m r y old pre_y = add_w a (add_w a old (trans_prob m ! pre_y ! y)) (get_emit_prob a m y r)"

fun best_prev :: "(nat \<Rightarrow> 'w::linorder) \<Rightarrow> nat list \<Rightarrow> 'w \<times> int \<Rightarrow> 'w \<times> int" where
  "best_prev tmp [] best = best"
| "best_prev tmp (y # ys) best = best_prev tmp ys (if tmp y > fst best then (tmp y, int y) else best)"

definition next_col :: "('w::linorder) arith \<Rightarrow> 'w hmm_model \<Rightarrow> 'w column \<Rightarrow> rune \<Rightarrow> 'w column" where
  "next_col a m c r =
     map (\<lambda>y. best_prev (\<lambda>pre_y. step_weight a m r y (fst (c ! pre_y)) pre_y) [0..<STATUS_SUM] (min_double a, int stE))
       [0..<STATUS_SUM]"

fun columns :: "('w::linorder) arith \<Rightarrow> 'w hmm_model \<Rightarrow> rune list \<Rightarrow> 'w column list \<Rightarrow> 'w column list" where
  "columns a m [] cols = cols"
| "columns a m (r # rs) cols = columns a m rs (next_col a m (hd cols) r # cols)"

fun backtrack :: "'w column list \<Rightarrow> nat \<Rightarrow> nat list" where
  "backtrack [] stat = []"
| "backtrack (c # cols) stat = backtrack cols (nat (snd (c ! stat))) @ [stat]"

definition viterbi :: "('w::linorder) arith \<Rightarrow> 'w hmm_model \<Rightarrow> rune list \<Rightarrow> nat list" where
  "viterbi a m rs =
     (let cols = columns a m (tl rs) [first_col a m (hd rs)];
          end_e = fst (hd cols ! stE); end_s = fst (hd cols ! stS)
      in backtrack cols (if end_e \<ge> end_s then stE else stS))"

section \<open>The ranges\<close>

text \<open>A range ends at every odd state, which are end and single.\<close>

fun status_ranges :: "nat \<Rightarrow> nat \<Rightarrow> nat list \<Rightarrow> word_range list" where
  "status_ranges left i [] = []"
| "status_ranges left i (s # ss) =
     (if odd s then (left, i) # status_ranges (i + 1) (i + 1) ss else status_ranges left (i + 1) ss)"

definition internal_cut :: "('w::linorder) arith \<Rightarrow> 'w hmm_model \<Rightarrow> rune list \<Rightarrow> nat \<Rightarrow> nat \<Rightarrow> word_range list" where
  "internal_cut a m rs b e = status_ranges b b (viterbi a m (take (e - b) (drop b rs)))"

definition is_letter :: "rune \<Rightarrow> bool" where
  "is_letter x \<longleftrightarrow> (97 \<le> x \<and> x \<le> 122) \<or> (65 \<le> x \<and> x \<le> 90)"

definition is_number :: "rune \<Rightarrow> bool" where
  "is_number x \<longleftrightarrow> 48 \<le> x \<and> x \<le> 57"

function scan_runes :: "(rune \<Rightarrow> bool) \<Rightarrow> rune list \<Rightarrow> nat \<Rightarrow> nat \<Rightarrow> nat" where
  "scan_runes P rs i e = (if i < e \<and> P (rs ! i) then scan_runes P rs (i + 1) e else i)"
  by pat_completeness auto
termination by (relation "measure (\<lambda>(P, rs, i, e). e - i)") auto

declare scan_runes.simps [simp del]

definition sequential_letter_rule :: "rune list \<Rightarrow> nat \<Rightarrow> nat \<Rightarrow> nat" where
  "sequential_letter_rule rs b e =
     (if is_letter (rs ! b) then scan_runes (\<lambda>x. is_letter x \<or> is_number x) rs (b + 1) e else b)"

definition numbers_rule :: "rune list \<Rightarrow> nat \<Rightarrow> nat \<Rightarrow> nat" where
  "numbers_rule rs b e =
     (if is_number (rs ! b) then scan_runes (\<lambda>x. is_number x \<or> x = 46) rs (b + 1) e else b)"

definition ascii_end :: "rune list \<Rightarrow> nat \<Rightarrow> nat \<Rightarrow> nat" where
  "ascii_end rs left e =
     (let right = sequential_letter_rule rs left e in
      if right \<noteq> left then right
      else let right = numbers_rule rs left e in
        if right \<noteq> left then right else right + 1)"

lemma scan_runes_bounds: "i \<le> scan_runes P rs i e \<and> (i \<le> e \<longrightarrow> scan_runes P rs i e \<le> e)"
  by (induction P rs i e rule: scan_runes.induct) (subst (1 2) scan_runes.simps, auto)

lemma ascii_end_bounds: "left < ascii_end rs left e \<and> (left < e \<longrightarrow> ascii_end rs left e \<le> e)"
  using scan_runes_bounds[of "left + 1" _ rs e]
  by (fastforce simp: ascii_end_def Let_def sequential_letter_rule_def numbers_rule_def Suc_le_eq)

text \<open>The runes below 0x80 are cut by the two rules, the others by the model.\<close>

function hmm_loop :: "('w::linorder) arith \<Rightarrow> 'w hmm_model \<Rightarrow> rune list \<Rightarrow> nat \<Rightarrow> nat \<Rightarrow> nat \<Rightarrow> word_range list" where
  "hmm_loop a m rs e left right =
     (if right < e
      then
        if rs ! right < 0x80
        then (if left \<noteq> right then internal_cut a m rs left right else []) @
          (right, ascii_end rs right e - 1) # hmm_loop a m rs e (ascii_end rs right e) (ascii_end rs right e)
        else hmm_loop a m rs e left (right + 1)
      else if left \<noteq> right then internal_cut a m rs left right else [])"
  by pat_completeness auto
termination
  by (relation "measure (\<lambda>(a, m, rs, e, left, right). e - right)") (auto intro!: diff_less_mono2 simp: ascii_end_bounds)

declare hmm_loop.simps [simp del]

definition hmm_cut :: "('w::linorder) arith \<Rightarrow> 'w hmm_model \<Rightarrow> rune list \<Rightarrow> nat \<Rightarrow> nat \<Rightarrow> word_range list" where
  "hmm_cut a m rs b e = hmm_loop a m rs e b b"

section \<open>The best states\<close>

text \<open>The weight of a sequence of states for a text, both newest first, added up as \<open>Viterbi\<close> does.\<close>

fun states_weight :: "'w arith \<Rightarrow> 'w hmm_model \<Rightarrow> rune list \<Rightarrow> nat list \<Rightarrow> 'w" where
  "states_weight a m (r # rs) (y # ys) =
     (if rs = [] then add_w a (start_prob m ! y) (get_emit_prob a m y r)
      else step_weight a m r y (states_weight a m rs ys) (hd ys))"
| "states_weight a m _ _ = min_double a"

definition states_ok :: "rune list \<Rightarrow> nat list \<Rightarrow> bool" where
  "states_ok rs ys \<longleftrightarrow> length ys = length rs \<and> (\<forall>y \<in> set ys. y < STATUS_SUM)"

lemma columns_snoc: "columns a m (rs @ [r]) cols = next_col a m (hd (columns a m rs cols)) r # columns a m rs cols"
  by (induction rs arbitrary: cols) simp_all

lemma best_prev_best:
  "fst best \<le> fst (best_prev tmp ys best) \<and> (\<forall>y \<in> set ys. tmp y \<le> fst (best_prev tmp ys best)) \<and>
   (best_prev tmp ys best = best \<or> (\<exists>y \<in> set ys. best_prev tmp ys best = (tmp y, int y)))"
proof (induction ys arbitrary: best)
  case (Cons y ys)
  show ?case using Cons.IH[of "if tmp y > fst best then (tmp y, int y) else best"] by (auto split: if_splits)
qed simp

definition cols_of :: "('w::linorder) arith \<Rightarrow> 'w hmm_model \<Rightarrow> rune list \<Rightarrow> 'w column list" where
  "cols_of a m rs = columns a m (tl (rev rs)) [first_col a m (hd (rev rs))]"

lemma cols_of_one [simp]: "cols_of a m [r] = [first_col a m r]"
  by (simp add: cols_of_def)

lemma cols_of_Cons: "rs \<noteq> [] \<Longrightarrow> cols_of a m (r # rs) = next_col a m (hd (cols_of a m rs)) r # cols_of a m rs"
  by (cases "rev rs") (simp_all add: cols_of_def columns_snoc)

text \<open>After every rune, each column entry is the best weight of its state, and its back pointers reach it.\<close>

lemma columns_best:
  assumes "mono_add a" "rs \<noteq> []"
    and above: "\<And>k ys. k < length rs \<Longrightarrow> states_ok (drop k rs) ys \<Longrightarrow> min_double a < states_weight a m (drop k rs) ys"
  shows "y < STATUS_SUM \<Longrightarrow>
      states_ok rs (rev (backtrack (cols_of a m rs) y)) \<and> hd (rev (backtrack (cols_of a m rs) y)) = y \<and>
      states_weight a m rs (rev (backtrack (cols_of a m rs) y)) = fst (hd (cols_of a m rs) ! y) \<and>
      (\<forall>ys. states_ok rs (y # ys) \<longrightarrow> states_weight a m rs (y # ys) \<le> fst (hd (cols_of a m rs) ! y))"
  using assms(2) above
proof (induction rs arbitrary: y)
  case (Cons r rs)
  show ?case
  proof (cases "rs = []")
    case True
    then show ?thesis using Cons.prems(1) by (auto simp: first_col_def states_ok_def)
  next
    case False
    let ?c = "cols_of a m rs"
    let ?tmp = "\<lambda>p. step_weight a m r y (fst (hd ?c ! p)) p"
    have IH: "p < STATUS_SUM \<Longrightarrow> states_ok rs (rev (backtrack ?c p)) \<and> hd (rev (backtrack ?c p)) = p \<and>
        states_weight a m rs (rev (backtrack ?c p)) = fst (hd ?c ! p) \<and>
        (\<forall>ys. states_ok rs (p # ys) \<longrightarrow> states_weight a m rs (p # ys) \<le> fst (hd ?c ! p))" for p
      using Cons.IH[of p] False Cons.prems(3)[of "Suc _"] by simp
    have mono: "x \<le> z \<Longrightarrow> step_weight a m r y x p \<le> step_weight a m r y z p" for x z p
      using assms(1) by (simp add: step_weight_def mono_add_def)
    have col: "hd (cols_of a m (r # rs)) ! y = best_prev ?tmp [0..<STATUS_SUM] (min_double a, int stE)"
      using Cons.prems(1) by (simp add: cols_of_Cons[OF False] next_col_def)
    have w: "states_weight a m (r # rs) (y # rev (backtrack ?c p)) = ?tmp p" if "p < STATUS_SUM" for p
      using IH[OF that] False by simp
    have ok: "states_ok (r # rs) (y # rev (backtrack ?c p))" if "p < STATUS_SUM" for p
      using IH[OF that] Cons.prems(1) by (simp add: states_ok_def)
    have "min_double a < ?tmp 0"
      using Cons.prems(3)[of 0 "y # rev (backtrack ?c 0)"] ok[of 0] w[of 0] by (simp add: STATUS_SUM_def)
    moreover have "?tmp 0 \<le> fst (best_prev ?tmp [0..<STATUS_SUM] (min_double a, int stE))"
      by (rule bspec[OF best_prev_best[THEN conjunct2, THEN conjunct1]]) (simp add: STATUS_SUM_def)
    ultimately have "best_prev ?tmp [0..<STATUS_SUM] (min_double a, int stE) \<noteq> (min_double a, int stE)"
      by (metis fst_conv not_less)
    then obtain p where p: "p < STATUS_SUM" "hd (cols_of a m (r # rs)) ! y = (?tmp p, int p)"
      using best_prev_best[of "(min_double a, int stE)" ?tmp "[0..<STATUS_SUM]"] col by auto
    have bk: "rev (backtrack (cols_of a m (r # rs)) y) = y # rev (backtrack ?c p)"
      using p(2) by (simp add: cols_of_Cons[OF False])
    have "states_weight a m (r # rs) (y # ys) \<le> ?tmp p" if ys: "states_ok (r # rs) (y # ys)" for ys
    proof -
      obtain q zs where q: "ys = q # zs" using ys False by (cases ys) (auto simp: states_ok_def)
      have qs: "q < STATUS_SUM" "states_ok rs ys" using ys q by (auto simp: states_ok_def)
      have "states_weight a m (r # rs) (y # ys) \<le> ?tmp q"
        using IH[OF qs(1)] qs(2) False q by (simp add: mono)
      also have "\<dots> \<le> ?tmp p"
        using best_prev_best[of "(min_double a, int stE)" ?tmp "[0..<STATUS_SUM]"] qs(1) p(2) col by auto
      finally show ?thesis .
    qed
    then show ?thesis
      using bk w[OF p(1)] ok[OF p(1)] p(2) by simp
  qed
qed simp


lemma viterbi_cols: "rs \<noteq> [] \<Longrightarrow> viterbi a m rs =
    (let c = cols_of a m (rev rs) in backtrack c (if fst (hd c ! stE) \<ge> fst (hd c ! stS) then stE else stS))"
  by (simp add: viterbi_def cols_of_def)


section \<open>The ranges cover the text\<close>

lemma status_ranges_divides:
  "ss \<noteq> [] \<Longrightarrow> odd (last ss) \<Longrightarrow> left \<le> i \<Longrightarrow> divides left (i + length ss) (status_ranges left i ss)"
proof (induction left i ss rule: status_ranges.induct)
  case (2 left i s ss)
  then show ?case by (cases "ss = []") auto
qed simp

lemma backtrack_length [simp]: "length (backtrack c y) = length c"
  by (induction c y rule: backtrack.induct) simp_all

lemma backtrack_last: "c \<noteq> [] \<Longrightarrow> last (backtrack c y) = y"
  by (cases c) simp_all

lemma columns_length: "length (columns a m rs cols) = length rs + length cols"
  by (induction rs arbitrary: cols) simp_all

lemma viterbi_shape: "rs \<noteq> [] \<Longrightarrow> length (viterbi a m rs) = length rs \<and> odd (last (viterbi a m rs))"
proof -
  assume "rs \<noteq> []"
  then have "length (columns a m (tl rs) [first_col a m (hd rs)]) = length rs" "columns a m (tl rs) [first_col a m (hd rs)] \<noteq> []"
    using columns_length[of a m "tl rs" "[first_col a m (hd rs)]"] by auto
  then show ?thesis by (simp add: viterbi_def Let_def backtrack_last)
qed

lemma internal_cut_divides: "b < e \<Longrightarrow> e \<le> length rs \<Longrightarrow> divides b e (internal_cut a m rs b e)"
proof -
  assume "b < e" "e \<le> length rs"
  then have "take (e - b) (drop b rs) \<noteq> []" "length (take (e - b) (drop b rs)) = e - b" by auto
  then show ?thesis
    using status_ranges_divides[of "viterbi a m (take (e - b) (drop b rs))" b b] viterbi_shape[of "take (e - b) (drop b rs)" a m] \<open>b < e\<close>
    by (fastforce simp: internal_cut_def)
qed

lemma hmm_loop_divides:
  "left \<le> right \<Longrightarrow> right \<le> e \<Longrightarrow> e \<le> length rs \<Longrightarrow> divides left e (hmm_loop a m rs e left right)"
proof (induction a m rs e left right rule: hmm_loop.induct)
  case (1 a m rs e left right)
  show ?case
  proof (cases "right < e")
    case False
    then show ?thesis using 1 internal_cut_divides[of left right rs a m]
      by (subst hmm_loop.simps) (auto simp: le_less)
  next
    case True
    show ?thesis
    proof (cases "rs ! right < 0x80")
      case False
      then show ?thesis using 1 True by (subst hmm_loop.simps) simp
    next
      case ascii: True
      have k: "right < ascii_end rs right e" "ascii_end rs right e \<le> e" using ascii_end_bounds[of right rs e] True by auto
      have "divides (ascii_end rs right e) e (hmm_loop a m rs e (ascii_end rs right e) (ascii_end rs right e))"
        using 1(1)[OF True ascii] k 1 by simp
      then have "divides right e ((right, ascii_end rs right e - 1) # hmm_loop a m rs e (ascii_end rs right e) (ascii_end rs right e))"
        using k by auto
      moreover have "divides left right (if left \<noteq> right then internal_cut a m rs left right else [])"
        using 1 True internal_cut_divides[of left right rs a m] by auto
      ultimately show ?thesis
        using True ascii divides_append by (subst hmm_loop.simps) fastforce
    qed
  qed
qed

lemma hmm_cut_divides: "b \<le> e \<Longrightarrow> e \<le> length rs \<Longrightarrow> divides b e (hmm_cut a m rs b e)"
  by (simp add: hmm_cut_def hmm_loop_divides)

section \<open>A concrete model\<close>

definition plain_hmm :: "nat hmm_model" where
  "plain_hmm = \<lparr>start_prob = [3, 1, 1, 2], trans_prob = replicate 4 [1, 2, 3, 4], emit_prob = replicate 4 [0x4e2d \<mapsto> 5]\<rparr>"

lemma plain_hmm_positive: "states_ok rs ys \<Longrightarrow> rs \<noteq> [] \<Longrightarrow> 0 < states_weight nat_arith plain_hmm rs ys"
proof (induction nat_arith plain_hmm rs ys rule: states_weight.induct)
  case (1 r rs y ys)
  then have "y < 4" "states_ok rs ys" by (simp_all add: states_ok_def STATUS_SUM_def)
  moreover from this(1) have "y = 0 \<or> y = 1 \<or> y = 2 \<or> y = 3" by linarith
  ultimately show ?case
    using 1 by (auto simp: step_weight_def nat_arith_def plain_hmm_def)
qed (simp_all add: states_ok_def)


end
