(* ===== verification/Segment.thy ===== *)
theory Segment
  imports Hmm "HOL-Library.Sublist"
begin

text \<open>
  The segmenters put together (\<open>src/utils/cppjieba/\<close>): the ranges between separators (\<open>PreFilter.hpp\<close>,
  \<open>SegmentBase.hpp\<close>), the mixed cut (\<open>MixSegment.hpp\<close>), the cut for search (\<open>QuerySegment.hpp\<close>), the full
  cut (\<open>FullSegment.hpp\<close>), the part-of-speech tags (\<open>PosTagger.hpp\<close>) and the interface the rest of the program
  calls (\<open>Jieba.hpp\<close>).  A cut is \<open>None\<close> when an assertion on the dictionary fails.
\<close>

section \<open>Ranges between separators\<close>

definition reset_separators :: "string \<Rightarrow> rune set \<times> bool" where
  "reset_separators s =
     (case decode_runes s of
        (rs, False) \<Rightarrow> ({}, False)
      | (rs, True) \<Rightarrow> foldl (\<lambda>(syms, ok) r. if ok then (insert r syms, r \<notin> syms) else (syms, ok)) ({}, True) (map rune rs))"

text \<open>\<open>SPECIAL_SEPARATORS\<close>: blank, tab, newline, and the Chinese comma and full stop.\<close>

definition special_separators :: string where
  "special_separators = '' '' @ [TAB, NL] @ map char_of [0xEF, 0xBC, 0x8C, 0xE3, 0x80, 0x82 :: nat]"

text \<open>\<open>Next\<close>: the end of the range that starts at \<open>b\<close>.\<close>

function next_end :: "rune set \<Rightarrow> rune list \<Rightarrow> nat \<Rightarrow> nat \<Rightarrow> nat" where
  "next_end symbols rs b cursor =
     (if cursor < length rs
      then if rs ! cursor \<in> symbols then (if b = cursor then cursor + 1 else cursor)
        else next_end symbols rs b (cursor + 1)
      else length rs)"
  by pat_completeness auto
termination by (relation "measure (\<lambda>(s, rs, b, c). length rs - c)") auto

declare next_end.simps [simp del]

lemma next_end_bounds: "b \<le> c \<Longrightarrow> c < length rs \<Longrightarrow> b < next_end syms rs b c \<and> next_end syms rs b c \<le> length rs"
proof (induction syms rs b c rule: next_end.induct)
  case (1 syms rs b c)
  show ?case
  proof (cases "c + 1 < length rs")
    case True
    then show ?thesis using 1 by (subst (1 2) next_end.simps) auto
  next
    case False
    then have "next_end syms rs b (c + 1) = length rs" by (simp add: next_end.simps)
    then show ?thesis using 1(2,3) False by (subst (1 2) next_end.simps) auto
  qed
qed

function filter_ranges :: "rune set \<Rightarrow> rune list \<Rightarrow> nat \<Rightarrow> (nat \<times> nat) list" where
  "filter_ranges symbols rs cursor =
     (if cursor < length rs
      then (cursor, next_end symbols rs cursor cursor) # filter_ranges symbols rs (next_end symbols rs cursor cursor)
      else [])"
  by pat_completeness auto
termination
  by (relation "measure (\<lambda>(s, rs, c). length rs - c)") (auto intro!: diff_less_mono2 simp: next_end_bounds)

declare filter_ranges.simps [simp del]

section \<open>The segmenters\<close>

record 'w segmenter =
  seg_arith :: "'w arith"
  seg_trie :: "'w dict_unit trie_node"
  seg_min_weight :: 'w
  seg_user_single :: "rune set"
  seg_model :: "'w hmm_model"

definition user_single :: "'w segmenter \<Rightarrow> rune list \<Rightarrow> word_range \<Rightarrow> bool" where
  "user_single g rs w \<longleftrightarrow> rs ! fst w \<in> seg_user_single g"

text \<open>Single runes that are no user words are collected and cut by the model.\<close>

definition lone :: "'w segmenter \<Rightarrow> rune list \<Rightarrow> word_range \<Rightarrow> bool" where
  "lone g rs w \<longleftrightarrow> fst w = snd w \<and> \<not> user_single g rs w"

function mix_loop :: "('w::linorder) segmenter \<Rightarrow> rune list \<Rightarrow> word_range list \<Rightarrow> word_range list" where
  "mix_loop g rs [] = []"
| "mix_loop g rs (w # ws) =
     (if \<not> lone g rs w then w # mix_loop g rs ws
      else hmm_cut (seg_arith g) (seg_model g) rs (fst w) (fst (last (w # takeWhile (lone g rs) ws)) + 1) @
        mix_loop g rs (dropWhile (lone g rs) ws))"
  by pat_completeness auto
termination by (relation "measure (\<lambda>(g, rs, ws). length ws)") (auto simp: le_imp_less_Suc length_dropWhile_le)

definition mp_ranges :: "('w::linorder) segmenter \<Rightarrow> nat \<Rightarrow> rune list \<Rightarrow> nat \<Rightarrow> nat \<Rightarrow> word_range list option" where
  "mp_ranges g max_word_len = mp_cut (seg_arith g) (seg_min_weight g) (seg_trie g) max_word_len"

definition mix_ranges :: "('w::linorder) segmenter \<Rightarrow> bool \<Rightarrow> rune list \<Rightarrow> nat \<Rightarrow> nat \<Rightarrow> word_range list option" where
  "mix_ranges g hmm rs b e =
     (case mp_ranges g MAX_WORD_LENGTH rs b e of
        None \<Rightarrow> None
      | Some words \<Rightarrow> Some (if hmm then mix_loop g rs words else words))"

text \<open>The words of \<open>n + 1\<close> runes inside a range that the dictionary has.\<close>

definition inner_words :: "'w segmenter \<Rightarrow> rune list \<Rightarrow> nat \<Rightarrow> word_range \<Rightarrow> word_range list" where
  "inner_words g rs n w =
     filter (\<lambda>(l, r). trie_find (seg_trie g) (take (r + 1 - l) (drop l rs)) \<noteq> None)
       (map (\<lambda>i. (fst w + i, fst w + i + n)) [0..<range_length w - n])"

definition query_range :: "'w segmenter \<Rightarrow> rune list \<Rightarrow> word_range \<Rightarrow> word_range list" where
  "query_range g rs w =
     (if range_length w > 2 then inner_words g rs 1 w else []) @
     (if range_length w > 3 then inner_words g rs 2 w else []) @ [w]"

definition query_ranges :: "('w::linorder) segmenter \<Rightarrow> bool \<Rightarrow> rune list \<Rightarrow> nat \<Rightarrow> nat \<Rightarrow> word_range list option" where
  "query_ranges g hmm rs b e = map_option (\<lambda>ws. concat (map (query_range g rs) ws)) (mix_ranges g hmm rs b e)"

text \<open>
  The full cut: every word of the dictionary that starts at rune \<open>uIdx\<close>, and a single rune where no longer
  word covers it.  \<open>maxIdx\<close> and the length of the last word are kept from one rune to the next.
\<close>

fun full_edges ::
    "nat \<Rightarrow> nat \<Rightarrow> nat \<Rightarrow> (nat \<times> 'w dict_unit option) list \<Rightarrow> nat \<times> nat \<Rightarrow> word_range list \<times> (nat \<times> nat)" where
  "full_edges b i n [] st = ([], st)"
| "full_edges b i n ((next_offset, du) # es) (max_idx, word_len) =
     (let word_len' = (case du of None \<Rightarrow> word_len | Some u \<Rightarrow> length (unit_word u));
          alone = n = 1 \<and> max_idx \<le> i;
          push = (case du of None \<Rightarrow> alone | Some u \<Rightarrow> word_len' \<ge> 2 \<or> alone);
          max_idx' = (if i + word_len' > max_idx then i + word_len' else max_idx)
      in case full_edges b i n es (max_idx', word_len') of
        (ws, st) \<Rightarrow> ((if push then [(b + i, b + next_offset)] else []) @ ws, st))"

fun full_loop :: "nat \<Rightarrow> nat \<Rightarrow> ('w dict_unit, 'w) dag list \<Rightarrow> nat \<times> nat \<Rightarrow> word_range list" where
  "full_loop b i [] st = []"
| "full_loop b i (d # ds) st =
     (case full_edges b i (length (nexts d)) (nexts d) st of (ws, st) \<Rightarrow> ws @ full_loop b (i + 1) ds st)"

definition full_ranges :: "'w segmenter \<Rightarrow> rune list \<Rightarrow> nat \<Rightarrow> nat \<Rightarrow> word_range list option" where
  "full_ranges g rs b e =
     Some (full_loop b 0 (find_dags (zero_w (seg_arith g)) (seg_trie g) (take (e - b) (drop b rs)) MAX_WORD_LENGTH) (0, 0))"

definition hmm_ranges :: "('w::linorder) segmenter \<Rightarrow> rune list \<Rightarrow> nat \<Rightarrow> nat \<Rightarrow> word_range list option" where
  "hmm_ranges g rs b e = Some (hmm_cut (seg_arith g) (seg_model g) rs b e)"

section \<open>Cutting a sentence\<close>

text \<open>Every segmenter cuts a sentence range by range.\<close>

fun cut_all_ranges :: "(nat \<Rightarrow> nat \<Rightarrow> word_range list option) \<Rightarrow> (nat \<times> nat) list \<Rightarrow> word_range list option" where
  "cut_all_ranges seg [] = Some []"
| "cut_all_ranges seg ((b, e) # ranges) =
     (case seg b e of
        None \<Rightarrow> None
      | Some ws \<Rightarrow> map_option ((@) ws) (cut_all_ranges seg ranges))"

definition cut_words :: "(rune list \<Rightarrow> nat \<Rightarrow> nat \<Rightarrow> word_range list option) \<Rightarrow> rune set \<Rightarrow> string \<Rightarrow> jieba_word list option" where
  "cut_words seg symbols sentence =
     (let rs = fst (decode_runes sentence); runes = map rune rs in
      map_option (get_words sentence rs) (cut_all_ranges (seg runes) (filter_ranges symbols runes 0)))"

record jieba_segs =
  mp_symbols :: "rune set"
  hmm_symbols :: "rune set"
  mix_symbols :: "rune set"
  full_symbols :: "rune set"
  query_symbols :: "rune set"

definition jieba_cut :: "('w::linorder) segmenter \<Rightarrow> jieba_segs \<Rightarrow> string \<Rightarrow> bool \<Rightarrow> string list option" where
  "jieba_cut g j s hmm = map_option strings_of (cut_words (mix_ranges g hmm) (mix_symbols j) s)"

definition jieba_cut_all :: "('w::linorder) segmenter \<Rightarrow> jieba_segs \<Rightarrow> string \<Rightarrow> string list option" where
  "jieba_cut_all g j s = map_option strings_of (cut_words (full_ranges g) (full_symbols j) s)"

definition cut_for_search :: "('w::linorder) segmenter \<Rightarrow> jieba_segs \<Rightarrow> string \<Rightarrow> bool \<Rightarrow> string list option" where
  "cut_for_search g j s hmm = map_option strings_of (cut_words (query_ranges g hmm) (query_symbols j) s)"

definition cut_hmm :: "('w::linorder) segmenter \<Rightarrow> jieba_segs \<Rightarrow> string \<Rightarrow> string list option" where
  "cut_hmm g j s = map_option strings_of (cut_words (hmm_ranges g) (hmm_symbols j) s)"

definition cut_small :: "('w::linorder) segmenter \<Rightarrow> jieba_segs \<Rightarrow> string \<Rightarrow> nat \<Rightarrow> string list option" where
  "cut_small g j s max_word_len = map_option strings_of (cut_words (mp_ranges g max_word_len) (mp_symbols j) s)"

definition jieba_reset_separators :: "string \<Rightarrow> jieba_segs" where
  "jieba_reset_separators s =
     (let syms = fst (reset_separators s)
      in \<lparr>mp_symbols = syms, hmm_symbols = syms, mix_symbols = syms, full_symbols = syms, query_symbols = syms\<rparr>)"

section \<open>Tags\<close>

fun count_ascii :: "rune list \<Rightarrow> nat \<Rightarrow> nat \<Rightarrow> nat \<Rightarrow> nat \<times> nat" where
  "count_ascii [] half m eng = (m, eng)"
| "count_ascii (r # rs) half m eng =
     (if eng < half
      then if r < 0x80 then count_ascii rs half (if is_number r then m + 1 else m) (eng + 1) else count_ascii rs half m eng
      else (m, eng))"

definition special_rule :: "rune list \<Rightarrow> string" where
  "special_rule rs =
     (case count_ascii rs (length rs div 2) 0 0 of
        (m, eng) \<Rightarrow> if eng = 0 then ''x'' else if m = eng then ''m'' else ''eng'')"

definition lookup_tag :: "'w segmenter \<Rightarrow> string \<Rightarrow> string" where
  "lookup_tag g s =
     (case decode_unicode s of
        (rs, False) \<Rightarrow> ''x''
      | (rs, True) \<Rightarrow>
          (case trie_find (seg_trie g) rs of
             None \<Rightarrow> special_rule rs
           | Some u \<Rightarrow> if unit_tag u = [] then special_rule rs else unit_tag u))"

definition jieba_tag :: "('w::linorder) segmenter \<Rightarrow> jieba_segs \<Rightarrow> string \<Rightarrow> (string \<times> string) list option" where
  "jieba_tag g j s = map_option (map (\<lambda>w. (w, lookup_tag g w))) (jieba_cut g j s True)"

section \<open>The ranges of a segmenter divide what it cuts\<close>

text \<open>The ranges a filter gives are non-empty, adjacent, and cover the runes from \<open>a\<close> on.\<close>

fun adjacent :: "nat \<Rightarrow> nat \<Rightarrow> (nat \<times> nat) list \<Rightarrow> bool" where
  "adjacent a n [] = (a = n)"
| "adjacent a n ((b, e) # rs) = (b = a \<and> b < e \<and> e \<le> n \<and> adjacent e n rs)"

lemma filter_ranges_adjacent: "c \<le> length rs \<Longrightarrow> adjacent c (length rs) (filter_ranges syms rs c)"
proof (induction syms rs c rule: filter_ranges.induct)
  case (1 syms rs c)
  then show ?case using next_end_bounds[of c c rs syms] by (subst filter_ranges.simps) auto
qed

lemma divides_split:
  "divides a b (xs @ ys) \<Longrightarrow> xs \<noteq> [] \<Longrightarrow> divides a (snd (last xs) + 1) xs \<and> divides (snd (last xs) + 1) b ys"
proof (induction xs arbitrary: a)
  case (Cons x xs)
  obtain l r where x: "x = (l, r)" by fastforce
  show ?case
  proof (cases "xs = []")
    case False
    then have "divides (r + 1) (snd (last xs) + 1) xs" "divides (snd (last xs) + 1) b ys"
      using Cons.IH[of "r + 1"] Cons.prems False by (auto simp: x)
    moreover from this(1) have "r + 1 \<le> snd (last xs) + 1" by (rule divides_le)
    ultimately show ?thesis using Cons.prems(1) False by (simp add: x)
  qed (use Cons.prems in \<open>auto simp: x dest: divides_le\<close>)
qed simp

lemma mix_loop_divides: "divides a b ws \<Longrightarrow> b \<le> length rs \<Longrightarrow> divides a b (mix_loop g rs ws)"
proof (induction g rs ws arbitrary: a rule: mix_loop.induct)
  case (2 g rs w ws)
  obtain l r where w: "w = (l, r)" by fastforce
  show ?case
  proof (cases "lone g rs w")
    case False
    then show ?thesis using 2 by (simp add: w)
  next
    case True
    define xs where "xs = w # takeWhile (lone g rs) ws"
    have "divides a b (xs @ dropWhile (lone g rs) ws)" using 2(3) by (simp add: xs_def)
    then have d: "divides a (snd (last xs) + 1) xs" "divides (snd (last xs) + 1) b (dropWhile (lone g rs) ws)"
      using divides_split[of a b xs] by (auto simp only: xs_def simp_thms list.distinct)
    have "last xs \<in> set xs" by (simp add: xs_def)
    then have "lone g rs (last xs)" using True by (auto simp: xs_def dest: set_takeWhileD)
    then have lst: "fst (last xs) = snd (last xs)" by (simp add: lone_def)
    have "divides a (snd (last xs) + 1) (hmm_cut (seg_arith g) (seg_model g) rs a (snd (last xs) + 1))"
      using divides_le[OF d(1)] divides_le[OF d(2)] 2(4) by (intro hmm_cut_divides) simp_all
    then have "divides a b (hmm_cut (seg_arith g) (seg_model g) rs a (snd (last xs) + 1) @ mix_loop g rs (dropWhile (lone g rs) ws))"
      using 2(2)[OF _ d(2) 2(4)] True by (blast intro: divides_append)
    moreover have "fst w = a" using 2(3) by (simp add: w)
    ultimately show ?thesis using True by (simp add: lst[unfolded xs_def] xs_def del: last.simps)
  qed
qed simp

lemma mp_ranges_divides:
  "trie_ok (seg_trie g) \<Longrightarrow> b \<le> e \<Longrightarrow> e \<le> length rs \<Longrightarrow> \<exists>ws. mp_ranges g k rs b e = Some ws \<and> divides b e ws"
  unfolding mp_ranges_def by (rule mp_cut_divides)

lemma mix_ranges_divides:
  assumes "trie_ok (seg_trie g)" "b \<le> e" "e \<le> length rs"
  shows "\<exists>ws. mix_ranges g hmm rs b e = Some ws \<and> divides b e ws"
  using mp_ranges_divides[OF assms, of MAX_WORD_LENGTH] mix_loop_divides[OF _ assms(3), of b _ g]
  by (auto simp: mix_ranges_def)

lemma hmm_ranges_divides:
  "b \<le> e \<Longrightarrow> e \<le> length rs \<Longrightarrow> \<exists>ws. hmm_ranges g rs b e = Some ws \<and> divides b e ws"
  by (simp add: hmm_ranges_def hmm_cut_divides)

lemma cut_all_divides:
  assumes "\<And>b e. b < e \<Longrightarrow> e \<le> n \<Longrightarrow> \<exists>ws. seg b e = Some ws \<and> divides b e ws"
  shows "adjacent a n ranges \<Longrightarrow> \<exists>ws. cut_all_ranges seg ranges = Some ws \<and> divides a n ws"
proof (induction ranges arbitrary: a)
  case (Cons r rs)
  obtain b e where r: "r = (b, e)" by fastforce
  have b: "b = a" "b < e" "e \<le> n" "adjacent e n rs" using Cons.prems by (simp_all add: r)
  obtain ws where ws: "seg b e = Some ws" "divides b e ws" using assms[OF b(2,3)] by blast
  obtain vs where vs: "cut_all_ranges seg rs = Some vs" "divides e n vs" using Cons.IH[OF b(4)] by blast
  show ?case using ws vs b(1) by (auto simp: r intro: divides_append)
qed simp

text \<open>The words of a sentence put together are the sentence, for every segmenter whose ranges divide what it cuts.\<close>

lemma cut_words_covers:
  assumes "decode_runes s = (rs, True)"
    and "\<And>b e. b < e \<Longrightarrow> e \<le> length rs \<Longrightarrow> \<exists>ws. seg (map rune rs) b e = Some ws \<and> divides b e ws"
  shows "\<exists>ws. cut_words seg syms s = Some ws \<and> concat (strings_of ws) = s"
proof -
  have "adjacent 0 (length rs) (filter_ranges syms (map rune rs) 0)"
    using filter_ranges_adjacent[of 0 "map rune rs" syms] by simp
  from cut_all_divides[OF assms(2) this] obtain ws where
    "cut_all_ranges (seg (map rune rs)) (filter_ranges syms (map rune rs) 0) = Some ws" "divides 0 (length rs) ws"
    by blast
  then show ?thesis using whole_text[OF assms(1)] assms(1) by (simp add: cut_words_def)
qed

lemma decode_fails: "decode_runes s = (rs, False) \<Longrightarrow> rs = []"
  by (auto simp: decode_runes_def split: option.splits)

lemma cut_words_undecodable: "decode_runes s = (rs, False) \<Longrightarrow> cut_words seg syms s = Some []"
  by (auto simp: cut_words_def filter_ranges.simps get_words_def dest: decode_fails)

lemma mp_segment_covers:
  "decode_runes s = (rs, True) \<Longrightarrow> trie_ok (seg_trie g) \<Longrightarrow>
    \<exists>ws. cut_words (mp_ranges g k) syms s = Some ws \<and> concat (strings_of ws) = s"
  by (rule cut_words_covers) (auto intro!: mp_ranges_divides)

lemma mix_segment_covers:
  "decode_runes s = (rs, True) \<Longrightarrow> trie_ok (seg_trie g) \<Longrightarrow>
    \<exists>ws. cut_words (mix_ranges g hmm) syms s = Some ws \<and> concat (strings_of ws) = s"
  by (rule cut_words_covers) (auto intro!: mix_ranges_divides)

lemma hmm_segment_covers:
  "decode_runes s = (rs, True) \<Longrightarrow> \<exists>ws. cut_words (hmm_ranges g) syms s = Some ws \<and> concat (strings_of ws) = s"
  by (rule cut_words_covers) (auto intro!: hmm_ranges_divides)


definition small_segmenter :: "nat segmenter" where
  "small_segmenter =
     \<lparr>seg_arith = nat_arith, seg_trie = small_dict, seg_min_weight = 1, seg_user_single = {}, seg_model = plain_hmm\<rparr>"

lemma small_segmenter_ok: "trie_ok (seg_trie small_segmenter)"
  by (auto simp: small_segmenter_def small_dict_def trie_ok_def create_trie_find split: if_splits)

lemma utf8_decodable: "\<forall>n \<in> set ns. n < 2 ^ 21 \<Longrightarrow> \<exists>rs. decode_runes (concat (map utf8 ns)) = (rs, True)"
  using decode_from_utf8[of ns "[]" 0] by (auto simp: decode_runes_def split: option.splits)

lemma sample_decodable: "\<exists>rs. decode_runes ''ab 12.5'' = (rs, True)"
proof -
  have "concat (map utf8 [97, 98, 32, 49, 50, 46, 53]) = ''ab 12.5''" by code_simp
  then show ?thesis using utf8_decodable[of "[97, 98, 32, 49, 50, 46, 53]"] by auto
qed


section \<open>The cut for search\<close>

lemma inner_words_set:
  "(l, r) \<in> set (inner_words g rs n (a, b)) \<longleftrightarrow>
     l + n = r \<and> a \<le> l \<and> r \<le> b \<and> a \<le> b + 1 \<and> n < range_length (a, b) \<and> trie_find (seg_trie g) (take (r + 1 - l) (drop l rs)) \<noteq> None" if "a \<le> b"
  using that by (auto simp: inner_words_def range_length_def image_iff intro!: bexI[of _ "l - a"])

text \<open>A word of the dictionary of two or three runes inside a longer range.\<close>

definition inside :: "'w segmenter \<Rightarrow> rune list \<Rightarrow> word_range \<Rightarrow> word_range \<Rightarrow> bool" where
  "inside g rs w w' \<longleftrightarrow>
     fst w' \<le> fst w \<and> snd w \<le> snd w' \<and> w \<noteq> w' \<and> (snd w = fst w + 1 \<or> snd w = fst w + 2) \<and>
     trie_find (seg_trie g) (take (snd w + 1 - fst w) (drop (fst w) rs)) \<noteq> None"

lemma query_range_set: "fst w' \<le> snd w' \<Longrightarrow> set (query_range g rs w') = insert w' {w. inside g rs w w'}"
proof -
  assume le: "fst w' \<le> snd w'"
  obtain a b where w': "w' = (a, b)" by fastforce
  have ab: "a \<le> b" using le by (simp add: w')
  have "w \<in> set (query_range g rs w') \<longleftrightarrow> w = w' \<or> inside g rs w w'" for w
  proof -
    obtain l r where w: "w = (l, r)" by fastforce
    have "w \<in> set (query_range g rs w') \<longleftrightarrow> w = w' \<or>
        (range_length (a, b) > 2 \<and> (l, r) \<in> set (inner_words g rs 1 (a, b))) \<or>
        (range_length (a, b) > 3 \<and> (l, r) \<in> set (inner_words g rs 2 (a, b)))"
      by (simp add: query_range_def w w' disj_commute disj_left_commute)
    then show ?thesis
      using ab unfolding inner_words_set[OF ab] inside_def w w' range_length_def fst_conv snd_conv prod.inject
      by linarith
  qed
  then show ?thesis by blast
qed

lemma divides_ordered: "divides a b ws \<Longrightarrow> w \<in> set ws \<Longrightarrow> fst w \<le> snd w"
  by (induction a b ws rule: divides.induct) auto

lemma subseq_query: "subseq ws (concat (map (query_range g rs) ws))"
  by (induction ws) (auto simp: query_range_def intro: list_emb_append2 subseq_drop_many)



lemma cut_all_query:
  "cut_all_ranges (mix_ranges g hmm rs) ranges = Some ws \<Longrightarrow>
     cut_all_ranges (query_ranges g hmm rs) ranges = Some (concat (map (query_range g rs) ws))"
proof (induction ranges arbitrary: ws)
  case (Cons r ranges)
  then show ?case by (cases r) (auto simp: query_ranges_def split: option.splits)
qed simp

lemma query_words:
  assumes "cut_words (mix_ranges g hmm) syms s = Some ws"
  shows "\<exists>qs. cut_words (query_ranges g hmm) syms s = Some qs \<and> subseq ws qs"
proof -
  let ?rs = "fst (decode_runes s)"
  obtain vs where vs: "cut_all_ranges (mix_ranges g hmm (map rune ?rs)) (filter_ranges syms (map rune ?rs) 0) = Some vs"
    "ws = get_words s ?rs vs"
    using assms by (auto simp: cut_words_def Let_def)
  have "subseq (get_words s ?rs vs) (get_words s ?rs (concat (map (query_range g (map rune ?rs)) vs)))"
    unfolding get_words_def by (intro subseq_map subseq_query)
  then show ?thesis using cut_all_query[OF vs(1)] vs(2) by (simp add: cut_words_def Let_def)
qed

text \<open>
  With the same separators the cut for search succeeds where the cut does, and loses none of its words: the
  words of the cut are a subsequence of those for search.
\<close>

theorem cut_for_search_keeps:
  assumes "jieba_cut g j s hmm = Some ws" "query_symbols j = mix_symbols j"
  shows "\<exists>qs. cut_for_search g j s hmm = Some qs \<and> subseq ws qs"
proof -
  obtain vs where vs: "cut_words (mix_ranges g hmm) (mix_symbols j) s = Some vs" "ws = map word vs"
    using assms(1) by (auto simp: jieba_cut_def strings_of_def)
  obtain qs where "cut_words (query_ranges g hmm) (mix_symbols j) s = Some qs" "subseq vs qs"
    using query_words[OF vs(1)] by blast
  then show ?thesis
    using subseq_map[of vs qs word] assms(2) vs(2) by (simp add: cut_for_search_def strings_of_def)
qed

theorem cut_for_search_keeps_witness:
  "\<exists>ws qs. jieba_cut small_segmenter (jieba_reset_separators special_separators) ''ab 12.5'' True = Some ws \<and>
    cut_for_search small_segmenter (jieba_reset_separators special_separators) ''ab 12.5'' True = Some qs \<and> subseq ws qs"
proof -
  let ?j = "jieba_reset_separators special_separators"
  have "\<exists>ws. jieba_cut small_segmenter ?j ''ab 12.5'' True = Some ws"
    using mix_segment_covers[OF _ small_segmenter_ok] sample_decodable by (fastforce simp: jieba_cut_def)
  then show ?thesis using cut_for_search_keeps[of small_segmenter ?j "''ab 12.5''" True]
    by (auto simp: jieba_reset_separators_def Let_def)
qed

section \<open>The full cut\<close>

text \<open>
  \<open>maxIdx\<close> is meant to be the end of the longest word found so far, but a rune without a word is counted with
  the length of the word before it, so that after a word of two or more runes it stays ahead.
\<close>

lemma full_loop_stale:
  "\<forall>k < length ds. nexts (ds ! k) = [(i + k, None)] \<Longrightarrow> i < mx \<Longrightarrow> 2 \<le> wl \<Longrightarrow> full_loop b i ds (mx, wl) = []"
proof (induction ds arbitrary: i mx)
  case (Cons d ds)
  have d: "nexts d = [(i, None)]" using Cons.prems(1) by force
  have rest: "\<forall>k < length ds. nexts (ds ! k) = [(Suc i + k, None)]" using Cons.prems(1) by force
  show ?case
    using Cons.IH[OF rest, of "if i + wl > mx then i + wl else mx"] Cons.prems(2,3) by (simp add: d Let_def)
qed simp

lemma concat_single: "concat (map (\<lambda>j. if j = c then [x] else []) [a..<b]) = (if a \<le> c \<and> c < b then [x] else [])"
  by (induction b) auto

lemma one_word_find:
  "trie_find (create_trie [w] [u]) ks = (if ks = w \<and> w \<noteq> [] then Some u else None)"
  by (auto simp: create_trie_find)



end
