(* ===== verification/StrUtil.thy ===== *)
theory StrUtil
  imports Runes
begin

text \<open>
  The string routines the segmenter loads its files with (\<open>src/utils/cppjieba/limonp/StringUtil.hpp\<close>):
  trimming, splitting and joining, and the conversions between UTF-8, UTF-16, UTF-32 and the double bytes of
  GBK.  A conversion gives what it has pushed so far and whether it succeeded.
\<close>

section \<open>Trimming and cutting\<close>

text \<open>A \<open>char\<close> becomes an \<open>unsigned\<close>: bytes from 128 on are sign-extended.\<close>

definition as_unsigned :: "char \<Rightarrow> 32 word" where
  "as_unsigned c = word_of_int (schar c)"

definition space_arg :: "32 word \<Rightarrow> bool" where
  "space_arg u \<longleftrightarrow> \<not> u > 0xff \<and> is_space (char_of (unat (u AND 0xff)))"

definition ltrim :: "string \<Rightarrow> string" where
  "ltrim s = dropWhile (\<lambda>c. space_arg (as_unsigned c)) s"

definition rtrim :: "string \<Rightarrow> string" where
  "rtrim s = rev (dropWhile (\<lambda>c. space_arg (as_unsigned c)) (rev s))"

definition trim :: "string \<Rightarrow> string" where
  "trim s = ltrim (rtrim s)"

definition ltrim_char :: "string \<Rightarrow> char \<Rightarrow> string" where
  "ltrim_char s x = dropWhile ((=) x) s"

definition rtrim_char :: "string \<Rightarrow> char \<Rightarrow> string" where
  "rtrim_char s x = rev (dropWhile ((=) x) (rev s))"

definition trim_char :: "string \<Rightarrow> char \<Rightarrow> string" where
  "trim_char s x = ltrim_char (rtrim_char s x) x"

text \<open>The loop of \<open>Split\<close>; no \<open>maxsplit\<close> is \<open>npos\<close>, which no vector reaches.\<close>

function split_loop :: "string \<Rightarrow> string \<Rightarrow> nat option \<Rightarrow> nat \<Rightarrow> string list \<Rightarrow> string list" where
  "split_loop src pattern maxsplit start res =
     (if start < length src
      then let stop = scan_while (\<lambda>c. c \<notin> set pattern) src start in
        if stop = length src \<or> (case maxsplit of None \<Rightarrow> False | Some m \<Rightarrow> length res \<ge> m)
        then res @ [substr src start (length src - start)]
        else split_loop src pattern maxsplit (stop + 1) (res @ [substr src start (stop - start)])
      else res)"
  by pat_completeness auto
termination
  by (relation "measure (\<lambda>(s, p, m, start, r). length s - start)") (auto simp: scan_while_takeWhile)

declare split_loop.simps [simp del]

definition split_str :: "string \<Rightarrow> string \<Rightarrow> nat option \<Rightarrow> string list" where
  "split_str src pattern maxsplit = split_loop src pattern maxsplit 0 []"

fun join_str :: "string list \<Rightarrow> string \<Rightarrow> string" where
  "join_str [] connector = []"
| "join_str (x # xs) connector = x @ concat (map (\<lambda>y. connector @ y) xs)"

definition starts_with :: "string \<Rightarrow> string \<Rightarrow> bool" where
  "starts_with str prefix \<longleftrightarrow> \<not> length prefix > length str \<and> substr str 0 (length prefix) = prefix"

definition ends_with :: "string \<Rightarrow> string \<Rightarrow> bool" where
  "ends_with str suffix \<longleftrightarrow>
     \<not> length suffix > length str \<and> substr str (length str - length suffix) (length suffix) = suffix"

definition is_in_str :: "string \<Rightarrow> char \<Rightarrow> bool" where
  "is_in_str str ch \<longleftrightarrow> ch \<in> set str"

definition path_join :: "string \<Rightarrow> string \<Rightarrow> string" where
  "path_join path1 path2 = (if ends_with path1 ''/'' then path1 @ path2 else path1 @ ''/'' @ path2)"

text \<open>Upper and lower case in the C locale: a byte outside ASCII is left alone.\<close>

definition upper_char :: "char \<Rightarrow> char" where
  "upper_char c = (if 97 \<le> code c \<and> code c \<le> 122 then char_of (code c - 32) else c)"

definition lower_ascii :: "char \<Rightarrow> char" where
  "lower_ascii c = (if 65 \<le> code c \<and> code c \<le> 90 then char_of (code c + 32) else c)"

definition upper_str :: "string \<Rightarrow> string" where
  "upper_str str = map upper_char str"

definition lower_str :: "string \<Rightarrow> string" where
  "lower_str str = map lower_ascii str"

text \<open>
  \<open>StringFormat\<close>: \<open>vsnprintf\<close> is a parameter, from the size of the buffer to its answer and the characters it
  writes.  None is a run that does not end.
\<close>

partial_function (option) format_loop :: "(nat \<Rightarrow> int \<times> string) \<Rightarrow> nat \<Rightarrow> string option" where
  "format_loop vsnprintf room =
     (case vsnprintf room of (n, str) \<Rightarrow>
        if n > -1 \<and> n < int room then Some (take (nat n) str)
        else if n > -1 then format_loop vsnprintf (nat n + 1)
        else format_loop vsnprintf (room * 2))"

definition string_format :: "(nat \<Rightarrow> int \<times> string) \<Rightarrow> string option" where
  "string_format vsnprintf = format_loop vsnprintf 256"

section \<open>Conversions\<close>

definition byte8 :: "char \<Rightarrow> 8 word" where
  "byte8 c = of_nat (code c)"

definition two_chars :: "8 word \<Rightarrow> 8 word \<Rightarrow> 16 word" where
  "two_chars high low = push_bit 8 (ucast high AND 0x00ff) OR (ucast low AND 0x00ff)"

definition push_front :: "'a \<Rightarrow> 'a list \<times> bool \<Rightarrow> 'a list \<times> bool" where
  "push_front x = (\<lambda>(xs, ok). (x # xs, ok))"

text \<open>\<open>Utf8ToUnicode\<close>, from byte \<open>i\<close> on: four bytes have no sixteen-bit value.\<close>

definition unit2 :: "8 word \<Rightarrow> 8 word \<Rightarrow> 16 word" where
  "unit2 b b1 = two_chars (drop_bit 2 b AND 0x07) ((b1 AND 0x3f) OR push_bit 6 (b AND 0x03))"

definition unit3 :: "8 word \<Rightarrow> 8 word \<Rightarrow> 8 word \<Rightarrow> 16 word" where
  "unit3 b b1 b2 = two_chars (push_bit 4 b OR (drop_bit 2 b1 AND 0x0f)) ((push_bit 6 b1 AND 0xc0) OR (b2 AND 0x3f))"

function utf8_to_unicode_from :: "string \<Rightarrow> nat \<Rightarrow> 16 word list \<times> bool" where
  "utf8_to_unicode_from str i =
     (if i < length str
      then let b = byte8 (str ! i) in
        if b AND 0x80 = 0 then push_front (ucast b) (utf8_to_unicode_from str (i + 1))
        else if b \<le> 0xdf \<and> i + 1 < length str
        then push_front (unit2 b (byte8 (str ! (i + 1)))) (utf8_to_unicode_from str (i + 2))
        else if b \<le> 0xef \<and> i + 2 < length str
        then push_front (unit3 b (byte8 (str ! (i + 1))) (byte8 (str ! (i + 2)))) (utf8_to_unicode_from str (i + 3))
        else ([], False)
      else ([], True))"
  by pat_completeness auto
termination by (relation "measure (\<lambda>(s, i). length s - i)") auto

definition utf8_to_unicode :: "string \<Rightarrow> 16 word list \<times> bool" where
  "utf8_to_unicode str = utf8_to_unicode_from str 0"

text \<open>\<open>Utf8ToUnicode32\<close>; \<open>cont\<close> is its pair of statements \<open>tmp <<= 6; tmp |= str[k] & 0x3f;\<close>.\<close>

function utf8_to_unicode32_from :: "string \<Rightarrow> nat \<Rightarrow> rune list \<times> bool" where
  "utf8_to_unicode32_from str i =
     (if i < length str
      then let b = byte (str ! i) in
        if b AND 0x80 = 0 then push_front (b AND 0x7f) (utf8_to_unicode32_from str (i + 1))
        else if b \<le> 0xdf \<and> i + 1 < length str
        then push_front (cont (b AND 0x1f) (str ! (i + 1))) (utf8_to_unicode32_from str (i + 2))
        else if b \<le> 0xef \<and> i + 2 < length str
        then push_front (cont (cont (b AND 0x0f) (str ! (i + 1))) (str ! (i + 2))) (utf8_to_unicode32_from str (i + 3))
        else if b \<le> 0xf7 \<and> i + 3 < length str
        then push_front (cont (cont (cont (b AND 0x07) (str ! (i + 1))) (str ! (i + 2))) (str ! (i + 3)))
          (utf8_to_unicode32_from str (i + 4))
        else ([], False)
      else ([], True))"
  by pat_completeness auto
termination by (relation "measure (\<lambda>(s, i). length s - i)") auto

definition utf8_to_unicode32 :: "string \<Rightarrow> rune list \<times> bool" where
  "utf8_to_unicode32 str = utf8_to_unicode32_from str 0"

declare utf8_to_unicode_from.simps [simp del] utf8_to_unicode32_from.simps [simp del]

text \<open>A number cast to \<open>char\<close> keeps its low eight bits.\<close>

definition to_char :: "'n::len word \<Rightarrow> char" where
  "to_char u = char_of (unat u)"

definition utf8_of32 :: "rune \<Rightarrow> string" where
  "utf8_of32 ui =
     (if ui \<le> 0x7f then [to_char ui]
      else if ui \<le> 0x7ff then [to_char ((drop_bit 6 ui AND 0x1f) OR 0xc0), to_char ((ui AND 0x3f) OR 0x80)]
      else if ui \<le> 0xffff
      then [to_char ((drop_bit 12 ui AND 0x0f) OR 0xe0), to_char ((drop_bit 6 ui AND 0x3f) OR 0x80),
        to_char ((ui AND 0x3f) OR 0x80)]
      else [to_char ((drop_bit 18 ui AND 0x03) OR 0xf0), to_char ((drop_bit 12 ui AND 0x3f) OR 0x80),
        to_char ((drop_bit 6 ui AND 0x3f) OR 0x80), to_char ((ui AND 0x3f) OR 0x80)])"

definition unicode32_to_utf8 :: "rune list \<Rightarrow> string" where
  "unicode32_to_utf8 us = concat (map utf8_of32 us)"

definition utf8_of16 :: "16 word \<Rightarrow> string" where
  "utf8_of16 ui =
     (if ui \<le> 0x7f then [to_char ui]
      else if ui \<le> 0x7ff then [to_char ((drop_bit 6 ui AND 0x1f) OR 0xc0), to_char ((ui AND 0x3f) OR 0x80)]
      else [to_char ((drop_bit 12 ui AND 0x0f) OR 0xe0), to_char ((drop_bit 6 ui AND 0x3f) OR 0x80),
        to_char ((ui AND 0x3f) OR 0x80)])"

definition unicode_to_utf8 :: "16 word list \<Rightarrow> string" where
  "unicode_to_utf8 us = concat (map utf8_of16 us)"

fun gbk_units :: "string \<Rightarrow> 16 word list \<times> bool" where
  "gbk_units [] = ([], True)"
| "gbk_units (c # cs) =
     (if byte8 c AND 0x80 = 0 then push_front (ucast (byte8 c)) (gbk_units cs)
      else case cs of [] \<Rightarrow> ([], False) | d # ds \<Rightarrow> push_front (two_chars (byte8 c) (byte8 d)) (gbk_units ds))"

definition gbk_of :: "16 word \<Rightarrow> string" where
  "gbk_of u =
     (let fst_byte = to_char (drop_bit 8 u AND 0x00ff); snd_byte = to_char (u AND 0x00ff)
      in if byte8 fst_byte AND 0x80 \<noteq> 0 then [fst_byte, snd_byte] else [snd_byte])"

definition gbk_bytes :: "16 word list \<Rightarrow> string" where
  "gbk_bytes us = concat (map gbk_of us)"

section \<open>Two bytes\<close>

lemma unat_byte8: "unat (byte8 c) = code c"
  using code_lt[of c] by (simp add: byte8_def unat_of_nat)

lemma unat_ucast_byte8: "unat (ucast (byte8 c) :: 16 word) = code c"
  using code_lt[of c] by (simp add: unsigned_ucast_eq unat_byte8 take_bit_nat_eq_self)

lemma to_char_byte8 [simp]: "to_char (ucast (byte8 c) :: 16 word) = c" "to_char (byte8 c) = c"
  unfolding to_char_def unat_ucast_byte8 unat_byte8 by (simp_all add: code_def)

lemma two_chars_high: "drop_bit 8 (two_chars a b) AND 0x00ff = ucast a"
proof -
  have m: "(0x00ff :: 16 word) = mask 8" by (simp add: mask_eq_exp_minus_1)
  show ?thesis unfolding two_chars_def m by (rule bit_word_eqI) (auto simp: bit_simps dest: bit_imp_le_length)
qed

lemma two_chars_low: "two_chars a b AND 0x00ff = ucast b"
proof -
  have m: "(0x00ff :: 16 word) = mask 8" by (simp add: mask_eq_exp_minus_1)
  show ?thesis unfolding two_chars_def m by (rule bit_word_eqI) (auto simp: bit_simps dest: bit_imp_le_length)
qed

lemma gbk_of_single: "byte8 c AND 0x80 = 0 \<Longrightarrow> gbk_of (ucast (byte8 c)) = [c]"
proof -
  have m: "(0x00ff :: 16 word) = mask 8" by (simp add: mask_eq_exp_minus_1)
  have h: "drop_bit 8 (ucast (byte8 c) :: 16 word) AND 0x00ff = 0" "(ucast (byte8 c) :: 16 word) AND 0x00ff = ucast (byte8 c)"
    unfolding m by (rule bit_word_eqI; auto simp: bit_simps dest: bit_imp_le_length)+
  show ?thesis by (simp add: gbk_of_def h Let_def) (simp add: to_char_def byte8_def code_def)
qed

lemma gbk_of_double: "byte8 c AND 0x80 \<noteq> 0 \<Longrightarrow> gbk_of (two_chars (byte8 c) (byte8 d)) = [c, d]"
  by (simp add: gbk_of_def two_chars_high two_chars_low Let_def)

text \<open>
  Text in double bytes survives the way to sixteen-bit units and back: whenever the first conversion
  succeeds, the second gives the text again.
\<close>

theorem gbk_roundtrip: "gbk_units s = (us, True) \<Longrightarrow> gbk_bytes us = s"
proof (induction s arbitrary: us rule: gbk_units.induct)
  case (2 c cs)
  then show ?case
    by (auto simp: push_front_def gbk_bytes_def gbk_of_single gbk_of_double split: if_splits prod.splits list.splits)
qed (simp add: gbk_bytes_def)

theorem gbk_roundtrip_witness: "gbk_bytes (fst (gbk_units (map char_of [0xd6, 0xd0, 0x41 :: nat]))) = map char_of [0xd6, 0xd0, 0x41 :: nat]"
proof -
  have "gbk_units (map char_of [0xd6, 0xd0, 0x41 :: nat]) = ([0xd6d0, 0x41], True)" by code_simp
  from gbk_roundtrip[OF this] this show ?thesis by simp
qed

section \<open>The two decoders of UTF-8\<close>

lemma decode_rune_drop:
  "i < length s \<Longrightarrow> decode_rune (drop i s) =
     (let b = byte (s ! i) in
      if b AND 0x80 = 0 then (b AND 0x7f, 1)
      else if b \<le> 0xdf \<and> i + 1 < length s then (cont (b AND 0x1f) (s ! (i + 1)), 2)
      else if b \<le> 0xef \<and> i + 2 < length s then (cont (cont (b AND 0x0f) (s ! (i + 1))) (s ! (i + 2)), 3)
      else if b \<le> 0xf7 \<and> i + 3 < length s
      then (cont (cont (cont (b AND 0x07) (s ! (i + 1))) (s ! (i + 2))) (s ! (i + 3)), 4)
      else (0, 0))"
proof -
  assume i: "i < length s"
  have n: "drop i s ! k = s ! (i + k)" for k using i by simp
  have c: "(k < length (drop i s)) = (i + k < length s)" for k using i by auto
  have e: "decode_rune (drop i s) = (case drop i s of c # cs \<Rightarrow>
      let b = byte c in
      if b AND 0x80 = 0 then (b AND 0x7f, 1)
      else if b \<le> 0xdf \<and> 1 < length (drop i s) then (cont (b AND 0x1f) (drop i s ! 1), 2)
      else if b \<le> 0xef \<and> 2 < length (drop i s) then (cont (cont (b AND 0x0f) (drop i s ! 1)) (drop i s ! 2), 3)
      else if b \<le> 0xf7 \<and> 3 < length (drop i s)
      then (cont (cont (cont (b AND 0x07) (drop i s ! 1)) (drop i s ! 2)) (drop i s ! 3), 4)
      else (0, 0))"
    using i by (simp only: decode_rune_def Let_def) (simp split: list.split)
  show ?thesis unfolding e n c by (simp only: Cons_nth_drop_Suc[OF i, symmetric] list.case)
qed

lemma utf8_to_unicode32_rune:
  "utf8_to_unicode32_from s i =
     (if i < length s
      then case decode_rune (drop i s) of (r, l) \<Rightarrow>
        if l = 0 then ([], False) else push_front r (utf8_to_unicode32_from s (i + l))
      else ([], True))"
  by (subst utf8_to_unicode32_from.simps) (simp add: decode_rune_drop Let_def)

lemma utf8_to_unicode32_decode:
  "utf8_to_unicode32_from s i = (rs, ok) \<Longrightarrow> map_option (map rune) (decode_from s i j) = (if ok then Some rs else None)"
proof (induction s i j arbitrary: rs rule: decode_from.induct)
  case (1 s i j)
  show ?case
  proof (cases "i < length s")
    case True
    obtain r l where d: "decode_rune (drop i s) = (r, l)" by fastforce
    show ?thesis
    proof (cases "l = 0")
      case False
      then obtain rest where "utf8_to_unicode32_from s (i + l) = (rest, ok)" "rs = r # rest"
        using 1(2) True d by (subst (asm) utf8_to_unicode32_rune) (auto simp: push_front_def split: prod.splits)
      with 1(1)[OF True d[symmetric] False] show ?thesis
        using True d False by (subst decode_from.simps) (cases ok; auto simp: option.map_comp comp_def)
    qed (use 1(2) True d in \<open>subst (asm) utf8_to_unicode32_rune, subst decode_from.simps, simp\<close>)
  next
    case False
    then show ?thesis using 1(2) by (subst (asm) utf8_to_unicode32_rune) (subst decode_from.simps, simp)
  qed
qed

text \<open>
  The two decoders of UTF-8 in the program agree: \<open>Utf8ToUnicode32\<close> succeeds exactly where
  \<open>DecodeRunesInString\<close> does, and then with the same runes.
\<close>

theorem utf8_decoders_agree:
  "decode_unicode s = (if snd (utf8_to_unicode32 s) then fst (utf8_to_unicode32 s) else [], snd (utf8_to_unicode32 s))"
  using utf8_to_unicode32_decode[of s 0 "fst (utf8_to_unicode32 s)" "snd (utf8_to_unicode32 s)" 0]
  by (auto simp: utf8_to_unicode32_def decode_unicode_def decode_runes_def split: option.splits if_splits)

section \<open>The encoders\<close>

lemma or_add: "take_bit m x OR 2 ^ m * d = 2 ^ m * d + take_bit m (x :: nat)"
proof -
  have "take_bit m x AND push_bit m d = 0"
    by (rule bit_eqI) (auto simp: bit_simps)
  then have "take_bit m x + push_bit m d = take_bit m x OR push_bit m d"
    by (rule disjunctive_add_eq_or)
  then show ?thesis by (simp add: push_bit_eq_mult mult.commute)
qed

lemma to_char_part:
  assumes "n < 2 ^ LENGTH('a::len)" "mk = mask m" "c = of_nat (2 ^ m * d)" "2 ^ m * d < (2::nat) ^ LENGTH('a)"
  shows "to_char ((drop_bit k (of_nat n :: 'a word) AND mk) OR c) = char_of (2 ^ m * d + n div 2 ^ k mod 2 ^ m)"
proof -
  have u: "unat (of_nat n :: 'a word) = n" "unat (of_nat (2 ^ m * d) :: 'a word) = 2 ^ m * d"
    using assms(1,4) by (simp_all only: unat_of_nat mod_less)
  have "unat (drop_bit k (of_nat n :: 'a word) AND mask m) = take_bit m (drop_bit k n)"
    unfolding take_bit_eq_mask[symmetric] unsigned_take_bit_eq unsigned_drop_bit_eq u(1)
    using assms(1) by (simp add: take_bit_nat_eq_self)
  then have "unat ((drop_bit k (of_nat n :: 'a word) AND mk) OR c) = take_bit m (drop_bit k n) OR 2 ^ m * d"
    by (simp only: assms(2,3) unsigned_or_eq u)
  then have "unat ((drop_bit k (of_nat n :: 'a word) AND mk) OR c) = 2 ^ m * d + n div 2 ^ k mod 2 ^ m"
    unfolding or_add by (simp only: take_bit_eq_mod drop_bit_eq_div)
  then show ?thesis by (simp only: to_char_def)
qed

lemma of_nat_le:
  "n < 2 ^ LENGTH('a::len) \<Longrightarrow> m < 2 ^ LENGTH('a) \<Longrightarrow> (of_nat n :: 'a word) \<le> of_nat m \<longleftrightarrow> n \<le> m"
  by (simp add: word_le_nat_alt unat_of_nat)

lemma utf8_of32_short:
  assumes "n < 0x10000"
  shows "utf8_of32 (of_nat n) = utf8 n"
proof -
  have le: "(of_nat n :: rune) \<le> 0x7f \<longleftrightarrow> n \<le> 0x7f" "(of_nat n :: rune) \<le> 0x7ff \<longleftrightarrow> n \<le> 0x7ff"
    "(of_nat n :: rune) \<le> 0xffff \<longleftrightarrow> n \<le> 0xffff"
    using assms of_nat_le[where 'a = 32 and n = n and m = "0x7f"] of_nat_le[where 'a = 32 and n = n and m = "0x7ff"] of_nat_le[where 'a = 32 and n = n and m = "0xffff"]
    by simp_all
  have low: "to_char (((of_nat n :: rune) AND 0x3f) OR 0x80) = char_of (0x80 + n mod 64)"
    using to_char_part[where 'a = 32, of n "0x3f" 6 "0x80" 2 0] assms by (simp add: mask_eq_exp_minus_1)
  have mid: "to_char ((drop_bit 6 (of_nat n :: rune) AND 0x3f) OR 0x80) = char_of (0x80 + n div 64 mod 64)"
    using to_char_part[where 'a = 32, of n "0x3f" 6 "0x80" 2 6] assms by (simp add: mask_eq_exp_minus_1)
  have hi2: "to_char ((drop_bit 6 (of_nat n :: rune) AND 0x1f) OR 0xc0) = char_of (0xc0 + n div 64 mod 32)"
    using to_char_part[where 'a = 32, of n "0x1f" 5 "0xc0" 6 6] assms by (simp add: mask_eq_exp_minus_1)
  have hi3: "to_char ((drop_bit 12 (of_nat n :: rune) AND 0x0f) OR 0xe0) = char_of (0xe0 + n div 4096 mod 16)"
    using to_char_part[where 'a = 32, of n "0x0f" 4 "0xe0" 14 12] assms by (simp add: mask_eq_exp_minus_1)
  have one: "to_char (of_nat n :: rune) = char_of n"
    using assms by (simp add: to_char_def unat_of_nat)
  have q: "n \<le> 0x7ff \<Longrightarrow> n div 64 mod 32 = n div 64" "n div 4096 mod 16 = n div 4096"
    using assms by (simp_all add: less_mult_imp_div_less)
  show ?thesis
    using assms q unfolding utf8_of32_def utf8_def le low mid hi2 hi3 one by (auto simp: not_le)
qed


text \<open>
  From \<open>0x100000\<close> on the mask \<open>0x03\<close> of the first byte drops bit 20: the bytes are those of the code point
  less \<open>0x100000\<close>, in four bytes.
\<close>

lemma utf8_of32_long:
  assumes "0x10000 \<le> n" "n < 2 ^ 32"
  shows "utf8_of32 (of_nat n) =
    [char_of (0xf0 + n div 262144 mod 4), char_of (0x80 + n div 4096 mod 64), char_of (0x80 + n div 64 mod 64),
     char_of (0x80 + n mod 64)]"
proof -
  have gt: "\<not> (of_nat n :: rune) \<le> 0x7f" "\<not> (of_nat n :: rune) \<le> 0x7ff" "\<not> (of_nat n :: rune) \<le> 0xffff"
    using assms of_nat_le[where 'a = 32 and n = n and m = "0x7f"] of_nat_le[where 'a = 32 and n = n and m = "0x7ff"]
      of_nat_le[where 'a = 32 and n = n and m = "0xffff"]
    by simp_all
  have low: "to_char (((of_nat n :: rune) AND 0x3f) OR 0x80) = char_of (0x80 + n mod 64)"
    using to_char_part[where 'a = 32, of n "0x3f" 6 "0x80" 2 0] assms by (simp add: mask_eq_exp_minus_1)
  have mid: "to_char ((drop_bit 6 (of_nat n :: rune) AND 0x3f) OR 0x80) = char_of (0x80 + n div 64 mod 64)"
    using to_char_part[where 'a = 32, of n "0x3f" 6 "0x80" 2 6] assms by (simp add: mask_eq_exp_minus_1)
  have mid2: "to_char ((drop_bit 12 (of_nat n :: rune) AND 0x3f) OR 0x80) = char_of (0x80 + n div 4096 mod 64)"
    using to_char_part[where 'a = 32, of n "0x3f" 6 "0x80" 2 12] assms by (simp add: mask_eq_exp_minus_1)
  have hi: "to_char ((drop_bit 18 (of_nat n :: rune) AND 0x03) OR 0xf0) = char_of (0xf0 + n div 262144 mod 4)"
    using to_char_part[where 'a = 32, of n "0x03" 2 "0xf0" 60 18] assms by (simp add: mask_eq_exp_minus_1)
  show ?thesis unfolding utf8_of32_def low mid mid2 hi using gt by simp
qed

lemma utf8_of32_utf8: "n < 0x100000 \<Longrightarrow> utf8_of32 (of_nat n) = utf8 n"
  by (cases "n < 0x10000") (simp_all add: utf8_of32_short utf8_of32_long utf8_def less_mult_imp_div_less)

lemma utf8_snoc_decode: "\<forall>n \<in> set ns. n < 2 ^ 21 \<Longrightarrow> utf8_to_unicode32 (concat (map utf8 ns)) = (map of_nat ns, True)"
  using decode_from_utf8[of ns "[]" 0]
    utf8_to_unicode32_decode[of "concat (map utf8 ns)" 0 "fst (utf8_to_unicode32 (concat (map utf8 ns)))"
      "snd (utf8_to_unicode32 (concat (map utf8 ns)))" 0]
  by (auto simp: utf8_to_unicode32_def prod_eq_iff split: if_splits)

text \<open>
  Every text of code points below \<open>0x100000\<close> survives the way to UTF-8 and back, and its bytes are those of
  the standard.
\<close>

theorem unicode32_roundtrip:
  assumes "\<forall>u \<in> set us. u < 0x100000"
  shows "unicode32_to_utf8 us = concat (map (\<lambda>u. utf8 (unat u)) us) \<and> utf8_to_unicode32 (unicode32_to_utf8 us) = (us, True)"
proof -
  have lt: "unat u < 0x100000" if "u \<in> set us" for u
    using assms that by (auto simp: word_less_nat_alt)
  then have "utf8_of32 u = utf8 (unat u)" if "u \<in> set us" for u
    using utf8_of32_utf8[OF lt[OF that]] by simp
  then have e: "unicode32_to_utf8 us = concat (map utf8 (map unat us))"
    unfolding unicode32_to_utf8_def map_map comp_def by (intro arg_cong[where f = concat] map_cong[OF refl])
  have "\<forall>n \<in> set (map unat us). n < 2 ^ 21" using lt by fastforce
  from utf8_snoc_decode[OF this] show ?thesis by (simp add: e comp_def)
qed

theorem unicode32_roundtrip_witness: "utf8_to_unicode32 (unicode32_to_utf8 [0x4e2d, 0x1f600]) = ([0x4e2d, 0x1f600], True)"
  by (rule conjunct2[OF unicode32_roundtrip]) simp

lemma three_digits: "64 * p + a = n \<Longrightarrow> 64 * q + b = p \<Longrightarrow> 64 * 4 + c = q \<Longrightarrow> 64 * (64 * c + b) + a = n - (0x100000 :: nat)"
  by simp

text \<open>
  The last plane of code points, from \<open>0x100000\<close> on, does not survive: each comes back less \<open>0x100000\<close>.
\<close>

theorem unicode32_last_plane:
  assumes "0x100000 \<le> u" "u < 0x110000"
  shows "utf8_to_unicode32 (unicode32_to_utf8 [u]) = ([u - 0x100000], True)"
proof -
  define n where "n = unat u"
  have u: "u = of_nat n" and n: "0x100000 \<le> n" "n < 0x110000"
    using assms by (simp_all add: n_def word_le_nat_alt word_less_nat_alt)
  have d: "n div 262144 = 4" using n by simp
  then have e: "unicode32_to_utf8 [u] =
      [char_of (240 :: nat), char_of (0x80 + n div 4096 mod 64), char_of (0x80 + n div 64 mod 64), char_of (0x80 + n mod 64)] @ []"
    using n by (simp add: unicode32_to_utf8_def u utf8_of32_long)
  have v: "64 * (64 * (n div 4096 mod 64) + n div 64 mod 64) + n mod 64 = n - 0x100000"
    by (rule three_digits[OF base_64(1,2)]) (use d base_64(3)[of n] in simp)
  have "decode_rune (unicode32_to_utf8 [u]) = (of_nat (64 * (64 * (n div 4096 mod 64) + n div 64 mod 64) + n mod 64), 4)"
    unfolding e
    using decode_rune_4[of "char_of (240 :: nat)" "char_of (0x80 + n div 4096 mod 64)" "char_of (0x80 + n div 64 mod 64)" "char_of (0x80 + n mod 64)" "[]"]
    by (simp add: digits del: of_nat_add of_nat_mult)
  moreover have "(of_nat (n - 0x100000) :: rune) = u - 0x100000" using n(1) by (simp add: u of_nat_diff)
  ultimately have "decode_rune (unicode32_to_utf8 [u]) = (u - 0x100000, 4)" unfolding v by simp
  moreover have "length (unicode32_to_utf8 [u]) = 4" by (simp add: e)
  ultimately show ?thesis
    unfolding utf8_to_unicode32_def by (subst utf8_to_unicode32_rune) (simp add: utf8_to_unicode32_rune push_front_def)
qed

theorem unicode32_last_plane_witness: "utf8_to_unicode32 (unicode32_to_utf8 [0x10ffff]) = ([0xffff], True)"
  using unicode32_last_plane[of "0x10ffff"] by simp

section \<open>Sixteen bits\<close>

lemma byte8_le:
  "byte8 c \<le> 0xdf \<longleftrightarrow> code c \<le> 0xdf" "byte8 c \<le> 0xef \<longleftrightarrow> code c \<le> 0xef"
  by (simp_all add: word_le_nat_alt unat_byte8)

lemma byte8_and: "byte8 c AND mask k = of_nat (code c mod 2 ^ k)"
  unfolding byte8_def take_bit_eq_mask[symmetric] take_bit_of_nat by (simp add: take_bit_eq_mod)

lemma byte8_high: "byte8 c AND 0x80 = 0 \<longleftrightarrow> code c < 128"
  using byte_high[of c]
proof -
  have "byte8 c AND 0x80 = 0 \<longleftrightarrow> \<not> bit (byte8 c) 7"
    using and_exp_eq_0_iff_not_bit[of "byte8 c" 7] by simp
  also have "\<dots> \<longleftrightarrow> \<not> bit (byte c) 7" by (simp add: byte8_def byte_def bit_simps)
  also have "\<dots> \<longleftrightarrow> byte c AND 0x80 = 0"
    using and_exp_eq_0_iff_not_bit[of "byte c" 7] by simp
  finally show ?thesis using byte_high[of c] by simp
qed

text \<open>The sixteen-bit values are the runes of the thirty-two bit decoder.\<close>

lemma small_cases:
  "n < 16 \<Longrightarrow> n \<in> {0, 1, 2, 3, 4, 5, 6, 7, 8, 9, 10, 11, 12, 13, 14, 15 :: nat}"
  by (simp add: eval_nat_numeral less_Suc_eq)

lemma bits16: "(\<And>n. n \<in> {0, 1, 2, 3, 4, 5, 6, 7, 8, 9, 10, 11, 12, 13, 14, 15} \<Longrightarrow> bit v n = bit w n) \<Longrightarrow> v = (w :: 16 word)"
  by (rule bit_word_eqI) (use small_cases in simp)

lemma unit2_rune: "unit2 (byte8 c) (byte8 c1) = ucast (cont (byte c AND 0x1f) c1)"
proof (rule bits16)
  fix n :: nat
  assume "n \<in> {0, 1, 2, 3, 4, 5, 6, 7, 8, 9, 10, 11, 12, 13, 14, 15}"
  then show "bit (unit2 (byte8 c) (byte8 c1)) n = bit (ucast (cont (byte c AND 0x1f) c1) :: 16 word) n"
    by (elim insertE emptyE; simp add: unit2_def two_chars_def cont_def byte8_def byte_def bit_simps)
qed

lemma unit3_rune: "unit3 (byte8 c) (byte8 c1) (byte8 c2) = ucast (cont (cont (byte c AND 0x0f) c1) c2)"
proof (rule bits16)
  fix n :: nat
  assume "n \<in> {0, 1, 2, 3, 4, 5, 6, 7, 8, 9, 10, 11, 12, 13, 14, 15}"
  then show "bit (unit3 (byte8 c) (byte8 c1) (byte8 c2)) n = bit (ucast (cont (cont (byte c AND 0x0f) c1) c2) :: 16 word) n"
    by (elim insertE emptyE; simp add: unit3_def two_chars_def cont_def byte8_def byte_def bit_simps)
qed

lemma unit1_rune: "code c < 128 \<Longrightarrow> (ucast (byte8 c) :: 16 word) = ucast (byte c AND 0x7f)"
  by (rule word_unat_eq_iff[THEN iffD2])
    (simp add: low_bits unat_ucast_byte8 unsigned_ucast_eq unat_of_nat take_bit_nat_eq_self unat_byte8)

lemma high_and: "byte8 c AND 0x80 = 0 \<longleftrightarrow> byte c AND 0x80 = 0" "byte8 c \<le> 0xdf \<longleftrightarrow> byte c \<le> 0xdf" "byte8 c \<le> 0xef \<longleftrightarrow> byte c \<le> 0xef"
  by (simp_all add: byte8_high byte_high byte8_le byte_le)

lemma utf8_to_unicode_agrees:
  "utf8_to_unicode_from s i = (us, True) \<Longrightarrow>
     \<exists>rs. utf8_to_unicode32_from s i = (rs, True) \<and> us = map ucast rs"
proof (induction s i arbitrary: us rule: utf8_to_unicode_from.induct)
  case (1 s i)
  show ?case
  proof (cases "i < length s")
    case True
    let ?b = "s ! i"
    consider "byte ?b AND 0x80 = 0" | "byte ?b AND 0x80 \<noteq> 0" "byte ?b \<le> 0xdf \<and> i + 1 < length s"
      | "byte ?b AND 0x80 \<noteq> 0" "\<not> (byte ?b \<le> 0xdf \<and> i + 1 < length s)" "byte ?b \<le> 0xef \<and> i + 2 < length s"
      | "byte ?b AND 0x80 \<noteq> 0" "\<not> (byte ?b \<le> 0xdf \<and> i + 1 < length s)" "\<not> (byte ?b \<le> 0xef \<and> i + 2 < length s)"
      by blast
    then show ?thesis
    proof cases
      case 1
      then show ?thesis
        using "1.IH"(1)[OF True refl] "1.prems" True unit1_rune[of ?b]
        by (subst utf8_to_unicode32_from.simps, subst (asm) (2) utf8_to_unicode_from.simps)
          (auto simp: high_and push_front_def byte_high split: prod.splits)
    next
      case 2
      then show ?thesis
        using "1.IH"(2)[OF True refl] "1.prems" True
        by (subst utf8_to_unicode32_from.simps, subst (asm) (2) utf8_to_unicode_from.simps)
          (auto simp: high_and push_front_def unit2_rune split: prod.splits)
    next
      case 3
      then show ?thesis
        using "1.IH"(3)[OF True refl] "1.prems" True
        by (subst utf8_to_unicode32_from.simps, subst (asm) (2) utf8_to_unicode_from.simps)
          (auto simp: high_and push_front_def unit3_rune split: prod.splits)
    next
      case 4
      then show ?thesis
        using "1.prems" True by (subst (asm) utf8_to_unicode_from.simps) (auto simp: high_and)
    qed
  next
    case False
    then show ?thesis
      using "1.prems" by (subst utf8_to_unicode32_from.simps, subst (asm) utf8_to_unicode_from.simps) auto
  qed
qed

text \<open>
  Where the sixteen-bit conversion succeeds, so does the thirty-two bit one, and each unit is the low half of
  the rune at the same place.
\<close>

theorem utf16_of_utf32:
  "utf8_to_unicode s = (us, True) \<Longrightarrow> \<exists>rs. utf8_to_unicode32 s = (rs, True) \<and> us = map ucast rs"
  unfolding utf8_to_unicode_def utf8_to_unicode32_def by (rule utf8_to_unicode_agrees)

lemma utf8_of16_utf8: "n < 0x10000 \<Longrightarrow> utf8_of16 (of_nat n) = utf8 n"
proof -
  assume n: "n < 0x10000"
  have le: "(of_nat n :: 16 word) \<le> 0x7f \<longleftrightarrow> n \<le> 0x7f" "(of_nat n :: 16 word) \<le> 0x7ff \<longleftrightarrow> n \<le> 0x7ff"
    using n of_nat_le[where 'a = 16 and n = n and m = "0x7f"] of_nat_le[where 'a = 16 and n = n and m = "0x7ff"]
    by simp_all
  have low: "to_char (((of_nat n :: 16 word) AND 0x3f) OR 0x80) = char_of (0x80 + n mod 64)"
    using to_char_part[where 'a = 16, of n "0x3f" 6 "0x80" 2 0] n by (simp add: mask_eq_exp_minus_1)
  have mid: "to_char ((drop_bit 6 (of_nat n :: 16 word) AND 0x3f) OR 0x80) = char_of (0x80 + n div 64 mod 64)"
    using to_char_part[where 'a = 16, of n "0x3f" 6 "0x80" 2 6] n by (simp add: mask_eq_exp_minus_1)
  have hi2: "to_char ((drop_bit 6 (of_nat n :: 16 word) AND 0x1f) OR 0xc0) = char_of (0xc0 + n div 64 mod 32)"
    using to_char_part[where 'a = 16, of n "0x1f" 5 "0xc0" 6 6] n by (simp add: mask_eq_exp_minus_1)
  have hi3: "to_char ((drop_bit 12 (of_nat n :: 16 word) AND 0x0f) OR 0xe0) = char_of (0xe0 + n div 4096 mod 16)"
    using to_char_part[where 'a = 16, of n "0x0f" 4 "0xe0" 14 12] n by (simp add: mask_eq_exp_minus_1)
  have one: "to_char (of_nat n :: 16 word) = char_of n"
    using n by (simp add: to_char_def unat_of_nat)
  have q: "n \<le> 0x7ff \<Longrightarrow> n div 64 mod 32 = n div 64" "n div 4096 mod 16 = n div 4096"
    using n by (simp_all add: less_mult_imp_div_less)
  show ?thesis
    using n q unfolding utf8_of16_def utf8_def le low mid hi2 hi3 one by (auto simp: not_le)
qed

lemma ucast_rune: "(ucast (of_nat x :: rune) :: 16 word) = of_nat x"
  by (rule bit_word_eqI) (simp add: bit_simps)

lemma unicode_step:
  assumes "n < 0x10000"
  shows "utf8_to_unicode_from (pre @ utf8 n @ s) (length pre) =
    push_front (of_nat n) (utf8_to_unicode_from (pre @ utf8 n @ s) (length pre + length (utf8 n)))"
proof -
  consider "n < 0x80" | "0x80 \<le> n" "n < 0x800" | "0x800 \<le> n" using assms by linarith
  then show ?thesis
  proof cases
    case 1
    then show ?thesis
      by (subst utf8_to_unicode_from.simps) (simp add: utf8_def byte8_high unit1_rune low_bits ucast_rune nth_append)
  next
    case 2
    then have q: "n div 64 < 32" by (simp add: div_less_iff_less_mult)
    show ?thesis
      using 2 q
      by (subst utf8_to_unicode_from.simps)
        (simp add: utf8_def byte8_high byte8_le unit2_rune low_bits cont_nat ucast_rune nth_append digits base_64 del: of_nat_add of_nat_mult)
  next
    case 3
    then have q: "n div 4096 < 16" using assms by (simp add: div_less_iff_less_mult)
    show ?thesis
      using 3 q assms
      by (subst utf8_to_unicode_from.simps)
        (simp add: utf8_def byte8_high byte8_le unit3_rune numeral_3_eq_3 low_bits cont_nat ucast_rune nth_append digits base_64 del: of_nat_add of_nat_mult)
  qed
qed

lemma unicode_from_utf8:
  "\<forall>n \<in> set ns. n < 0x10000 \<Longrightarrow> utf8_to_unicode_from (pre @ concat (map utf8 ns)) (length pre) = (map of_nat ns, True)"
proof (induction ns arbitrary: pre)
  case Nil
  show ?case by (subst utf8_to_unicode_from.simps) simp
next
  case (Cons n ns)
  then show ?case
    using unicode_step[of n pre "concat (map utf8 ns)"] Cons.IH[of "pre @ utf8 n"] by (simp add: push_front_def)
qed

text \<open>
  Every list of sixteen-bit units survives the way to UTF-8 and back.
\<close>

theorem unicode_roundtrip: "utf8_to_unicode (unicode_to_utf8 us) = (us, True)"
proof -
  have lt: "unat u < 0x10000" for u :: "16 word" using unsigned_less[of u, where 'a = nat] by simp
  have "utf8_of16 u = utf8 (unat u)" for u using utf8_of16_utf8[OF lt[of u]] by simp
  then have e: "unicode_to_utf8 us = concat (map utf8 (map unat us))"
    unfolding unicode_to_utf8_def map_map comp_def by (intro arg_cong[where f = concat] map_cong[OF refl])
  show ?thesis
    using unicode_from_utf8[of "map unat us" "[]"] lt by (simp add: e utf8_to_unicode_def comp_def)
qed


theorem utf16_of_utf32_witness: "\<exists>rs. utf8_to_unicode32 (utf8 0x4e2d) = (rs, True) \<and> [0x4e2d] = (map ucast rs :: 16 word list)"
proof -
  have "utf8_to_unicode (utf8 0x4e2d) = ([0x4e2d], True)"
    using unicode_from_utf8[of "[0x4e2d]" "[]"] by (simp add: utf8_to_unicode_def)
  from utf16_of_utf32[OF this] show ?thesis .
qed

section \<open>Formatting\<close>

text \<open>
  With the \<open>vsnprintf\<close> of the standard, which answers the length of the whole text and writes what fits,
  \<open>StringFormat\<close> gives the text in at most two rounds; with an older one, which answers -1 as long as the text
  does not fit, it doubles the buffer until it does.
\<close>

theorem string_format_text:
  assumes "\<And>room. vsn room = (int (length t), take (room - 1) t @ pad room)"
    "\<And>room. old room = (if length t < room then int (length t) else -1, take (room - 1) t @ pad room)"
  shows "string_format vsn = Some t \<and> string_format old = Some t"
proof -
  have "format_loop vsn (length t + 1) = Some t" by (subst format_loop.simps) (simp add: assms(1))
  then have "string_format vsn = Some t"
    unfolding string_format_def by (subst format_loop.simps) (auto simp: assms(1) min_def)
  moreover have "0 < room \<Longrightarrow> format_loop old room = Some t" for room
  proof (induction "length t - room" arbitrary: room rule: less_induct)
    case less
    show ?case
    proof (cases "length t < room")
      case True
      then show ?thesis by (subst format_loop.simps) (simp add: assms(2))
    next
      case long: False
      have "format_loop old room = format_loop old (room * 2)" using long by (subst format_loop.simps) (simp add: assms(2))
      also have "\<dots> = Some t"
      proof (cases "length t < room * 2")
        case True
        then show ?thesis by (subst format_loop.simps) (simp add: assms(2))
      next
        case False
        then show ?thesis using less.prems by (intro less.hyps) simp_all
      qed
      finally show ?thesis .
    qed
  qed
  ultimately show ?thesis by (simp add: string_format_def)
qed

theorem string_format_text_witness: "string_format (\<lambda>room. (2, take (room - 1) ''ok'' @ replicate room NUL)) = Some ''ok''"
  using string_format_text[of "\<lambda>room. (2, take (room - 1) ''ok'' @ replicate room NUL)" "''ok''" "\<lambda>room. replicate room NUL"
    "\<lambda>room. (if 2 < room then 2 else -1, take (room - 1) ''ok'' @ replicate room NUL)"] by simp

section \<open>Splitting and joining\<close>

text \<open>What \<open>Split\<close> means: the pieces between the separators, without an empty last one.\<close>

function pieces :: "(char \<Rightarrow> bool) \<Rightarrow> string \<Rightarrow> string list" where
  "pieces P s = (if s = [] then [] else takeWhile (\<lambda>c. \<not> P c) s # pieces P (drop 1 (dropWhile (\<lambda>c. \<not> P c) s)))"
  by pat_completeness auto
termination
proof (relation "measure (\<lambda>(P, s). length s)", goal_cases)
  case (2 P s)
  then show ?case using length_dropWhile_le[of "\<lambda>c. \<not> P c" s] by (cases s) auto
qed simp

declare pieces.simps [simp del]

lemma pieces_Cons:
  "\<forall>c \<in> set x. \<not> P c \<Longrightarrow> P d \<Longrightarrow> pieces P (x @ d # s) = x # pieces P s"
  by (subst pieces.simps) simp

lemma pieces_last: "\<forall>c \<in> set x. \<not> P c \<Longrightarrow> x \<noteq> [] \<Longrightarrow> pieces P x = [x]"
  by (subst pieces.simps) (simp add: takeWhile_eq_all_conv[THEN iffD2] dropWhile_eq_Nil_conv[THEN iffD2] pieces.simps)

lemma split_loop_pieces: "split_loop src pat None i res = res @ pieces (\<lambda>c. c \<in> set pat) (drop i src)"
proof (induction src pat "None :: nat option" i res rule: split_loop.induct)
  case (1 src pat i res)
  let ?P = "\<lambda>c. c \<notin> set pat"
  show ?case
  proof (cases "i < length src")
    case True
    define stop where "stop = scan_while ?P src i"
    have sub: "substr src i (stop - i) = takeWhile ?P (drop i src)" by (simp add: stop_def substr_scan)
    have dr: "drop stop src = dropWhile ?P (drop i src)"
      by (simp add: stop_def scan_while_takeWhile dropWhile_eq_drop add.commute)
    have le: "stop \<le> length src" using True by (simp add: stop_def scan_while_le)
    show ?thesis
    proof (cases "stop = length src")
      case stopped: True
      then have "\<forall>c \<in> set (drop i src). \<not> c \<in> set pat" using dr by (metis drop_all dropWhile_eq_Nil_conv order_refl)
      then have "pieces (\<lambda>c. c \<in> set pat) (drop i src) = [drop i src]" using True by (intro pieces_last) auto
      then show ?thesis using True stopped
        by (subst split_loop.simps) (simp add: stop_def[symmetric] substr_def)
    next
      case False
      have "split_loop src pat None i res = split_loop src pat None (stop + 1) (res @ [substr src i (stop - i)])"
        using True False by (subst split_loop.simps) (simp add: stop_def Let_def)
      also have "\<dots> = (res @ [substr src i (stop - i)]) @ pieces (\<lambda>c. c \<in> set pat) (drop (stop + 1) src)"
        by (rule 1[OF True stop_def]) (use False in simp)
      finally have "split_loop src pat None i res =
        (res @ [substr src i (stop - i)]) @ pieces (\<lambda>c. c \<in> set pat) (drop (stop + 1) src)" .
      moreover have "drop (stop + 1) src = drop 1 (dropWhile ?P (drop i src))" by (simp flip: dr)
      ultimately show ?thesis
        using True sub pieces.simps[of "\<lambda>c. c \<in> set pat" "drop i src"] by simp
    qed
  qed (subst split_loop.simps, simp add: pieces.simps)
qed

lemma pieces_join:
  "\<forall>x \<in> set xs. \<forall>c \<in> set x. \<not> P c \<Longrightarrow> P d \<Longrightarrow> xs \<noteq> [] \<Longrightarrow> last xs \<noteq> [] \<Longrightarrow> pieces P (join_str xs [d]) = xs"
proof (induction xs)
  case (Cons x xs)
  show ?case
  proof (cases xs)
    case Nil
    then show ?thesis using Cons.prems by (simp add: pieces_last)
  next
    case (Cons y ys)
    have "join_str (x # xs) [d] = x @ d # join_str xs [d]" by (simp add: Cons)
    then show ?thesis using Cons.prems Cons.IH Cons by (simp add: pieces_Cons)
  qed
qed simp

lemma pieces_join_empty:
  "\<forall>x \<in> set xs. \<forall>c \<in> set x. \<not> P c \<Longrightarrow> P d \<Longrightarrow> xs \<noteq> [] \<Longrightarrow> pieces P (join_str (xs @ [[]]) [d]) = xs"
proof (induction xs)
  case (Cons x xs)
  have "join_str ((x # xs) @ [[]]) [d] = x @ d # (if xs = [] then [] else join_str (xs @ [[]]) [d])"
    by (cases xs) simp_all
  then show ?case using Cons by (cases "xs = []") (simp_all add: pieces_Cons pieces.simps[of P "[]"])
qed simp

text \<open>
  Splitting what was joined gives the parts again, empty ones included, as long as no part contains a
  separator and the last part is not empty; an empty last part is lost.
\<close>

theorem split_join:
  assumes "\<forall>x \<in> set xs. set x \<inter> set pat = {}" "d \<in> set pat" "xs \<noteq> []" "last xs \<noteq> []"
  shows "split_str (join_str xs [d]) pat None = xs \<and> split_str (join_str (xs @ [[]]) [d]) pat None = xs"
proof -
  have p: "\<forall>x \<in> set xs. \<forall>c \<in> set x. \<not> c \<in> set pat" using assms(1) by blast
  have "pieces (\<lambda>c. c \<in> set pat) (join_str (xs @ [[]]) [d]) = xs"
    using pieces_join_empty[OF p assms(2,3)] .
  then show ?thesis using pieces_join[OF p assms(2-4)] by (simp add: split_str_def split_loop_pieces)
qed

theorem split_join_witness: "split_str ''a,,b;c'' '',;'' None = [''a'', '''', ''b'', ''c''] \<and> split_str ''a,b,'' '','' None = [''a'', ''b'']"
proof -
  have "split_str ''a,b,'' '','' None = [''a'', ''b'']" using split_join[of "[''a'', ''b'']" "'',''" "CHR '',''"] by simp
  moreover have "split_str ''a,,b;c'' '',;'' None = [''a'', '''', ''b'', ''c'']" by code_simp
  ultimately show ?thesis by simp
qed

section \<open>Trimming\<close>

lemma space_arg_char: "space_arg (as_unsigned c) \<longleftrightarrow> is_space c"
proof (cases "code c < 128")
  case True
  then have u: "as_unsigned c = of_nat (code c)" by (simp add: as_unsigned_def schar_def)
  have m: "(0xff :: 32 word) = mask 8" by (simp add: mask_eq_exp_minus_1)
  have a: "(of_nat (code c) :: 32 word) AND 0xff = of_nat (code c)"
    unfolding m take_bit_eq_mask[symmetric] take_bit_of_nat using code_lt[of c] by (simp add: take_bit_nat_eq_self)
  have "\<not> (of_nat (code c) :: 32 word) > 0xff"
    using True of_nat_le[where 'a = 32 and n = "code c" and m = "0xff"] by (simp add: not_less)
  then show ?thesis using code_lt[of c] unfolding space_arg_def u a by (simp add: unat_of_nat)
next
  case False
  have "uint (as_unsigned c) = (int (code c) - 256) mod 2 ^ 32"
    using False unfolding as_unsigned_def schar_def by (simp only: if_False uint_word_of_int) simp
  also have "\<dots> = (int (code c) - 256 + 2 ^ 32) mod 2 ^ 32" by (rule mod_add_self2[symmetric])
  also have "\<dots> = int (code c) - 256 + 2 ^ 32" using code_lt[of c] by simp
  finally have "uint (as_unsigned c) = int (code c) - 256 + 2 ^ 32" .
  then have "as_unsigned c > 0xff" using False by (simp add: word_less_def)
  moreover have "\<not> is_space c" using False by (auto simp: is_space_def codes)
  ultimately show ?thesis by (simp add: space_arg_def)
qed

text \<open>
  Trimming takes white space off both ends and nothing else: what it leaves starts and ends with a character
  that is none, or is empty.
\<close>

theorem trim_strips:
  "\<exists>a b. s = a @ trim s @ b \<and> (\<forall>c \<in> set (a @ b). is_space c) \<and>
    (trim s = [] \<or> \<not> is_space (hd (trim s)) \<and> \<not> is_space (last (trim s)))"
proof -
  define t where "t = rtrim s"
  define b where "b = rev (takeWhile is_space (rev s))"
  have t: "t = rev (dropWhile is_space (rev s))" by (simp add: t_def rtrim_def space_arg_char)
  have sb: "s = t @ b" unfolding t b_def by (metis rev_append rev_rev_ident takeWhile_dropWhile_id)
  have tr: "trim s = dropWhile is_space t" by (simp add: trim_def ltrim_def space_arg_char t_def)
  have parts: "t = takeWhile is_space t @ trim s" by (simp add: tr)
  then have "s = takeWhile is_space t @ trim s @ b" using sb by simp
  moreover have "\<forall>c \<in> set (takeWhile is_space t @ b). is_space c" by (auto simp: b_def dest: set_takeWhileD)
  moreover have "\<not> is_space (hd (trim s))" if "trim s \<noteq> []" using that unfolding tr by (rule hd_dropWhile)
  moreover have "\<not> is_space (last (trim s))" if "trim s \<noteq> []"
  proof -
    have "last (trim s) = last t" using that parts by (metis last_appendR)
    also have "\<dots> = hd (dropWhile is_space (rev s))" unfolding t by (rule last_rev)
    finally have l: "last (trim s) = hd (dropWhile is_space (rev s))" .
    have "dropWhile is_space (rev s) \<noteq> []"
      using that unfolding tr t by (intro notI) (simp only: rev.simps dropWhile.simps simp_thms)
    then have "\<not> is_space (hd (dropWhile is_space (rev s)))" by (rule hd_dropWhile)
    then show ?thesis by (simp only: l not_False_eq_True)
  qed
  ultimately show ?thesis by blast
qed

theorem trim_strips_witness: "\<exists>a b. '' a b '' = a @ trim '' a b '' @ b"
  using trim_strips[of "'' a b ''"] by blast

end
