(* ===== verification/DictTrie.thy ===== *)
theory DictTrie
  imports Segment StrUtil IniConf
begin

text \<open>
  The dictionary of the segmenter (\<open>src/utils/cppjieba/DictTrie.hpp\<close>): loading it and the words of the user,
  turning frequencies into weights, and adding words at run time.  The trie holds pointers into the vector of
  loaded words or into the queue of added ones; \<open>stale\<close> says that the vector has been moved since the trie was
  built, so that a pointer into it is dangling.  Doubles and the functions of the C library on them are a
  parameter, \<open>'w doubles\<close>.  A failed check or assertion ends the program: \<open>None\<close>.
\<close>

section \<open>The dictionary\<close>

record 'w doubles =
  arith_of :: "'w arith"
  log_ratio :: "'w \<Rightarrow> 'w \<Rightarrow> 'w"
  w_atof :: "string \<Rightarrow> 'w"
  w_of_int :: "int \<Rightarrow> 'w"

datatype weight_option = WordWeightMin | WordWeightMedian | WordWeightMax

datatype unit_ptr = Static nat | Active nat

record 'w dict_trie =
  static_infos :: "'w dict_unit list"
  active_infos :: "'w dict_unit list"
  trie_root :: "unit_ptr trie_node option"
  stale :: bool
  freq_sum :: 'w
  min_weight :: 'w
  max_weight :: 'w
  median_weight :: 'w
  user_default :: 'w
  user_singles :: "rune set"

definition UNKNOWN_TAG :: string where "UNKNOWN_TAG = []"

text \<open>When a word cannot be decoded its runes are cleared and the rest is left as it was.\<close>

definition make_node_info :: "'w dict_unit \<Rightarrow> string \<Rightarrow> 'w \<Rightarrow> string \<Rightarrow> 'w dict_unit \<times> bool" where
  "make_node_info u w weight tag =
     (case decode_unicode w of
        (rs, False) \<Rightarrow> (u\<lparr>unit_word := rs\<rparr>, False)
      | (rs, True) \<Rightarrow> (u\<lparr>unit_word := rs, unit_weight := weight, unit_tag := tag\<rparr>, True))"

section \<open>Loading\<close>

text \<open>The lines of the main dictionary; the same \<open>node_info\<close> serves every line.\<close>

fun load_lines :: "'w doubles \<Rightarrow> string list \<Rightarrow> 'w dict_unit \<Rightarrow> 'w dict_unit list \<Rightarrow> 'w dict_unit list option" where
  "load_lines ops [] u infos = Some infos"
| "load_lines ops (line # lines) u infos =
     (let buf = split_str line '' '' None in
      if length buf \<noteq> 3 then None
      else let u = fst (make_node_info u (buf ! 0) (w_atof ops (buf ! 1)) (buf ! 2))
        in load_lines ops lines u (infos @ [u]))"

definition fresh_unit :: "'w \<Rightarrow> 'w dict_unit" where
  "fresh_unit junk = \<lparr>unit_word = [], unit_weight = junk, unit_tag = []\<rparr>"

definition load_dict ::
    "'w doubles \<Rightarrow> 'w \<Rightarrow> (string \<Rightarrow> string option) \<Rightarrow> string \<Rightarrow> 'w dict_unit list option" where
  "load_dict ops junk files path =
     (case files path of None \<Rightarrow> None | Some content \<Rightarrow> load_lines ops (split_lines content 0) (fresh_unit junk) [])"

definition calc_freq_sum :: "'w doubles \<Rightarrow> 'w dict_unit list \<Rightarrow> 'w" where
  "calc_freq_sum ops infos = foldl (\<lambda>s u. add_w (arith_of ops) s (unit_weight u)) (zero_w (arith_of ops)) infos"

definition calculate_weight :: "('w::linorder) doubles \<Rightarrow> 'w \<Rightarrow> 'w dict_unit list \<Rightarrow> 'w dict_unit list option" where
  "calculate_weight ops s infos =
     (if s > zero_w (arith_of ops) \<and> (\<forall>u \<in> set infos. unit_weight u > zero_w (arith_of ops))
      then Some (map (\<lambda>u. u\<lparr>unit_weight := log_ratio ops (unit_weight u) s\<rparr>) infos)
      else None)"

definition set_static_word_weights ::
    "weight_option \<Rightarrow> ('w::linorder) dict_trie \<Rightarrow> 'w dict_trie option" where
  "set_static_word_weights opt d =
     (if static_infos d = [] then None
      else let x = sort (map unit_weight (static_infos d)); n = length x;
               d = d\<lparr>min_weight := x ! 0, max_weight := x ! (n - 1), median_weight := x ! (n div 2)\<rparr>
        in Some (d\<lparr>user_default :=
             (case opt of WordWeightMin \<Rightarrow> min_weight d | WordWeightMedian \<Rightarrow> median_weight d | WordWeightMax \<Rightarrow> max_weight d)\<rparr>))"

text \<open>After \<open>Shrink\<close> the vector is full, so the first element pushed to it moves it.\<close>

definition push_static :: "'w dict_unit \<Rightarrow> 'w dict_trie \<Rightarrow> 'w dict_trie" where
  "push_static u d = d\<lparr>static_infos := static_infos d @ [u], stale := (stale d \<or> trie_root d \<noteq> None)\<rparr>"

text \<open>What a line of a user dictionary gives; \<open>None\<close> is the assertion on the sum of frequencies.\<close>

definition user_node :: "('w::linorder) doubles \<Rightarrow> 'w \<Rightarrow> string \<Rightarrow> 'w dict_trie \<Rightarrow> 'w dict_unit option" where
  "user_node ops junk line d =
     (let buf = split_str line '' '' None; u = fresh_unit junk in
      if length buf = 1 then Some (fst (make_node_info u (buf ! 0) (user_default d) UNKNOWN_TAG))
      else if length buf = 2 then Some (fst (make_node_info u (buf ! 0) (user_default d) (buf ! 1)))
      else if length buf = 3
      then if freq_sum d > zero_w (arith_of ops)
        then Some (fst (make_node_info u (buf ! 0) (log_ratio ops (w_of_int ops (atoi (buf ! 1))) (freq_sum d)) (buf ! 2)))
        else None
      else Some u)"

definition inser_user_dict_node ::
    "('w::linorder) doubles \<Rightarrow> 'w \<Rightarrow> string \<Rightarrow> 'w dict_trie \<Rightarrow> 'w dict_trie option" where
  "inser_user_dict_node ops junk line d =
     (case user_node ops junk line d of
        None \<Rightarrow> None
      | Some u \<Rightarrow>
          let d = push_static u d in
          Some (if length (unit_word u) = 1 then d\<lparr>user_singles := insert (unit_word u ! 0) (user_singles d)\<rparr> else d))"

fun load_user_dict :: "('w::linorder) doubles \<Rightarrow> 'w \<Rightarrow> string list \<Rightarrow> 'w dict_trie \<Rightarrow> 'w dict_trie option" where
  "load_user_dict ops junk [] d = Some d"
| "load_user_dict ops junk (line # buf) d =
     (case inser_user_dict_node ops junk line d of None \<Rightarrow> None | Some d \<Rightarrow> load_user_dict ops junk buf d)"

fun load_user_files ::
    "('w::linorder) doubles \<Rightarrow> 'w \<Rightarrow> (string \<Rightarrow> string option) \<Rightarrow> string list \<Rightarrow> 'w dict_trie \<Rightarrow> 'w dict_trie option" where
  "load_user_files ops junk files [] d = Some d"
| "load_user_files ops junk files (f # fs) d =
     (case files f of
        None \<Rightarrow> None
      | Some content \<Rightarrow>
          (case load_user_dict ops junk (filter (\<lambda>l. l \<noteq> []) (split_lines content 0)) d of
             None \<Rightarrow> None
           | Some d \<Rightarrow> load_user_files ops junk files fs d))"

definition load_user_paths ::
    "('w::linorder) doubles \<Rightarrow> 'w \<Rightarrow> (string \<Rightarrow> string option) \<Rightarrow> string \<Rightarrow> 'w dict_trie \<Rightarrow> 'w dict_trie option" where
  "load_user_paths ops junk files paths d = load_user_files ops junk files (split_str paths ''|;'' None) d"

definition build_trie :: "'w dict_trie \<Rightarrow> 'w dict_trie option" where
  "build_trie d =
     (if static_infos d = [] then None
      else Some (d\<lparr>trie_root := Some (create_trie (map unit_word (static_infos d)) (map Static [0..<length (static_infos d)]))\<rparr>))"

definition blank_dict :: "'w \<Rightarrow> 'w dict_trie" where
  "blank_dict junk = \<lparr>static_infos = [], active_infos = [], trie_root = None, stale = False, freq_sum = junk,
     min_weight = junk, max_weight = junk, median_weight = junk, user_default = junk, user_singles = {}\<rparr>"

definition init_dict ::
    "('w::linorder) doubles \<Rightarrow> 'w \<Rightarrow> (string \<Rightarrow> string option) \<Rightarrow> string \<Rightarrow> string \<Rightarrow> weight_option \<Rightarrow> 'w dict_trie option" where
  "init_dict ops junk files dict_path user_paths opt =
     (case load_dict ops junk files dict_path of None \<Rightarrow> None | Some infos \<Rightarrow>
      let s = calc_freq_sum ops infos in
      case calculate_weight ops s infos of None \<Rightarrow> None | Some infos \<Rightarrow>
      case set_static_word_weights opt ((blank_dict junk)\<lparr>static_infos := infos, freq_sum := s\<rparr>) of None \<Rightarrow> None | Some d \<Rightarrow>
      case (if user_paths \<noteq> [] then load_user_paths ops junk files user_paths d else Some d) of None \<Rightarrow> None | Some d \<Rightarrow>
      build_trie d)"

section \<open>Looking up and adding\<close>

definition dict_find :: "'w dict_trie \<Rightarrow> rune list \<Rightarrow> unit_ptr option" where
  "dict_find d rs = (case trie_root d of None \<Rightarrow> None | Some root \<Rightarrow> trie_find root rs)"

text \<open>What a pointer points at, unless it dangles.\<close>

definition deref :: "'w dict_trie \<Rightarrow> unit_ptr \<Rightarrow> 'w dict_unit option" where
  "deref d p =
     (case p of Static i \<Rightarrow> if stale d then None else Some (static_infos d ! i) | Active i \<Rightarrow> Some (active_infos d ! i))"

definition dict_has :: "'w dict_trie \<Rightarrow> string \<Rightarrow> bool" where
  "dict_has d w = (dict_find d (fst (decode_unicode w)) \<noteq> None)"

definition insert_weighted :: "'w \<Rightarrow> string \<Rightarrow> 'w \<Rightarrow> string \<Rightarrow> 'w dict_trie \<Rightarrow> 'w dict_trie \<times> bool" where
  "insert_weighted junk w weight tag d =
     (case make_node_info (fresh_unit junk) w weight tag of
        (u, False) \<Rightarrow> (d, False)
      | (u, True) \<Rightarrow>
          (d\<lparr>active_infos := active_infos d @ [u],
             trie_root := map_option (insert_node (unit_word u) (Active (length (active_infos d)))) (trie_root d)\<rparr>, True))"

definition insert_user_word :: "'w \<Rightarrow> string \<Rightarrow> string \<Rightarrow> 'w dict_trie \<Rightarrow> 'w dict_trie \<times> bool" where
  "insert_user_word junk w tag d = insert_weighted junk w (user_default d) tag d"

definition insert_user_word_freq ::
    "'w doubles \<Rightarrow> 'w \<Rightarrow> string \<Rightarrow> int \<Rightarrow> string \<Rightarrow> 'w dict_trie \<Rightarrow> 'w dict_trie \<times> bool" where
  "insert_user_word_freq ops junk w freq tag d =
     insert_weighted junk w (if freq \<noteq> 0 then log_ratio ops (w_of_int ops freq) (freq_sum d) else user_default d) tag d"

section \<open>The loaded dictionary\<close>

text \<open>The value of a word: \<open>None\<close> is a dangling pointer, \<open>Some None\<close> a word that is not there.\<close>

definition lookup :: "'w dict_trie \<Rightarrow> rune list \<Rightarrow> 'w dict_unit option option" where
  "lookup d ks = (case dict_find d ks of None \<Rightarrow> Some None | Some p \<Rightarrow> map_option Some (deref d p))"

definition points_at :: "'w dict_trie \<Rightarrow> unit_ptr \<Rightarrow> rune list \<Rightarrow> bool" where
  "points_at d p ks =
     (case p of Static i \<Rightarrow> i < length (static_infos d) \<and> unit_word (static_infos d ! i) = ks
      | Active i \<Rightarrow> i < length (active_infos d) \<and> unit_word (active_infos d ! i) = ks)"

definition dict_ok :: "'w dict_trie \<Rightarrow> bool" where
  "dict_ok d \<longleftrightarrow> trie_root d \<noteq> None \<and> \<not> stale d \<and> (\<forall>ks p. dict_find d ks = Some p \<longrightarrow> points_at d p ks)"

definition loading :: "'w dict_trie \<Rightarrow> bool" where
  "loading d \<longleftrightarrow> trie_root d = None \<and> \<not> stale d \<and> active_infos d = []"

lemma user_node_keeps:
  "inser_user_dict_node ops junk line d = Some d' \<Longrightarrow>
     trie_root d' = trie_root d \<and> active_infos d' = active_infos d \<and> stale d' = (stale d \<or> trie_root d \<noteq> None)"
  by (auto simp: inser_user_dict_node_def push_static_def Let_def split: option.splits if_splits)

lemma load_user_keeps:
  "load_user_dict ops junk buf d = Some d' \<Longrightarrow>
     trie_root d' = trie_root d \<and> active_infos d' = active_infos d \<and> stale d' = (stale d \<or> buf \<noteq> [] \<and> trie_root d \<noteq> None)"
proof (induction buf arbitrary: d)
  case (Cons line buf)
  then obtain d1 where "inser_user_dict_node ops junk line d = Some d1" "load_user_dict ops junk buf d1 = Some d'"
    by (auto split: option.splits)
  then show ?case using user_node_keeps[of ops junk line d d1] Cons.IH[of d1] by auto
qed simp

lemma load_files_loading: "load_user_files ops junk files fs d = Some d' \<Longrightarrow> loading d \<Longrightarrow> loading d'"
proof (induction fs arbitrary: d)
  case (Cons f fs)
  then obtain c d1 where "load_user_dict ops junk (filter (\<lambda>l. l \<noteq> []) (split_lines c 0)) d = Some d1"
    "load_user_files ops junk files fs d1 = Some d'"
    by (auto split: option.splits)
  moreover from load_user_keeps[OF this(1)] Cons.prems(2) have "loading d1" by (simp add: loading_def)
  ultimately show ?case by (intro Cons.IH)
qed simp

lemma weights_loading: "set_static_word_weights opt d = Some d' \<Longrightarrow> loading d \<Longrightarrow> loading d'"
  by (auto simp: set_static_word_weights_def loading_def Let_def split: if_splits)

lemma init_shape:
  assumes "init_dict ops junk files dict_path user_paths opt = Some d"
  shows "trie_root d = Some (create_trie (map unit_word (static_infos d)) (map Static [0..<length (static_infos d)])) \<and>
    \<not> stale d \<and> active_infos d = []"
proof -
  obtain infos s d1 d2 where
    "set_static_word_weights opt ((blank_dict junk)\<lparr>static_infos := infos, freq_sum := s\<rparr>) = Some d1"
    "(if user_paths \<noteq> [] then load_user_paths ops junk files user_paths d1 else Some d1) = Some d2" "build_trie d2 = Some d"
    using assms by (auto simp: init_dict_def Let_def split: option.splits)
  moreover from this(1) have "loading d1" by (rule weights_loading) (simp add: loading_def blank_dict_def)
  ultimately have "loading d2" "build_trie d2 = Some d"
    using load_files_loading by (auto simp: load_user_paths_def split: if_splits)
  then show ?thesis by (auto simp: build_trie_def loading_def split: if_splits)
qed

lemma last_index:
  "case map_of (rev (zip (map f us) (map Static [0..<length us]))) ks of
     None \<Rightarrow> find (\<lambda>u. f u = ks) (rev us) = None
   | Some p \<Rightarrow> \<exists>i < length us. p = Static i \<and> find (\<lambda>u. f u = ks) (rev us) = Some (us ! i)"
proof (induction us rule: rev_induct)
  case (snoc u us)
  show ?case
  proof (cases "f u = ks")
    case False
    then show ?thesis using snoc
      by (auto simp: nth_append less_Suc_eq split: option.splits)
  qed auto
qed simp

lemma init_find:
  assumes "init_dict ops junk files dict_path user_paths opt = Some d"
  shows "case dict_find d ks of None \<Rightarrow> ks = [] \<or> find (\<lambda>u. unit_word u = ks) (rev (static_infos d)) = None
    | Some p \<Rightarrow> ks \<noteq> [] \<and> (\<exists>i < length (static_infos d). p = Static i \<and>
        find (\<lambda>u. unit_word u = ks) (rev (static_infos d)) = Some (static_infos d ! i))"
  using init_shape[OF assms] last_index[where f = unit_word and us = "static_infos d" and ks = ks]
  by (auto simp: dict_find_def create_trie_find split: option.splits)

lemma find_word: "find (\<lambda>u. unit_word u = ks) us = Some u \<Longrightarrow> unit_word u = ks"
  by (auto simp: find_Some_iff)

lemma init_ok: "init_dict ops junk files dict_path user_paths opt = Some d \<Longrightarrow> dict_ok d"
proof -
  assume i: "init_dict ops junk files dict_path user_paths opt = Some d"
  have "points_at d p ks" if "dict_find d ks = Some p" for ks p
    using init_find[OF i, of ks] that by (auto simp: points_at_def dest: find_word)
  then show ?thesis using init_shape[OF i] by (simp add: dict_ok_def)
qed


section \<open>Weights\<close>

text \<open>
  The weight of a word of the user lies between the least and the greatest weight of the dictionary, for every
  option, and these bounds are the weights of words.
\<close>

theorem static_weights:
  assumes "set_static_word_weights opt d = Some d'"
  shows "(\<forall>u \<in> set (static_infos d). min_weight d' \<le> unit_weight u \<and> unit_weight u \<le> max_weight d') \<and>
    {min_weight d', median_weight d', max_weight d', user_default d'} \<subseteq> unit_weight ` set (static_infos d) \<and>
    min_weight d' \<le> median_weight d' \<and> median_weight d' \<le> max_weight d'"
proof -
  define x where "x = sort (map unit_weight (static_infos d))"
  have ne: "static_infos d \<noteq> []" using assms by (auto simp: set_static_word_weights_def)
  then have n: "0 < length x" "length x - 1 < length x" "length x div 2 < length x" by (simp_all add: x_def)
  have d': "min_weight d' = x ! 0" "max_weight d' = x ! (length x - 1)" "median_weight d' = x ! (length x div 2)"
    "user_default d' = min_weight d' \<or> user_default d' = median_weight d' \<or> user_default d' = max_weight d'"
    using assms ne by (auto simp: set_static_word_weights_def Let_def x_def split: weight_option.splits)
  have sx: "sorted x" by (simp add: x_def)
  have st: "set x = unit_weight ` set (static_infos d)" by (simp add: x_def)
  have between: "x ! 0 \<le> x ! i \<and> x ! i \<le> x ! (length x - 1)" if "i < length x" for i
    using sorted_nth_mono[OF sx, of 0 i] sorted_nth_mono[OF sx, of i "length x - 1"] that by simp
  have "\<forall>u \<in> set (static_infos d). x ! 0 \<le> unit_weight u \<and> unit_weight u \<le> x ! (length x - 1)"
    using between st by (metis imageI in_set_conv_nth)
  moreover have "{x ! 0, x ! (length x div 2), x ! (length x - 1)} \<subseteq> unit_weight ` set (static_infos d)"
    unfolding st[symmetric] using n by simp
  ultimately show ?thesis using d' between[OF n(3)] by auto
qed

theorem static_weights_witness:
  "\<exists>d. set_static_word_weights WordWeightMedian
      ((blank_dict (0 :: nat))\<lparr>static_infos := map (\<lambda>w. (fresh_unit 0)\<lparr>unit_weight := w\<rparr>) [7, 3, 5]\<rparr>) = Some d \<and>
    min_weight d \<le> median_weight d \<and> median_weight d \<le> max_weight d"
proof -
  let ?d = "(blank_dict (0 :: nat))\<lparr>static_infos := map (\<lambda>w. (fresh_unit 0)\<lparr>unit_weight := w\<rparr>) [7, 3, 5]\<rparr>"
  obtain d where d: "set_static_word_weights WordWeightMedian ?d = Some d"
    by (simp add: set_static_word_weights_def Let_def)
  with static_weights[OF d] show ?thesis by blast
qed

section \<open>Words of the user\<close>

definition new_unit :: "string \<Rightarrow> 'w \<Rightarrow> string \<Rightarrow> 'w dict_unit" where
  "new_unit w weight tag = \<lparr>unit_word = fst (decode_unicode w), unit_weight = weight, unit_tag = tag\<rparr>"

lemma make_node_decodes:
  "make_node_info (fresh_unit junk) w weight tag = (u, True) \<Longrightarrow> u = new_unit w weight tag"
  by (auto simp: make_node_info_def new_unit_def fresh_unit_def split: prod.splits bool.splits)

lemma insert_weighted_find:
  assumes "insert_weighted junk w weight tag d = (d', True)" "trie_root d \<noteq> None"
  shows "dict_find d' ks = (if ks = fst (decode_unicode w) \<and> ks \<noteq> [] then Some (Active (length (active_infos d))) else dict_find d ks) \<and>
    active_infos d' = active_infos d @ [new_unit w weight tag] \<and> static_infos d' = static_infos d \<and> stale d' = stale d \<and>
    trie_root d' \<noteq> None \<and> min_weight d' = min_weight d"
proof -
  obtain u where "make_node_info (fresh_unit junk) w weight tag = (u, True)"
    "d' = d\<lparr>active_infos := active_infos d @ [u],
       trie_root := map_option (insert_node (unit_word u) (Active (length (active_infos d)))) (trie_root d)\<rparr>"
    using assms(1) by (auto simp: insert_weighted_def split: prod.splits bool.splits)
  then show ?thesis
    using assms(2) make_node_decodes[of junk w weight tag u]
    by (auto simp: dict_find_def trie_find_insert new_unit_def)
qed

lemma insert_weighted_ok:
  assumes "insert_weighted junk w weight tag d = (d', True)" "dict_ok d"
  shows "dict_ok d' \<and>
    lookup d' ks = (if ks = fst (decode_unicode w) \<and> ks \<noteq> [] then Some (Some (new_unit w weight tag)) else lookup d ks)"
proof -
  have root: "trie_root d \<noteq> None" "\<not> stale d" using assms(2) by (simp_all add: dict_ok_def)
  note find = insert_weighted_find[OF assms(1) root(1)]
  have grow: "points_at d p ks \<Longrightarrow> points_at d' p ks \<and> deref d' p = deref d p" for p ks
    using find by (auto simp: points_at_def deref_def nth_append split: unit_ptr.splits)
  have new: "points_at d' (Active (length (active_infos d))) (fst (decode_unicode w))"
    using find by (simp add: points_at_def new_unit_def)
  have "dict_ok d'"
    using find root grow new assms(2) by (auto simp: dict_ok_def split: if_splits)
  moreover have "lookup d' ks = (if ks = fst (decode_unicode w) \<and> ks \<noteq> [] then Some (Some (new_unit w weight tag)) else lookup d ks)"
  proof (cases "ks = fst (decode_unicode w) \<and> ks \<noteq> []")
    case True
    have "dict_find d' ks = Some (Active (length (active_infos d)))"
      using conjunct1[OF find[of ks]] unfolding if_P[OF True] .
    moreover have "deref d' (Active (length (active_infos d))) = Some (new_unit w weight tag)"
      using find by (simp add: deref_def)
    ultimately show ?thesis unfolding if_P[OF True] lookup_def by simp
  next
    case False
    have f: "dict_find d' ks = dict_find d ks"
      using conjunct1[OF find[of ks]] unfolding if_not_P[OF False] .
    show ?thesis
    proof (cases "dict_find d ks")
      case (Some p)
      then have "points_at d p ks" using assms(2) by (simp add: dict_ok_def)
      then show ?thesis unfolding if_not_P[OF False] lookup_def using grow f Some by simp
    qed (use f in \<open>unfold if_not_P[OF False], simp add: lookup_def\<close>)
  qed
  ultimately show ?thesis by simp
qed

lemma insert_weighted_rejects: "insert_weighted junk w weight tag d = (d', False) \<Longrightarrow> d' = d"
  by (auto simp: insert_weighted_def split: prod.splits bool.splits)

text \<open>
  C22. A word the user adds at run time is found from then on with the default weight and its tag, no other word
  changes, and no pointer dangles; a word that cannot be decoded is refused and changes nothing.
\<close>

theorem insert_user_word_lookup:
  assumes "dict_ok d" "insert_user_word junk w tag d = (d', ok)"
  shows "dict_ok d' \<and> (if ok then
      lookup d' ks = (if ks = fst (decode_unicode w) \<and> ks \<noteq> [] then Some (Some (new_unit w (user_default d) tag)) else lookup d ks)
    else d' = d)"
  using insert_weighted_ok[OF _ assms(1), of junk w "user_default d" tag d' ks]
    insert_weighted_rejects[of junk w "user_default d" tag d d'] assms
  by (cases ok) (simp_all add: insert_user_word_def)

text \<open>
  C34. Loading a user dictionary after the dictionary was built, as \<open>Jieba::LoadUserDict\<close> does, breaks it: the
  vector of words moves, every pointer in the trie dangles, so that each word that is found reads freed memory, and
  none of the new words is found.
\<close>

theorem late_user_dict_dangles:
  assumes "init_dict ops junk files dict_path user_paths opt = Some d" "load_user_dict ops' junk' buf d = Some d'" "buf \<noteq> []"
  shows "dict_find d' ks = dict_find d ks \<and> (dict_find d ks \<noteq> None \<longrightarrow> lookup d' ks = None)"
proof -
  note d = init_shape[OF assms(1)]
  note d' = load_user_keeps[OF assms(2)]
  have s: "stale d'" using d d' assms(3) by simp
  have same: "dict_find d' ks = dict_find d ks" using d' by (simp add: dict_find_def)
  show ?thesis
  proof (cases "dict_find d ks")
    case (Some p)
    then obtain i where "p = Static i" using init_find[OF assms(1), of ks] by auto
    then show ?thesis using Some same s by (simp add: lookup_def deref_def)
  qed (simp add: same)
qed

section \<open>Cutting with a loaded dictionary\<close>

definition dict_units :: "'w dict_trie \<Rightarrow> 'w dict_unit trie_node" where
  "dict_units d = (case trie_root d of None \<Rightarrow> new_node | Some root \<Rightarrow> map_trie_node (\<lambda>p. the (deref d p)) root)"

definition segmenter_of :: "'w doubles \<Rightarrow> 'w hmm_model \<Rightarrow> 'w dict_trie \<Rightarrow> 'w segmenter" where
  "segmenter_of ops model d =
     \<lparr>seg_arith = arith_of ops, seg_trie = dict_units d, seg_min_weight = min_weight d, seg_user_single = user_singles d,
      seg_model = model\<rparr>"

lemma walk_map: "walk (map_trie_node f n) ks = map_option f (walk n ks)"
proof (induction n ks rule: walk.induct)
  case (2 n r rs)
  have "map_of (map (map_prod id (map_trie_node f)) ms) r = map_option (map_trie_node f) (map_of ms r)" for ms
    by (induction ms) auto
  then show ?case using 2 by (cases n) (auto split: option.splits)
qed (simp add: trie_node.map_sel)

lemma dict_units_find: "trie_find (dict_units d) ks = map_option (\<lambda>p. the (deref d p)) (dict_find d ks)"
  by (auto simp: dict_units_def dict_find_def trie_find_def walk_map split: option.splits)

lemma dict_units_ok: "dict_ok d \<Longrightarrow> trie_ok (dict_units d)"
proof -
  assume d: "dict_ok d"
  have "unit_word (the (deref d p)) = ks" if "dict_find d ks = Some p" for ks p
  proof -
    have "points_at d p ks" "\<not> stale d" using d that by (simp_all add: dict_ok_def)
    then show ?thesis by (cases p) (simp_all add: points_at_def deref_def)
  qed
  then show ?thesis by (auto simp: trie_ok_def dict_units_find)
qed

text \<open>Adding one word after another, with a frequency or without.\<close>

fun add_words_to :: "('w::linorder) doubles \<Rightarrow> 'w \<Rightarrow> (string \<times> int option \<times> string) list \<Rightarrow> 'w dict_trie \<Rightarrow> 'w dict_trie" where
  "add_words_to ops junk [] d = d"
| "add_words_to ops junk ((w, freq, tag) # ws) d =
     add_words_to ops junk ws
       (fst (case freq of None \<Rightarrow> insert_user_word junk w tag d | Some n \<Rightarrow> insert_user_word_freq ops junk w n tag d))"

lemma insert_weighted_keeps: "dict_ok d \<Longrightarrow> dict_ok (fst (insert_weighted junk w weight tag d))"
  using insert_weighted_ok[of junk w weight tag d] insert_weighted_rejects[of junk w weight tag d]
  by (cases "insert_weighted junk w weight tag d"; cases "snd (insert_weighted junk w weight tag d)") fastforce+

lemma add_words_ok: "dict_ok d \<Longrightarrow> dict_ok (add_words_to ops junk ws d)"
proof (induction ws arbitrary: d)
  case (Cons w ws)
  obtain s freq tag where w: "w = (s, freq, tag)" by (cases w) auto
  show ?case
    using Cons by (cases freq) (simp_all add: w insert_user_word_def insert_user_word_freq_def insert_weighted_keeps)
qed simp



section \<open>A small dictionary\<close>

definition nat_doubles :: "nat doubles" where
  "nat_doubles = \<lparr>arith_of = nat_arith, log_ratio = (\<lambda>x s. x), w_atof = digits_val, w_of_int = nat\<rparr>"

definition dict_text :: string where "dict_text = ''ab 3 n'' @ [NL] @ ''b 2 n'' @ [NL] @ ''a 1 n'' @ [NL]"

definition user_text :: string where "user_text = ''b'' @ [NL] @ [NL] @ ''ba x'' @ [NL]"

definition two_files :: "string \<Rightarrow> string option" where
  "two_files f = (if f = ''dict'' then Some dict_text else if f = ''user'' then Some user_text else None)"

lemma ascii_utf8: "\<forall>c \<in> set s. code c < 128 \<Longrightarrow> concat (map utf8 (map code s)) = s"
  by (induction s) (simp_all add: utf8_def code_def)

lemma decode_ascii: "\<forall>c \<in> set s. code c < 128 \<Longrightarrow> decode_unicode s = (map (\<lambda>c. of_nat (code c)) s, True)"
proof -
  assume a: "\<forall>c \<in> set s. code c < 128"
  then have "\<forall>n \<in> set (map code s). n < 2 ^ 21" by fastforce
  from decode_from_utf8[OF this, of "[]" 0] ascii_utf8[OF a] show ?thesis
    by (auto simp: decode_unicode_def decode_runes_def comp_def split: option.splits)
qed

lemma two_files_text:
  "split_lines dict_text 0 = [''ab 3 n'', ''b 2 n'', ''a 1 n'']" "split_lines user_text 0 = [''b'', [], ''ba x'']"
  "split_str ''user'' ''|;'' None = [''user'']"
  "split_str ''ab 3 n'' '' '' None = [''ab'', ''3'', ''n'']" "split_str ''b 2 n'' '' '' None = [''b'', ''2'', ''n'']"
  "split_str ''a 1 n'' '' '' None = [''a'', ''1'', ''n'']"
  "split_str ''b'' '' '' None = [''b'']" "split_str ''ba x'' '' '' None = [''ba'', ''x'']"
  by code_simp+


lemma small_nodes:
  "make_node_info u ''ab'' x t = (u\<lparr>unit_word := [97, 98], unit_weight := x, unit_tag := t\<rparr>, True)"
  "make_node_info u ''b'' x t = (u\<lparr>unit_word := [98], unit_weight := x, unit_tag := t\<rparr>, True)"
  "make_node_info u ''a'' x t = (u\<lparr>unit_word := [97], unit_weight := x, unit_tag := t\<rparr>, True)"
  "make_node_info u ''ba'' x t = (u\<lparr>unit_word := [98, 97], unit_weight := x, unit_tag := t\<rparr>, True)"
  by (simp_all add: make_node_info_def decode_ascii code_def)

definition small_loaded :: "nat dict_trie option" where
  "small_loaded = init_dict nat_doubles 0 two_files ''dict'' ''user'' WordWeightMedian"

lemma two_files_some: "two_files ''dict'' = Some dict_text" "two_files ''user'' = Some user_text"
  by (simp_all add: two_files_def)

lemma small_infos:
  "load_dict nat_doubles 0 two_files ''dict'' =
     Some [\<lparr>unit_word = [97, 98], unit_weight = 3, unit_tag = ''n''\<rparr>, \<lparr>unit_word = [98], unit_weight = 2, unit_tag = ''n''\<rparr>,
       \<lparr>unit_word = [97], unit_weight = 1, unit_tag = ''n''\<rparr>]"
  unfolding load_dict_def two_files_some(1) option.case two_files_text
  by (simp add: two_files_text small_nodes Let_def fresh_unit_def nat_doubles_def digits_val_def code_def)

lemma small_loads: "\<exists>d. small_loaded = Some d \<and> map unit_word (static_infos d) = [[97, 98], [98], [97], [98], [98, 97]]"
proof -
  have srt: "sort [3, 2, 1 :: nat] = [1, 2, 3]" by simp
  have w: "calculate_weight nat_doubles 6 infos = Some infos" if "\<forall>u \<in> set infos. 0 < unit_weight u" for infos
    using that by (simp add: calculate_weight_def nat_doubles_def nat_arith_def)
  show ?thesis
    unfolding small_loaded_def init_dict_def small_infos option.case Let_def
    by (simp add: calc_freq_sum_def nat_doubles_def nat_arith_def calculate_weight_def set_static_word_weights_def Let_def
        load_user_paths_def two_files_text two_files_some(2) inser_user_dict_node_def user_node_def small_nodes
        push_static_def blank_dict_def fresh_unit_def build_trie_def)
qed



theorem insert_user_word_lookup_witness:
  "\<exists>d d'. small_loaded = Some d \<and> insert_user_word 0 ''aa'' ''x'' d = (d', True) \<and>
    lookup d' [97, 97] = Some (Some (new_unit ''aa'' (user_default d) ''x''))"
proof -
  obtain d where d: "small_loaded = Some d" using small_loads by (elim exE conjE) (rule that; assumption)
  have aa: "decode_unicode ''aa'' = ([97, 97], True)" by (simp add: decode_ascii code_def)
  then obtain d' where d': "insert_user_word 0 ''aa'' ''x'' d = (d', True)"
    by (simp add: insert_user_word_def insert_weighted_def make_node_info_def)
  from insert_user_word_lookup[OF init_ok[OF d[unfolded small_loaded_def]] d', of "[97, 97]"] d d' aa show ?thesis by auto
qed

theorem late_user_dict_dangles_witness:
  "\<exists>d d'. small_loaded = Some d \<and> load_user_dict nat_doubles 0 [''b''] d = Some d' \<and> lookup d' [97, 98] = None"
proof -
  obtain d where d: "small_loaded = Some d" "map unit_word (static_infos d) = [[97, 98], [98], [97], [98], [98, 97]]"
    using small_loads by (elim exE conjE) (rule that; assumption)
  obtain d' where d': "load_user_dict nat_doubles 0 [''b''] d = Some d'"
    by (simp add: inser_user_dict_node_def user_node_def two_files_text Let_def)
  have "[97, 98] \<in> set (map unit_word (static_infos d))" unfolding d(2) by simp
  then have "find (\<lambda>u. unit_word u = [97, 98]) (rev (static_infos d)) \<noteq> None"
    unfolding find_None_iff by (metis imageE list.set_map set_rev)
  then have "dict_find d [97, 98] \<noteq> None"
    using init_find[OF d(1)[unfolded small_loaded_def], of "[97, 98]"] by (cases "dict_find d [97, 98]") simp_all
  with late_user_dict_dangles[OF d(1)[unfolded small_loaded_def] d', of "[97, 98]"] d(1) d' show ?thesis by blast
qed


end
