(* ===== verification/Keywords.thy ===== *)
theory Keywords
  imports DictTrie "HOL-Library.List_Lexorder" "HOL-Library.Char_ord" "HOL-Library.Multiset"
begin

text \<open>
  Extracting keywords (\<open>src/utils/cppjieba/KeywordExtractor.hpp\<close>) by frequency and inverse document
  frequency.  A \<open>std::map\<close> from strings is an association list in
  the order of its keys, which for \<open>char\<close> is that of unsigned bytes.  The arithmetic of doubles is a parameter, and
  so is \<open>partial_sort\<close>, of which only what the standard promises is used.
\<close>

section \<open>Maps in the order of their keys\<close>

text \<open>\<open>m[k]\<close> creates a value \<open>z\<close> where there is none; \<open>f\<close> is what is done with it.\<close>

fun map_at :: "string \<Rightarrow> ('v \<Rightarrow> 'v) \<Rightarrow> 'v \<Rightarrow> (string \<times> 'v) list \<Rightarrow> (string \<times> 'v) list" where
  "map_at k f z [] = [(k, f z)]"
| "map_at k f z ((k', v) # m) =
     (if k = k' then (k', f v) # m
      else if k < k' then (k, f z) # (k', v) # m
      else (k', v) # map_at k f z m)"

definition keys_ok :: "(string \<times> 'v) list \<Rightarrow> bool" where
  "keys_ok m \<longleftrightarrow> sorted_wrt (<) (map fst m)"

lemma map_at_keys: "set (map fst (map_at k f z m)) = insert k (set (map fst m))"
  by (induction k f z m rule: map_at.induct) auto

lemma map_at_ok: "keys_ok m \<Longrightarrow> keys_ok (map_at k f z m)"
proof (induction k f z m rule: map_at.induct)
  case (2 k f z k' v m)
  then show ?case
    using map_at_keys[of k f z m] by (auto simp: keys_ok_def dest: order.strict_trans)
qed (simp add: keys_ok_def)

lemma map_at_get:
  "keys_ok m \<Longrightarrow> map_of (map_at k f z m) = (map_of m)(k \<mapsto> f (case map_of m k of None \<Rightarrow> z | Some v \<Rightarrow> v))"
proof (induction k f z m rule: map_at.induct)
  case (2 k f z k' v m)
  have "k < k' \<Longrightarrow> map_of m k = None"
    using 2(2) by (auto simp: keys_ok_def map_of_eq_None_iff dest: order.strict_trans)
  then show ?case using 2 by (auto simp: keys_ok_def fun_eq_iff)
qed (simp add: fun_eq_iff)

lemma keys_distinct: "keys_ok m \<Longrightarrow> distinct (map fst m)"
  by (simp add: keys_ok_def strict_sorted_iff)

section \<open>The dictionaries of the extractor\<close>

record 'w kw_ops =
  kw_zero :: 'w
  kw_one :: 'w
  kw_add :: "'w \<Rightarrow> 'w \<Rightarrow> 'w"
  kw_mult :: "'w \<Rightarrow> 'w \<Rightarrow> 'w"
  kw_div_count :: "'w \<Rightarrow> nat \<Rightarrow> 'w"
  kw_atof :: "string \<Rightarrow> 'w"

record 'w keyword =
  kw_word :: string
  kw_offsets :: "nat list"
  kw_weight :: 'w

record 'w extractor =
  ex_segmenter :: "'w segmenter"
  ex_symbols :: "rune set"
  idf_map :: "string \<rightharpoonup> 'w"
  idf_average :: 'w
  stop_words :: "string set"

text \<open>The loop over the lines: the map, the sum of the values and the number of lines, skipped ones included.\<close>

fun idf_lines :: "'w kw_ops \<Rightarrow> string list \<Rightarrow> (string \<rightharpoonup> 'w) \<times> 'w \<times> nat \<Rightarrow> (string \<rightharpoonup> 'w) \<times> 'w \<times> nat" where
  "idf_lines ops [] st = st"
| "idf_lines ops (line # ls) (mp, s, n) =
     (if line = [] then idf_lines ops ls (mp, s, n + 1)
      else let buf = split_str line '' '' None in
        if length buf \<noteq> 2 then idf_lines ops ls (mp, s, n + 1)
        else let idf = kw_atof ops (buf ! 1) in idf_lines ops ls (mp(buf ! 0 \<mapsto> idf), kw_add ops s idf, n + 1))"

definition load_idf_dict :: "('w::linorder) kw_ops \<Rightarrow> (string \<Rightarrow> string option) \<Rightarrow> string \<Rightarrow> ((string \<rightharpoonup> 'w) \<times> 'w) option" where
  "load_idf_dict ops files path =
     (case files path of None \<Rightarrow> None
      | Some content \<Rightarrow>
          (case idf_lines ops (split_lines content 0) (Map.empty, kw_zero ops, 0) of
             (mp, s, n) \<Rightarrow>
               if n \<noteq> 0 \<and> kw_div_count ops s n > kw_zero ops then Some (mp, kw_div_count ops s n) else None))"

definition load_stop_words :: "(string \<Rightarrow> string option) \<Rightarrow> string \<Rightarrow> string set option" where
  "load_stop_words files path =
     (case files path of None \<Rightarrow> None
      | Some content \<Rightarrow> let ws = set (split_lines content 0) in if ws \<noteq> {} then Some ws else None)"

definition new_extractor ::
    "('w::linorder) kw_ops \<Rightarrow> 'w segmenter \<Rightarrow> (string \<Rightarrow> string option) \<Rightarrow> string \<Rightarrow> string \<Rightarrow> 'w extractor option" where
  "new_extractor ops g files idf_path stop_path =
     (case load_idf_dict ops files idf_path of None \<Rightarrow> None | Some (mp, avg) \<Rightarrow>
      case load_stop_words files stop_path of None \<Rightarrow> None | Some stop \<Rightarrow>
      Some \<lparr>ex_segmenter = g, ex_symbols = fst (reset_separators special_separators), idf_map = mp, idf_average = avg,
        stop_words = stop\<rparr>)"

section \<open>Extraction\<close>

definition skipped :: "string set \<Rightarrow> string \<Rightarrow> bool" where
  "skipped stop w \<longleftrightarrow> is_single_word w \<or> w \<in> stop"

definition bump :: "'w kw_ops \<Rightarrow> 'w keyword \<Rightarrow> nat \<Rightarrow> 'w keyword" where
  "bump ops k t = k\<lparr>kw_offsets := kw_offsets k @ [t], kw_weight := kw_add ops (kw_weight k) (kw_one ops)\<rparr>"

definition blank_word :: "'w kw_ops \<Rightarrow> 'w keyword" where
  "blank_word ops = \<lparr>kw_word = [], kw_offsets = [], kw_weight = kw_zero ops\<rparr>"

fun tally_words ::
    "'w kw_ops \<Rightarrow> string set \<Rightarrow> string list \<Rightarrow> nat \<Rightarrow> (string \<times> 'w keyword) list \<Rightarrow> nat \<times> (string \<times> 'w keyword) list" where
  "tally_words ops stop [] pos m = (pos, m)"
| "tally_words ops stop (w # ws) pos m =
     tally_words ops stop ws (pos + length w)
       (if skipped stop w then m
        else map_at w (\<lambda>k. bump ops k pos) (blank_word ops) m)"

definition weigh_word :: "'w kw_ops \<Rightarrow> 'w extractor \<Rightarrow> string \<times> 'w keyword \<Rightarrow> 'w keyword" where
  "weigh_word ops ex = (\<lambda>(w, k).
     k\<lparr>kw_weight := kw_mult ops (kw_weight k) (case idf_map ex w of Some idf \<Rightarrow> idf | None \<Rightarrow> idf_average ex),
       kw_word := w\<rparr>)"

definition extract_top ::
    "(nat \<Rightarrow> 'w keyword list \<Rightarrow> 'w keyword list) \<Rightarrow> ('w::linorder) kw_ops \<Rightarrow> 'w extractor \<Rightarrow> string \<Rightarrow> 'w keyword list \<Rightarrow>
     nat \<Rightarrow> 'w keyword list option" where
  "extract_top partial_sort ops ex sentence keywords topN =
     (case cut_words (mix_ranges (ex_segmenter ex) True) (ex_symbols ex) sentence of
        None \<Rightarrow> None
      | Some jws \<Rightarrow>
          (case tally_words ops (stop_words ex) (strings_of jws) 0 [] of
             (pos, wordmap) \<Rightarrow>
               if pos \<noteq> length sentence then Some keywords
               else let keywords = map (weigh_word ops ex) wordmap; topN = min topN (length keywords)
                 in Some (take topN (partial_sort topN keywords))))"

definition extract_strings ::
    "(nat \<Rightarrow> 'w keyword list \<Rightarrow> 'w keyword list) \<Rightarrow> ('w::linorder) kw_ops \<Rightarrow> 'w extractor \<Rightarrow> string \<Rightarrow> string list \<Rightarrow>
     nat \<Rightarrow> string list option" where
  "extract_strings partial_sort ops ex sentence keywords topN =
     map_option (\<lambda>kws. keywords @ map kw_word kws) (extract_top partial_sort ops ex sentence [] topN)"

definition extract_pairs ::
    "(nat \<Rightarrow> 'w keyword list \<Rightarrow> 'w keyword list) \<Rightarrow> ('w::linorder) kw_ops \<Rightarrow> 'w extractor \<Rightarrow> string \<Rightarrow> (string \<times> 'w) list \<Rightarrow>
     nat \<Rightarrow> (string \<times> 'w) list option" where
  "extract_pairs partial_sort ops ex sentence keywords topN =
     map_option (\<lambda>kws. keywords @ map (\<lambda>k. (kw_word k, kw_weight k)) kws) (extract_top partial_sort ops ex sentence [] topN)"

section \<open>What is extracted\<close>

text \<open>Where a word stands among the words of a sentence.\<close>

fun occurs_at :: "string \<Rightarrow> string list \<Rightarrow> nat \<Rightarrow> nat list" where
  "occurs_at w [] p = []"
| "occurs_at w (x # xs) p = (if x = w then [p] else []) @ occurs_at w xs (p + length x)"

lemma occurs_there: "t \<in> set (occurs_at w ws p) \<Longrightarrow> \<exists>pre post. ws = pre @ w # post \<and> t = p + length (concat pre)"
proof (induction ws arbitrary: p)
  case (Cons x xs)
  show ?case
  proof (cases "t \<in> set (occurs_at w xs (p + length x))")
    case True
    then obtain pre post where "xs = pre @ w # post" "t = p + length x + length (concat pre)" using Cons.IH by blast
    then show ?thesis by (intro exI[of _ "x # pre"] exI[of _ post]) simp
  next
    case False
    then have "x = w" "t = p" using Cons.prems by (auto split: if_splits)
    then show ?thesis by (intro exI[of _ "[]"] exI[of _ xs]) simp
  qed
qed simp

lemma occurs_text: "t \<in> set (occurs_at w ws 0) \<Longrightarrow> substr (concat ws) t (length w) = w"
  using occurs_there[of t w ws 0] by (auto simp: substr_def)

lemma occurs_none: "w \<notin> set ws \<Longrightarrow> occurs_at w ws p = []"
  by (induction ws arbitrary: p) auto

lemma count_words_spec:
  "keys_ok m \<Longrightarrow> tally_words ops stop ws p m = (p', m') \<Longrightarrow>
     p' = p + length (concat ws) \<and> keys_ok m' \<and>
     map_of m' w = (if skipped stop w \<or> w \<notin> set ws then map_of m w
       else Some (foldl (bump ops) (case map_of m w of None \<Rightarrow> blank_word ops | Some k \<Rightarrow> k) (occurs_at w ws p)))"
proof (induction ws arbitrary: p m)
  case (Cons x ws)
  let ?m = "if skipped stop x then m else map_at x (\<lambda>k. bump ops k p) (blank_word ops) m"
  have ok: "keys_ok ?m" using Cons.prems(1) map_at_ok by auto
  have IH: "p' = p + length x + length (concat ws) \<and> keys_ok m' \<and>
     map_of m' w = (if skipped stop w \<or> w \<notin> set ws then map_of ?m w
       else Some (foldl (bump ops) (case map_of ?m w of None \<Rightarrow> blank_word ops | Some k \<Rightarrow> k) (occurs_at w ws (p + length x))))"
    by (rule Cons.IH[OF ok]) (use Cons.prems(2) in simp)
  show ?case
  proof (cases "skipped stop x \<or> w \<noteq> x")
    case True
    then have "map_of ?m w = map_of m w" using Cons.prems(1) by (auto simp: map_at_get)
    then show ?thesis using IH True by auto
  next
    case False
    then have "map_of ?m w = Some (bump ops (case map_of m w of None \<Rightarrow> blank_word ops | Some k \<Rightarrow> k) p)"
      using Cons.prems(1) by (simp add: map_at_get)
    then show ?thesis using IH False occurs_none[of w ws] by (cases "w \<in> set ws") auto
  qed
qed simp

lemma bumps:
  "kw_offsets (foldl (bump ops) k ts) = kw_offsets k @ ts \<and> kw_word (foldl (bump ops) k ts) = kw_word k \<and>
   kw_weight (foldl (bump ops) k ts) = ((\<lambda>x. kw_add ops x (kw_one ops)) ^^ length ts) (kw_weight k)"
  by (induction ts rule: rev_induct) (simp_all add: bump_def)

text \<open>The score of a word: how often it occurs, counted in doubles, times its inverse document frequency.\<close>

definition score :: "'w kw_ops \<Rightarrow> 'w extractor \<Rightarrow> string list \<Rightarrow> string \<Rightarrow> 'w" where
  "score ops ex ws w =
     kw_mult ops (((\<lambda>x. kw_add ops x (kw_one ops)) ^^ length (occurs_at w ws 0)) (kw_zero ops))
       (case idf_map ex w of Some idf \<Rightarrow> idf | None \<Rightarrow> idf_average ex)"

definition entry_for :: "'w kw_ops \<Rightarrow> 'w extractor \<Rightarrow> string list \<Rightarrow> string \<Rightarrow> 'w keyword" where
  "entry_for ops ex ws w = \<lparr>kw_word = w, kw_offsets = occurs_at w ws 0, kw_weight = score ops ex ws w\<rparr>"

definition candidates :: "'w extractor \<Rightarrow> string list \<Rightarrow> string set" where
  "candidates ex ws = {w \<in> set ws. \<not> skipped (stop_words ex) w}"

lemma counted_words:
  assumes "tally_words ops (stop_words ex) ws 0 [] = (p, m)"
  shows "p = length (concat ws) \<and> distinct (map kw_word (map (weigh_word ops ex) m)) \<and>
    set (map (weigh_word ops ex) m) = entry_for ops ex ws ` candidates ex ws"
proof -
  have ok: "keys_ok ([] :: (string \<times> 'a keyword) list)" by (simp add: keys_ok_def)
  note spec = count_words_spec[OF ok assms]
  have m: "keys_ok m" using spec by blast
  have mo: "(w, k) \<in> set m \<longleftrightarrow> map_of m w = Some k" for w k using keys_distinct[OF m] by simp
  then have mem: "(w, k) \<in> set m \<longleftrightarrow> w \<in> candidates ex ws \<and> k = foldl (bump ops) (blank_word ops) (occurs_at w ws 0)" for w k
    unfolding mo using spec[of w] by (auto simp: candidates_def)
  have entry: "weigh_word ops ex (w, foldl (bump ops) (blank_word ops) (occurs_at w ws 0)) = entry_for ops ex ws w" for w
    using bumps[of ops "blank_word ops" "occurs_at w ws 0"] by (simp add: weigh_word_def entry_for_def score_def blank_word_def)
  have "map kw_word (map (weigh_word ops ex) m) = map fst m" by (induction m) (auto simp: weigh_word_def)
  moreover have "set (map (weigh_word ops ex) m) = entry_for ops ex ws ` candidates ex ws"
  proof (intro set_eqI iffI)
    fix k
    assume "k \<in> set (map (weigh_word ops ex) m)"
    then obtain w k' where "(w, k') \<in> set m" "k = weigh_word ops ex (w, k')" by auto
    then show "k \<in> entry_for ops ex ws ` candidates ex ws" using mem[of w k'] entry[of w] by auto
  next
    fix k
    assume "k \<in> entry_for ops ex ws ` candidates ex ws"
    then obtain w where "w \<in> candidates ex ws" "k = entry_for ops ex ws w" by blast
    then have "(w, foldl (bump ops) (blank_word ops) (occurs_at w ws 0)) \<in> set m" using mem by blast
    then show "k \<in> set (map (weigh_word ops ex) m)" using entry[of w] \<open>k = _\<close> by (metis imageI list.set_map)
  qed
  ultimately show ?thesis using conjunct1[OF spec] keys_distinct[OF m] by (metis add_0)
qed

text \<open>What the standard promises of \<open>partial_sort\<close> with \<open>Compare\<close>, the greater weight first.\<close>

definition sorts_top :: "(nat \<Rightarrow> ('w::linorder) keyword list \<Rightarrow> 'w keyword list) \<Rightarrow> bool" where
  "sorts_top partial_sort \<longleftrightarrow> (\<forall>n ks. n \<le> length ks \<longrightarrow>
     mset (partial_sort n ks) = mset ks \<and>
     sorted_wrt (\<lambda>x y. kw_weight y \<le> kw_weight x) (take n (partial_sort n ks)) \<and>
     (\<forall>x \<in> set (take n (partial_sort n ks)). \<forall>y \<in> set (drop n (partial_sort n ks)). kw_weight y \<le> kw_weight x))"

lemma top_of:
  assumes "sorts_top partial_sort" "distinct (map kw_word ks)" "n \<le> length ks"
  defines "best \<equiv> take n (partial_sort n ks)"
  shows "length best = n \<and> set best \<subseteq> set ks \<and> distinct (map kw_word best) \<and>
    sorted_wrt (\<lambda>x y. kw_weight y \<le> kw_weight x) best \<and>
    (\<forall>x \<in> set best. \<forall>y \<in> set ks - set best. kw_weight y \<le> kw_weight x)"
proof -
  have perm: "mset (partial_sort n ks) = mset ks" using assms(1,3) by (simp add: sorts_top_def)
  then have len: "length (partial_sort n ks) = length ks" and st: "set (partial_sort n ks) = set ks"
    by (metis size_mset, metis set_mset_mset)
  have "mset (map kw_word (partial_sort n ks)) = mset (map kw_word ks)" using perm by simp
  then have "distinct (map kw_word (partial_sort n ks))" using assms(2) by (metis mset_eq_imp_distinct_iff)
  then have "distinct (map kw_word best)" by (simp add: best_def flip: take_map)
  moreover have "y \<in> set ks - set best \<Longrightarrow> y \<in> set (drop n (partial_sort n ks))" for y
    unfolding st[symmetric] best_def by (metis DiffD1 DiffD2 Un_iff append_take_drop_id set_append)
  moreover have "set best \<subseteq> set ks" unfolding st[symmetric] best_def by (rule set_take_subset)
  ultimately show ?thesis using assms(1,3) len by (simp add: sorts_top_def best_def)
qed

text \<open>
  C20. For a sentence that can be decoded and a sound dictionary, \<open>Extract\<close> gives the best keywords: the words
  of the cut that have more than one rune and are no stop words, each once, with all the places where it stands in
  the sentence and its score; there are \<open>topN\<close> of them or as many as the sentence has, in the order of their
  scores, and none left out has a greater score.
\<close>

theorem extract_top_best:
  assumes "decode_runes sentence = (rs, True)" "trie_ok (seg_trie (ex_segmenter ex))" "sorts_top partial_sort"
  shows "\<exists>jws ks. cut_words (mix_ranges (ex_segmenter ex) True) (ex_symbols ex) sentence = Some jws \<and>
    extract_top partial_sort ops ex sentence old topN = Some ks \<and>
    length ks = min topN (card (candidates ex (strings_of jws))) \<and>
    sorted_wrt (\<lambda>x y. kw_weight y \<le> kw_weight x) ks \<and> distinct (map kw_word ks) \<and>
    (\<forall>k \<in> set ks. kw_word k \<in> candidates ex (strings_of jws) \<and> k = entry_for ops ex (strings_of jws) (kw_word k) \<and>
      (\<forall>t \<in> set (kw_offsets k). substr sentence t (length (kw_word k)) = kw_word k)) \<and>
    (\<forall>w \<in> candidates ex (strings_of jws) - kw_word ` set ks. \<forall>k \<in> set ks. score ops ex (strings_of jws) w \<le> kw_weight k)"
proof -
  obtain jws where jws: "cut_words (mix_ranges (ex_segmenter ex) True) (ex_symbols ex) sentence = Some jws"
    "concat (strings_of jws) = sentence"
    using mix_segment_covers[OF assms(1,2)] by blast
  obtain p m where pm: "tally_words ops (stop_words ex) (strings_of jws) 0 [] = (p, m)" by fastforce
  let ?c = "candidates ex (strings_of jws)" and ?e = "entry_for ops ex (strings_of jws)"
  define ks where "ks = map (weigh_word ops ex) m"
  note spec = counted_words[OF pm, folded ks_def]
  define best where "best = take (min topN (length ks)) (partial_sort (min topN (length ks)) ks)"
  have t: "length best = min topN (length ks)" "set best \<subseteq> set ks" "distinct (map kw_word best)"
    "sorted_wrt (\<lambda>x y. kw_weight y \<le> kw_weight x) best"
    "\<forall>x \<in> set best. \<forall>y \<in> set ks - set best. kw_weight y \<le> kw_weight x"
    using top_of[OF assms(3) _ min.cobounded2, of ks topN] spec by (simp_all add: best_def)
  have e: "kw_word (?e w) = w" "kw_weight (?e w) = score ops ex (strings_of jws) w" "kw_offsets (?e w) = occurs_at w (strings_of jws) 0" for w
    by (simp_all add: entry_for_def)
  have "kw_word ` set ks = ?c" using spec e(1) by (auto simp: image_image)
  then have "length ks = card ?c"
    using spec distinct_card[of "map kw_word ks"] by simp
  moreover have "extract_top partial_sort ops ex sentence old topN = Some best"
    using jws pm spec by (simp add: extract_top_def best_def ks_def Let_def)
  moreover have "\<forall>k \<in> set best. kw_word k \<in> ?c \<and> k = ?e (kw_word k) \<and>
      (\<forall>t \<in> set (kw_offsets k). substr sentence t (length (kw_word k)) = kw_word k)"
  proof
    fix k
    assume "k \<in> set best"
    then obtain w where w: "w \<in> ?c" "k = ?e w" using t(2) spec by blast
    have "t \<in> set (occurs_at w (strings_of jws) 0) \<Longrightarrow> substr sentence t (length w) = w" for t
      using occurs_text[of t w "strings_of jws"] jws(2) by simp
    then show "kw_word k \<in> ?c \<and> k = ?e (kw_word k) \<and> (\<forall>t \<in> set (kw_offsets k). substr sentence t (length (kw_word k)) = kw_word k)"
      using w e by simp
  qed
  moreover have "\<forall>w \<in> ?c - kw_word ` set best. \<forall>k \<in> set best. score ops ex (strings_of jws) w \<le> kw_weight k"
  proof (intro ballI)
    fix w k
    assume w: "w \<in> ?c - kw_word ` set best" and k: "k \<in> set best"
    then have "?e w \<in> set ks - set best" using spec e(1)[of w] by (metis DiffD1 DiffD2 DiffI imageI)
    then show "score ops ex (strings_of jws) w \<le> kw_weight k" using t(5) k e(2)[of w] by metis
  qed
  ultimately show ?thesis using jws(1) t by (intro exI[of _ jws] exI[of _ best]) simp
qed

text \<open>
  A sentence that cannot be decoded is refused with a message: the keywords of the caller stay as they
  were, and the routines that give strings and pairs add nothing.
\<close>

theorem extract_undecodable:
  assumes "decode_runes sentence = (rs, False)"
  shows "extract_top partial_sort ops ex sentence old topN = Some old \<and>
    extract_strings partial_sort ops ex sentence strs topN = Some strs \<and>
    extract_pairs partial_sort ops ex sentence pairs topN = Some pairs"
proof -
  have "sentence \<noteq> []" using assms by (auto simp: decode_runes_def decode_from.simps)
  then show ?thesis
    using cut_words_undecodable[OF assms, of "mix_ranges (ex_segmenter ex) True" "ex_symbols ex"]
    by (simp add: extract_top_def extract_strings_def extract_pairs_def strings_of_def)
qed

section \<open>A concrete extraction\<close>

definition sort_down :: "nat \<Rightarrow> ('w::linorder) keyword list \<Rightarrow> 'w keyword list" where
  "sort_down n ks = rev (sort_key kw_weight ks)"

lemma sort_down_sorts: "sorts_top sort_down"
proof -
  have "sorted_wrt (\<lambda>x y. kw_weight y \<le> kw_weight x) (sort_down n ks)" for n and ks :: "'a keyword list"
    using sorted_sort_key[of kw_weight ks] by (simp add: sort_down_def sorted_wrt_rev sorted_map)
  then have "sorted_wrt (\<lambda>x y. kw_weight y \<le> kw_weight x) (take n (sort_down n ks) @ drop n (sort_down n ks))"
    for n and ks :: "'a keyword list" by simp
  then show ?thesis
    unfolding sorts_top_def sorted_wrt_append by (simp add: sort_down_def)
qed

definition nat_kw_ops :: "nat kw_ops" where
  "nat_kw_ops = \<lparr>kw_zero = 0, kw_one = 1, kw_add = (+), kw_mult = (*), kw_div_count = (div), kw_atof = digits_val\<rparr>"

definition small_extractor :: "nat extractor" where
  "small_extractor = \<lparr>ex_segmenter = small_segmenter, ex_symbols = fst (reset_separators special_separators),
     idf_map = [''ab'' \<mapsto> 5], idf_average = 1, stop_words = {''12.5''}\<rparr>"

theorem extract_top_best_witness:
  "\<exists>ks. extract_top sort_down nat_kw_ops small_extractor ''ab 12.5'' [] 3 = Some ks \<and> distinct (map kw_word ks) \<and>
    (\<forall>k \<in> set ks. kw_word k \<noteq> ''12.5'')"
proof -
  obtain rs where rs: "decode_runes ''ab 12.5'' = (rs, True)" using sample_decodable by blast
  have ok: "trie_ok (seg_trie (ex_segmenter small_extractor))" using small_segmenter_ok by (simp add: small_extractor_def)
  have stop: "stop_words small_extractor = {''12.5''}" by (simp add: small_extractor_def)
  show ?thesis
    using extract_top_best[OF rs ok sort_down_sorts, of nat_kw_ops "[]" 3] by (fastforce simp: candidates_def skipped_def stop)
qed

theorem extract_undecodable_witness:
  "extract_top sort_down nat_kw_ops small_extractor [CHR 0xFF] [\<lparr>kw_word = ''old'', kw_offsets = [], kw_weight = 7\<rparr>] 3 =
     Some [\<lparr>kw_word = ''old'', kw_offsets = [], kw_weight = 7\<rparr>]"
proof -
  have "decode_runes [CHR 0xFF] = ([], False)"
    by (simp add: decode_runes_def decode_from.simps decode_rune_def byte_high byte_le code_def)
  from extract_undecodable[OF this] show ?thesis by blast
qed

end
