(* ===== verification/TextRank.thy ===== *)
theory TextRank
  imports Keywords Complex_Main
begin

text \<open>
  Extracting keywords by ranking a graph of words (\<open>src/utils/cppjieba/TextRankExtractor.hpp\<close>).  The graph maps a
  word to the weights of its edges; words near each other in the sentence are joined, and the weights of the words
  are improved in place, in the order of the set of words.
\<close>

section \<open>The graph\<close>

record 'w rank_ops =
  r_zero :: 'w
  r_one :: 'w
  r_add :: "'w \<Rightarrow> 'w \<Rightarrow> 'w"
  r_minus :: "'w \<Rightarrow> 'w \<Rightarrow> 'w"
  r_mult :: "'w \<Rightarrow> 'w \<Rightarrow> 'w"
  r_div :: "'w \<Rightarrow> 'w \<Rightarrow> 'w"
  r_of_nat :: "nat \<Rightarrow> 'w"
  r_damping :: 'w

record 'w word_graph =
  graph_edges :: "(string \<times> (string \<times> 'w) list) list"
  node_set :: "string list"

definition new_graph :: "'w word_graph" where
  "new_graph = \<lparr>graph_edges = [], node_set = []\<rparr>"

definition half_edge :: "'w rank_ops \<Rightarrow> string \<Rightarrow> string \<Rightarrow> 'w \<Rightarrow> (string \<times> (string \<times> 'w) list) list \<Rightarrow> (string \<times> (string \<times> 'w) list) list" where
  "half_edge ops a b w g = map_at a (map_at b (\<lambda>v. r_add ops v w) (r_zero ops)) [] g"

definition add_edge :: "'w rank_ops \<Rightarrow> string \<Rightarrow> string \<Rightarrow> 'w \<Rightarrow> 'w word_graph \<Rightarrow> 'w word_graph" where
  "add_edge ops a b w g =
     \<lparr>graph_edges = half_edge ops b a w (half_edge ops a b w (graph_edges g)), node_set = insort_insert b (insort_insert a (node_set g))\<rparr>"

section \<open>Ranking\<close>

definition blank_rank :: "'w rank_ops \<Rightarrow> 'w keyword" where
  "blank_rank ops = \<lparr>kw_word = [], kw_offsets = [], kw_weight = r_zero ops\<rparr>"

definition sum_edges :: "'w rank_ops \<Rightarrow> (string \<times> 'w) list \<Rightarrow> 'w" where
  "sum_edges ops es = foldl (\<lambda>s e. r_add ops s (snd e)) (r_zero ops) es"

text \<open>The loop that names the words, gives them the first weight and sums their edges.\<close>

fun start_ranks ::
    "'w rank_ops \<Rightarrow> 'w \<Rightarrow> (string \<times> (string \<times> 'w) list) list \<Rightarrow> (string \<times> 'w keyword) list \<times> (string \<times> 'w) list \<Rightarrow>
     (string \<times> 'w keyword) list \<times> (string \<times> 'w) list" where
  "start_ranks ops wsdef [] st = st"
| "start_ranks ops wsdef ((n, es) # g) (ws, out_sum) =
     start_ranks ops wsdef g
       (map_at n (\<lambda>k. k\<lparr>kw_word := n, kw_weight := wsdef\<rparr>) (blank_rank ops) ws,
        map_at n (\<lambda>_. sum_edges ops es) (r_zero ops) out_sum)"

text \<open>A map asked for a key it does not have answers zero.\<close>

definition at_or :: "'v \<Rightarrow> (string \<times> 'v) list \<Rightarrow> string \<Rightarrow> 'v" where
  "at_or z m k = (case map_of m k of None \<Rightarrow> z | Some v \<Rightarrow> v)"

definition flow :: "'w rank_ops \<Rightarrow> (string \<times> 'w) list \<Rightarrow> (string \<times> 'w keyword) list \<Rightarrow> (string \<times> 'w) list \<Rightarrow> 'w" where
  "flow ops out_sum ws es =
     foldl (\<lambda>s (b, w). r_add ops s (r_mult ops (r_div ops w (at_or (r_zero ops) out_sum b)) (kw_weight (at_or (blank_rank ops) ws b))))
       (r_zero ops) es"

definition rank_node ::
    "'w rank_ops \<Rightarrow> (string \<times> (string \<times> 'w) list) list \<Rightarrow> (string \<times> 'w) list \<Rightarrow> (string \<times> 'w keyword) list \<Rightarrow> string \<Rightarrow>
     (string \<times> 'w keyword) list" where
  "rank_node ops g out_sum ws n =
     map_at n (\<lambda>k. k\<lparr>kw_weight := r_add ops (r_minus ops (r_one ops) (r_damping ops))
       (r_mult ops (r_damping ops) (flow ops out_sum ws (at_or [] g n)))\<rparr>) (blank_rank ops) ws"

definition rank_pass ::
    "'w rank_ops \<Rightarrow> 'w word_graph \<Rightarrow> (string \<times> 'w) list \<Rightarrow> (string \<times> 'w keyword) list \<Rightarrow> (string \<times> 'w keyword) list" where
  "rank_pass ops g out_sum ws = foldl (rank_node ops (graph_edges g) out_sum) ws (node_set g)"

fun low_high :: "('w::linorder) list \<Rightarrow> 'w \<times> 'w \<Rightarrow> 'w \<times> 'w" where
  "low_high [] st = st"
| "low_high (w # ws) (lo, hi) = low_high ws (if w < lo then w else lo, if w > hi then w else hi)"

definition scale_ranks :: "('w::linorder) rank_ops \<Rightarrow> (string \<times> 'w keyword) list \<Rightarrow> (string \<times> 'w keyword) list" where
  "scale_ranks ops ws =
     (case ws of [] \<Rightarrow> []
      | first # _ \<Rightarrow>
          (case low_high (map (kw_weight \<circ> snd) ws) (kw_weight (snd first), kw_weight (snd first)) of
             (lo, hi) \<Rightarrow>
               let tenth = r_div ops lo (r_of_nat ops 10) in
               map (\<lambda>(n, k). (n, k\<lparr>kw_weight := r_div ops (r_minus ops (kw_weight k) tenth) (r_minus ops hi tenth)\<rparr>)) ws))"

definition rank_words ::
    "('w::linorder) rank_ops \<Rightarrow> 'w word_graph \<Rightarrow> (string \<times> 'w keyword) list \<Rightarrow> nat \<Rightarrow> (string \<times> 'w keyword) list" where
  "rank_words ops g ws rank_time =
     (if length (graph_edges g) = 0 then ws
      else case start_ranks ops (r_div ops (r_one ops) (r_of_nat ops (length (graph_edges g)))) (graph_edges g) (ws, []) of
        (ws, out_sum) \<Rightarrow> scale_ranks ops ((rank_pass ops g out_sum ^^ rank_time) ws))"

section \<open>Extraction\<close>

text \<open>The inner loop joins word \<open>a\<close> with those after it, counting the words it skips.\<close>

function link_words ::
    "'w rank_ops \<Rightarrow> string set \<Rightarrow> string list \<Rightarrow> string \<Rightarrow> nat \<Rightarrow> nat \<Rightarrow> nat \<Rightarrow> 'w word_graph \<Rightarrow> 'w word_graph" where
  "link_words ops stop words a bound j skip g =
     (if j < bound + skip \<and> j < length words
      then if skipped stop (words ! j) then link_words ops stop words a bound (j + 1) (skip + 1) g
        else link_words ops stop words a bound (j + 1) skip (add_edge ops a (words ! j) (r_one ops) g)
      else g)"
  by pat_completeness auto
termination by (relation "measure (\<lambda>(ops, stop, words, a, bound, j, skip, g). length words - j)") auto

declare link_words.simps [simp del]

function graph_words ::
    "'w rank_ops \<Rightarrow> string set \<Rightarrow> string list \<Rightarrow> nat \<Rightarrow> nat \<Rightarrow> nat \<Rightarrow> 'w word_graph \<Rightarrow> (string \<times> 'w keyword) list \<Rightarrow>
     nat \<times> 'w word_graph \<times> (string \<times> 'w keyword) list" where
  "graph_words ops stop words win i pos g m =
     (if i < length words
      then let w = words ! i in
        if skipped stop w then graph_words ops stop words win (i + 1) (pos + length w) g m
        else graph_words ops stop words win (i + 1) (pos + length w) (link_words ops stop words w (i + win) (i + 1) 0 g)
          (map_at w (\<lambda>k. k\<lparr>kw_offsets := kw_offsets k @ [pos]\<rparr>) (blank_rank ops) m)
      else (pos, g, m))"
  by pat_completeness auto
termination by (relation "measure (\<lambda>(ops, stop, words, win, i, pos, g, m). length words - i)") auto

declare graph_words.simps [simp del]

definition extract_ranked ::
    "(nat \<Rightarrow> 'w keyword list \<Rightarrow> 'w keyword list) \<Rightarrow> ('w::linorder) rank_ops \<Rightarrow> 'w segmenter \<Rightarrow> rune set \<Rightarrow> string set \<Rightarrow> string \<Rightarrow>
     'w keyword list \<Rightarrow> nat \<Rightarrow> nat \<Rightarrow> nat \<Rightarrow> 'w keyword list option" where
  "extract_ranked partial_sort ops seg syms stop sentence keywords topN win rank_time =
     (case cut_words (mix_ranges seg True) syms sentence of
        None \<Rightarrow> None
      | Some jws \<Rightarrow>
          (case graph_words ops stop (strings_of jws) win 0 0 new_graph [] of
             (pos, g, wordmap) \<Rightarrow>
               if pos \<noteq> length sentence then Some keywords
               else let keywords = map snd (rank_words ops g wordmap rank_time); topN = min topN (length keywords)
                 in Some (take topN (partial_sort topN keywords))))"

definition extract_ranked_strings ::
    "(nat \<Rightarrow> 'w keyword list \<Rightarrow> 'w keyword list) \<Rightarrow> ('w::linorder) rank_ops \<Rightarrow> 'w segmenter \<Rightarrow> rune set \<Rightarrow> string set \<Rightarrow> string \<Rightarrow>
     string list \<Rightarrow> nat \<Rightarrow> string list option" where
  "extract_ranked_strings partial_sort ops seg syms stop sentence keywords topN =
     map_option (\<lambda>kws. keywords @ map kw_word kws) (extract_ranked partial_sort ops seg syms stop sentence [] topN 5 10)"

definition extract_ranked_pairs ::
    "(nat \<Rightarrow> 'w keyword list \<Rightarrow> 'w keyword list) \<Rightarrow> ('w::linorder) rank_ops \<Rightarrow> 'w segmenter \<Rightarrow> rune set \<Rightarrow> string set \<Rightarrow> string \<Rightarrow>
     (string \<times> 'w) list \<Rightarrow> nat \<Rightarrow> (string \<times> 'w) list option" where
  "extract_ranked_pairs partial_sort ops seg syms stop sentence keywords topN =
     map_option (\<lambda>kws. keywords @ map (\<lambda>k. (kw_word k, kw_weight k)) kws)
       (extract_ranked partial_sort ops seg syms stop sentence [] topN 5 10)"


section \<open>The graph is symmetric\<close>

definition edge_between :: "(string \<times> (string \<times> 'w) list) list \<Rightarrow> string \<Rightarrow> string \<Rightarrow> 'w option" where
  "edge_between E a b = (case map_of E a of None \<Rightarrow> None | Some es \<Rightarrow> map_of es b)"

definition edges_ok :: "(string \<times> (string \<times> 'w) list) list \<Rightarrow> bool" where
  "edges_ok E \<longleftrightarrow> keys_ok E \<and> (\<forall>n es. map_of E n = Some es \<longrightarrow> keys_ok es)"

lemma half_edge_ok: "edges_ok E \<Longrightarrow> edges_ok (half_edge ops a b w E)"
proof -
  assume E: "edges_ok E"
  let ?old = "case map_of E a of None \<Rightarrow> [] | Some es \<Rightarrow> es"
  have "keys_ok ?old" using E by (auto simp: edges_ok_def keys_ok_def split: option.splits)
  then have "keys_ok (map_at b (\<lambda>v. r_add ops v w) (r_zero ops) ?old)" by (rule map_at_ok)
  then show ?thesis using E map_at_ok[of E] by (simp add: edges_ok_def half_edge_def map_at_get)
qed

lemma half_edge_get:
  "edges_ok E \<Longrightarrow> edge_between (half_edge ops a b w E) x y =
     (if x = a \<and> y = b then Some (r_add ops (case edge_between E a b of None \<Rightarrow> r_zero ops | Some v \<Rightarrow> v) w) else edge_between E x y)"
  by (cases "map_of E a") (auto simp: edges_ok_def half_edge_def edge_between_def map_at_get keys_ok_def)

lemma half_edge_keys: "fst ` set (half_edge ops a b w E) = insert a (fst ` set E)"
  using map_at_keys[of a _ _ E] by (simp add: half_edge_def)

definition graph_ok :: "'w word_graph \<Rightarrow> bool" where
  "graph_ok g \<longleftrightarrow> edges_ok (graph_edges g) \<and> node_set g = map fst (graph_edges g) \<and>
     (\<forall>x y. edge_between (graph_edges g) x y = edge_between (graph_edges g) y x)"

lemma new_graph_ok: "graph_ok new_graph"
  by (simp add: graph_ok_def new_graph_def edges_ok_def keys_ok_def edge_between_def)

abbreviation nodes :: "'w word_graph \<Rightarrow> string set" where
  "nodes g \<equiv> fst ` set (graph_edges g)"

lemma add_edge_keys: "nodes (add_edge ops a b w g) = insert a (insert b (nodes g))"
  by (auto simp: add_edge_def half_edge_keys)

lemma add_edge_ok: "graph_ok g \<Longrightarrow> graph_ok (add_edge ops a b w g)"
proof -
  assume g: "graph_ok g"
  let ?E = "graph_edges g" and ?E' = "graph_edges (add_edge ops a b w g)"
  have ok: "edges_ok ?E" "edges_ok (half_edge ops a b w ?E)" using g half_edge_ok by (auto simp: graph_ok_def)
  then have ok': "edges_ok ?E'" by (simp add: add_edge_def half_edge_ok)
  have e: "edge_between ?E' x y =
      (let h = \<lambda>x y. if x = a \<and> y = b then Some (r_add ops (case edge_between ?E a b of None \<Rightarrow> r_zero ops | Some v \<Rightarrow> v) w) else edge_between ?E x y
       in if x = b \<and> y = a then Some (r_add ops (case h b a of None \<Rightarrow> r_zero ops | Some v \<Rightarrow> v) w) else h x y)" for x y
    by (simp add: add_edge_def half_edge_get[OF ok(1)] half_edge_get[OF ok(2)] Let_def)
  have "edge_between ?E' x y = edge_between ?E' y x" for x y
  proof -
    have s: "edge_between ?E x y = edge_between ?E y x" "edge_between ?E a b = edge_between ?E b a"
      using g unfolding graph_ok_def by blast+
    show ?thesis using s unfolding e Let_def
      by (cases "x = a"; cases "y = b"; cases "x = b"; cases "y = a") simp_all
  qed
  moreover have "node_set (add_edge ops a b w g) = map fst ?E'"
  proof (rule sorted_distinct_set_unique)
    have s: "sorted (node_set g)" "distinct (node_set g)" "set (node_set g) = nodes g"
      using g ok(1) by (simp_all add: graph_ok_def edges_ok_def keys_ok_def strict_sorted_iff)
    then show "sorted (node_set (add_edge ops a b w g))" "distinct (node_set (add_edge ops a b w g))"
      by (simp_all add: add_edge_def sorted_insort_insert distinct_insort_insert)
    show "sorted (map fst ?E')" "distinct (map fst ?E')"
      using ok' by (simp_all add: edges_ok_def keys_ok_def strict_sorted_iff)
    show "set (node_set (add_edge ops a b w g)) = set (map fst ?E')"
      using s add_edge_keys[of ops a b w g] by (simp add: add_edge_def set_insort_insert insert_commute)
  qed
  ultimately show ?thesis using ok' by (simp add: graph_ok_def)
qed

text \<open>What an edge leads to is a node, so ranking reads no word the maps do not have.\<close>

lemma edge_to_node: "graph_ok g \<Longrightarrow> edge_between (graph_edges g) a b \<noteq> None \<Longrightarrow> b \<in> nodes g"
  by (metis (no_types, lifting) edge_between_def graph_ok_def map_of_eq_None_iff option.simps(4))

lemma link_words_ok: "graph_ok g \<Longrightarrow> graph_ok (link_words ops stop words a bound j skip g)"
proof (induction ops stop words a bound j skip g rule: link_words.induct)
  case (1 ops stop words a bound j skip g)
  then show ?case by (subst link_words.simps) (auto simp: add_edge_ok)
qed

abbreviation kept :: "string set \<Rightarrow> string list \<Rightarrow> string list" where
  "kept stop ws \<equiv> filter (\<lambda>w. \<not> skipped stop w) ws"

lemma link_words_keys:
  "nodes g \<subseteq> nodes (link_words ops stop words a bound j skip g) \<and>
   nodes (link_words ops stop words a bound j skip g) \<subseteq>
     nodes g \<union> (if kept stop (drop j words) = [] then {} else insert a (set (kept stop (drop j words))))"
proof (induction ops stop words a bound j skip g rule: link_words.induct)
  case (1 ops stop words a bound j skip g)
  show ?case
  proof (cases "j < bound + skip \<and> j < length words")
    case True
    have d: "drop j words = words ! j # drop (j + 1) words" using True by (simp add: Cons_nth_drop_Suc)
    show ?thesis
    proof (cases "skipped stop (words ! j)")
      case s: True
      then show ?thesis using "1.IH"(1)[OF True s] True by (subst (1 2) link_words.simps) (auto simp: d)
    next
      case False
      then show ?thesis using "1.IH"(2)[OF True False] True by (subst (1 2) link_words.simps) (auto simp: d add_edge_keys split: if_splits)
    qed
  next
    case False
    then show ?thesis by (subst (1 2) link_words.simps) auto
  qed
qed

lemma link_words_next:
  "kept stop (drop j words) \<noteq> [] \<Longrightarrow> j < bound + skip \<Longrightarrow>
   {a, hd (kept stop (drop j words))} \<subseteq> nodes (link_words ops stop words a bound j skip g)"
proof (induction ops stop words a bound j skip g rule: link_words.induct)
  case (1 ops stop words a bound j skip g)
  have j: "j < length words" using 1(3) by (cases "j < length words") auto
  have d: "drop j words = words ! j # drop (j + 1) words" using j by (simp add: Cons_nth_drop_Suc)
  have c: "j < bound + skip \<and> j < length words" using j 1(4) by simp
  show ?case
  proof (cases "skipped stop (words ! j)")
    case True
    then show ?thesis using "1.IH"(1)[OF c True] 1(3,4) c by (subst link_words.simps) (simp add: d)
  next
    case False
    then show ?thesis using link_words_keys[of "add_edge ops a (words ! j) (r_one ops) g" ops stop words a bound "j + 1" skip] c
      by (subst link_words.simps) (auto simp: d add_edge_keys)
  qed
qed


definition note_place :: "'w keyword \<Rightarrow> nat \<Rightarrow> 'w keyword" where
  "note_place k pos = k\<lparr>kw_offsets := kw_offsets k @ [pos]\<rparr>"

lemma note_places: "foldl note_place k ts = k\<lparr>kw_offsets := kw_offsets k @ ts\<rparr>"
  by (induction ts arbitrary: k) (simp_all add: note_place_def)

lemma graph_words_ok:
  "graph_words ops stop words win i pos g m = (pos', g', m') \<Longrightarrow> graph_ok g \<Longrightarrow> keys_ok m \<Longrightarrow>
     graph_ok g' \<and> keys_ok m' \<and> pos' = pos + length (concat (drop i words)) \<and>
     map_of m' w = (if w \<in> set (kept stop (drop i words))
       then Some (foldl note_place (case map_of m w of None \<Rightarrow> blank_rank ops | Some k \<Rightarrow> k) (occurs_at w (drop i words) pos))
       else map_of m w)"
proof (induction ops stop words win i pos g m rule: graph_words.induct)
  case (1 ops stop words win i pos g m)
  show ?case
  proof (cases "i < length words")
    case True
    let ?x = "words ! i"
    have d: "drop i words = ?x # drop (i + 1) words" using True by (simp add: Cons_nth_drop_Suc)
    show ?thesis
    proof (cases "skipped stop ?x")
      case s: True
      have "graph_words ops stop words win (i + 1) (pos + length ?x) g m = (pos', g', m')"
        using 1(3) True s by (simp add: graph_words.simps[of ops stop words win i] Let_def)
      from "1.IH"(1)[OF True refl s this 1(4,5)] show ?thesis using s by (auto simp: d)
    next
      case False
      let ?g = "link_words ops stop words ?x (i + win) (i + 1) 0 g"
      let ?m = "map_at ?x (\<lambda>k. k\<lparr>kw_offsets := kw_offsets k @ [pos]\<rparr>) (blank_rank ops) m"
      have "graph_words ops stop words win (i + 1) (pos + length ?x) ?g ?m = (pos', g', m')"
        using 1(3) True False by (simp add: graph_words.simps[of ops stop words win i] Let_def)
      note IH = "1.IH"(2)[OF True refl False this link_words_ok[OF 1(4)] map_at_ok[OF 1(5)]]
      show ?thesis
      proof (cases "w = ?x")
        case w: True
        then have "map_of ?m w = Some (note_place (case map_of m w of None \<Rightarrow> blank_rank ops | Some k \<Rightarrow> k) pos)"
          using 1(5) by (simp add: map_at_get note_place_def)
        then show ?thesis
          using IH w False occurs_none[of w "drop (i + 1) words"]
          by (cases "w \<in> set (drop (i + 1) words)") (auto simp: d)
      next
        case w: False
        then have "map_of ?m w = map_of m w" using 1(5) by (simp add: map_at_get)
        then show ?thesis using IH w False by (auto simp: d)
      qed
    qed
  next
    case False
    then show ?thesis using 1(3-) by (simp add: graph_words.simps[of ops stop words win i])
  qed
qed

lemma graph_words_nodes:
  "graph_words ops stop words win i pos g m = (pos', g', m') \<Longrightarrow> 2 \<le> win \<Longrightarrow>
     nodes g' = nodes g \<union> (if 2 \<le> length (kept stop (drop i words)) then set (kept stop (drop i words)) else {})"
proof (induction ops stop words win i pos g m rule: graph_words.induct)
  case (1 ops stop words win i pos g m)
  show ?case
  proof (cases "i < length words")
    case True
    let ?x = "words ! i" and ?c = "kept stop (drop (i + 1) words)"
    have d: "drop i words = ?x # drop (i + 1) words" using True by (simp add: Cons_nth_drop_Suc)
    show ?thesis
    proof (cases "skipped stop ?x")
      case s: True
      have "graph_words ops stop words win (i + 1) (pos + length ?x) g m = (pos', g', m')"
        using 1(3) True s by (simp add: graph_words.simps[of ops stop words win i] Let_def)
      from "1.IH"(1)[OF True refl s this 1(4)] show ?thesis using s by (simp add: d)
    next
      case False
      let ?g = "link_words ops stop words ?x (i + win) (i + 1) 0 g"
      have "graph_words ops stop words win (i + 1) (pos + length ?x) ?g
        (map_at ?x (\<lambda>k. k\<lparr>kw_offsets := kw_offsets k @ [pos]\<rparr>) (blank_rank ops) m) = (pos', g', m')"
        using 1(3) True False by (simp add: graph_words.simps[of ops stop words win i] Let_def)
      note IH = "1.IH"(2)[OF True refl False this 1(4)]
      note k = link_words_keys[of g ops stop words ?x "i + win" "i + 1" 0]
      show ?thesis
      proof (cases ?c)
        case Nil
        then show ?thesis using IH k False by (auto simp: d)
      next
        case (Cons c cs)
        then have "{?x, c} \<subseteq> nodes ?g" using link_words_next[of stop "i + 1" words "i + win" 0 ?x ops g] 1(4) by simp
        then show ?thesis using IH k False Cons by (cases cs) (auto simp: d)
      qed
    qed
  next
    case False
    then show ?thesis using 1(3) by (simp add: graph_words.simps[of ops stop words win i])
  qed
qed


section \<open>Ranking changes weights only\<close>

lemma map_at_there:
  "keys_ok m \<Longrightarrow> k \<in> fst ` set m \<Longrightarrow> map_at k f z m = map (\<lambda>(n, v). (n, if n = k then f v else v)) m"
proof (induction m)
  case (Cons e m)
  obtain k' v where e: "e = (k', v)" by (cases e)
  have m: "keys_ok m" and lt: "n \<in> fst ` set m \<Longrightarrow> k' < n" for n using Cons.prems(1) by (auto simp: keys_ok_def e)
  show ?case
  proof (cases "k = k'")
    case True
    then have "map (\<lambda>(n, v). (n, if n = k then f v else v)) m = m"
      using lt by (intro map_idI) (force split: prod.splits)
    then show ?thesis using True by (simp add: e)
  next
    case False
    then have "k \<in> fst ` set m" using Cons.prems(2) by (simp add: e)
    then show ?thesis using Cons.IH[OF m] False lt[of k] by (auto simp: e)
  qed
qed simp

definition outline :: "(string \<times> 'w keyword) list \<Rightarrow> (string \<times> string \<times> nat list) list" where
  "outline ws = map (\<lambda>(n, k). (n, kw_word k, kw_offsets k)) ws"

lemma outline_fst: "map fst (outline ws) = map fst ws"
  by (induction ws) (auto simp: outline_def)

lemma outline_keys: "outline ws = outline ws' \<Longrightarrow> map fst ws = map fst ws'"
  by (metis outline_fst)

lemma keys_ok_cong: "map fst m = map fst m' \<Longrightarrow> keys_ok m = keys_ok m'"
  by (simp add: keys_ok_def)

definition named :: "string set \<Rightarrow> (string \<times> string \<times> nat list) list \<Rightarrow> (string \<times> string \<times> nat list) list" where
  "named ns os = map (\<lambda>(n, w, ts). (n, if n \<in> ns then n else w, ts)) os"

lemma start_ranks_outline:
  "keys_ok ws \<Longrightarrow> fst ` set E \<subseteq> fst ` set ws \<Longrightarrow> outline (fst (start_ranks ops d E (ws, out))) = named (fst ` set E) (outline ws)"
proof (induction ops d E "(ws, out)" arbitrary: ws out rule: start_ranks.induct)
  case (1 ops d)
  then show ?case by (simp add: named_def outline_def case_prod_beta)
next
  case (2 ops d n es E ws out)
  let ?ws = "map_at n (\<lambda>k. k\<lparr>kw_word := n, kw_weight := d\<rparr>) (blank_rank ops) ws"
  have e: "?ws = map (\<lambda>(n', k). (n', if n' = n then k\<lparr>kw_word := n, kw_weight := d\<rparr> else k)) ws"
    using 2 by (intro map_at_there) auto
  have "map fst ?ws = map fst ws" unfolding e by (simp add: case_prod_beta)
  then have "keys_ok ?ws" "fst ` set E \<subseteq> fst ` set ?ws" using 2 keys_ok_cong[of ?ws ws] by (simp_all flip: set_map)
  from "2.hyps"[OF this] show ?case
    by (auto simp: e named_def outline_def case_prod_beta)
qed

lemma rank_node_outline: "keys_ok ws \<Longrightarrow> n \<in> fst ` set ws \<Longrightarrow> outline (rank_node ops E out ws n) = outline ws"
  by (auto simp: rank_node_def map_at_there outline_def)

lemma rank_nodes_outline:
  "keys_ok ws \<Longrightarrow> set ns \<subseteq> fst ` set ws \<Longrightarrow> outline (foldl (rank_node ops E out) ws ns) = outline ws"
proof (induction ns arbitrary: ws)
  case (Cons n ns)
  have o: "outline (rank_node ops E out ws n) = outline ws" using Cons.prems by (intro rank_node_outline) auto
  note f = outline_keys[OF o]
  have "keys_ok (rank_node ops E out ws n)" "set ns \<subseteq> fst ` set (rank_node ops E out ws n)"
    using Cons.prems keys_ok_cong[OF f] f by (simp_all flip: set_map)
  from Cons.IH[OF this] o show ?case by simp
qed simp

lemma rank_passes_outline:
  assumes "keys_ok ws" "set (node_set g) \<subseteq> fst ` set ws"
  shows "outline ((rank_pass ops g out ^^ t) ws) = outline ws"
proof (induction t)
  case (Suc t)
  let ?ws = "(rank_pass ops g out ^^ t) ws"
  note f = outline_keys[OF Suc]
  have "keys_ok ?ws" "set (node_set g) \<subseteq> fst ` set ?ws" using assms keys_ok_cong[OF f] f by (simp_all flip: set_map)
  then have "outline (rank_pass ops g out ?ws) = outline ?ws" unfolding rank_pass_def by (rule rank_nodes_outline)
  with Suc show ?case by simp
qed simp

lemma scale_ranks_outline: "outline (scale_ranks ops ws) = outline ws"
  by (auto simp: scale_ranks_def outline_def Let_def case_prod_beta split: list.split)

lemma rank_words_outline:
  assumes g: "graph_ok g" and ws: "keys_ok ws" "nodes g \<subseteq> fst ` set ws"
  shows "outline (rank_words ops g ws t) = named (nodes g) (outline ws)"
proof (cases "graph_edges g = []")
  case True
  then show ?thesis by (simp add: rank_words_def named_def outline_def case_prod_beta)
next
  case False
  define d where "d = r_div ops (r_one ops) (r_of_nat ops (length (graph_edges g)))"
  obtain ws' out where st: "start_ranks ops d (graph_edges g) (ws, []) = (ws', out)" by fastforce
  have o: "outline ws' = named (nodes g) (outline ws)"
    using start_ranks_outline[OF ws, of ops d "[]"] by (simp add: st)
  have f: "map fst ws' = map fst ws"
    using outline_fst[of ws'] outline_fst[of ws] unfolding o by (simp add: named_def case_prod_beta o_def)
  have "keys_ok ws'" "set (node_set g) \<subseteq> fst ` set ws'"
    using ws g keys_ok_cong[OF f] f by (simp_all add: graph_ok_def flip: set_map)
  from rank_passes_outline[OF this] o show ?thesis
    using False by (simp add: rank_words_def st[unfolded d_def] scale_ranks_outline)
qed


section \<open>What is extracted\<close>

lemma ranked_entries:
  assumes gw: "graph_words ops stop words win 0 0 new_graph [] = (pos, g, m)" and win: "2 \<le> win" and R_def: "R = rank_words ops g m t"
  defines "W \<equiv> kept stop words"
  shows "pos = length (concat words)" and "distinct (map fst R)" and "fst ` set R = set W"
    and "(n, k) \<in> set R \<Longrightarrow> kw_offsets k = occurs_at n words 0 \<and> kw_word k = (if 2 \<le> length W then n else [])"
proof -
  have k0: "keys_ok ([] :: (string \<times> 'a keyword) list)" by (simp add: keys_ok_def)
  note spec = graph_words_ok[OF gw new_graph_ok k0]
  have g: "graph_ok g" and m: "keys_ok m" and mo: "map_of m w = (if w \<in> set W
      then Some (foldl note_place (blank_rank ops) (occurs_at w words 0)) else None)" for w
    using spec[of w] by (simp_all add: W_def)
  have keys: "fst ` set m = set W"
    using mo by (auto simp: dom_map_of_conv_image_fst[symmetric] dom_def)
  have nodes: "nodes g = (if 2 \<le> length W then set W else {})"
    using graph_words_nodes[OF gw win] by (simp add: new_graph_def W_def)
  have o: "outline R = named (nodes g) (outline m)"
    unfolding R_def using g m by (rule rank_words_outline) (simp add: nodes keys)
  have f: "map fst R = map fst m"
    using outline_fst[of R] outline_fst[of m] unfolding o by (simp add: named_def case_prod_beta o_def)
  show "pos = length (concat words)" using spec by simp
  show "distinct (map fst R)" unfolding f by (rule keys_distinct[OF m])
  show "fst ` set R = set W" using f keys by (metis set_map)
  show "kw_offsets k = occurs_at n words 0 \<and> kw_word k = (if 2 \<le> length W then n else [])" if "(n, k) \<in> set R"
  proof -
    have "(n, kw_word k, kw_offsets k) \<in> set (outline R)" using that by (force simp: outline_def)
    then obtain k' where k': "(n, k') \<in> set m" "kw_offsets k = kw_offsets k'" "kw_word k = (if n \<in> nodes g then n else kw_word k')"
      unfolding o by (auto simp: named_def outline_def)
    then have "k' = foldl note_place (blank_rank ops) (occurs_at n words 0)" "n \<in> set W"
      using mo[of n] keys_distinct[OF m] by (auto split: if_splits)
    then show ?thesis using k' by (simp add: nodes note_places blank_rank_def)
  qed
qed


text \<open>
  A sentence with a single keyword gives the empty word: only ranking fills in the word of an entry, and it
  returns at once when the graph has no edge.
\<close>
theorem single_keyword_nameless:
  assumes "decode_runes sentence = (rs, True)" "trie_ok (seg_trie seg)" "sorts_top partial_sort" "0 < topN"
    "cut_words (mix_ranges seg True) syms sentence = Some jws" "kept stop (strings_of jws) = [w]"
  shows "extract_ranked_strings partial_sort ops seg syms stop sentence keywords topN = Some (keywords @ [[]])"
proof -
  obtain pos g m where gw: "graph_words ops stop (strings_of jws) 5 0 0 new_graph [] = (pos, g, m)"
    using prod_cases3 by blast
  define all where "all = rank_words ops g m 10"
  have c: "concat (strings_of jws) = sentence" using mix_segment_covers[OF assms(1,2), of True syms] assms(5) by simp
  have five: "2 \<le> (5 :: nat)" by simp
  note R = ranked_entries[OF gw five all_def, unfolded assms(6)]
  have "length (map fst all) = card {w}" using R(2,3) distinct_card[of "map fst all"] by simp
  then obtain n k where all: "all = [(n, k)]" by (cases all; cases "tl all") auto
  then have "kw_word k = []" using R(4)[of n k] by simp
  moreover have "mset (partial_sort 1 [k]) = mset [k]" using assms(3) unfolding sorts_top_def by (metis One_nat_def length_Cons order.refl list.size(3))
  then have "partial_sort 1 [k] = [k]" by simp
  ultimately show ?thesis
    using assms(4,5) gw R(1) c all by (simp add: extract_ranked_strings_def extract_ranked_def Let_def all_def)
qed

definition nat_rank_ops :: "nat rank_ops" where
  "nat_rank_ops = \<lparr>r_zero = 0, r_one = 1, r_add = (+), r_minus = (-), r_mult = (*), r_div = (div), r_of_nat = id, r_damping = 0\<rparr>"


lemma ab_cut: "map_option strings_of (cut_words (mix_ranges small_segmenter True) {} ''ab'') = Some [''ab'']"
  by code_simp

theorem single_keyword_nameless_witness:
  "extract_ranked_strings sort_down nat_rank_ops small_segmenter {} {} ''ab'' [''x''] 3 = Some [''x'', []]"
proof -
  have "concat (map utf8 [97, 98]) = ''ab''" by code_simp
  then obtain rs where rs: "decode_runes ''ab'' = (rs, True)" using utf8_decodable[of "[97, 98]"] by auto
  obtain jws where jws: "cut_words (mix_ranges small_segmenter True) {} ''ab'' = Some jws" "strings_of jws = [''ab'']"
    using ab_cut by blast
  have "\<not> is_single_word ''ab''" by code_simp
  then have "kept {} (strings_of jws) = [''ab'']" by (simp add: jws(2) skipped_def)
  from single_keyword_nameless[OF rs small_segmenter_ok sort_down_sorts _ jws(1) this, of 3 nat_rank_ops "[''x'']"]
  show ?thesis by simp
qed


text \<open>
  The graph of a sentence is symmetric, its set of nodes is that of its keys in order, and every edge leads to a
  node, so that ranking finds each word it asks for.
\<close>
theorem word_graph_symmetric:
  "case graph_words ops stop words win 0 0 new_graph [] of (pos, g, m) \<Rightarrow>
     sorted_wrt (<) (node_set g) \<and> set (node_set g) = nodes g \<and>
     (\<forall>a b. edge_between (graph_edges g) a b = edge_between (graph_edges g) b a) \<and>
     {b. \<exists>a. edge_between (graph_edges g) a b \<noteq> None} \<subseteq> nodes g"
proof -
  obtain pos g m where gw: "graph_words ops stop words win 0 0 new_graph [] = (pos, g, m)" using prod_cases3 by blast
  have "graph_ok g"
    using graph_words_ok[OF gw new_graph_ok] by (simp add: keys_ok_def)
  moreover from this have "{b. \<exists>a. edge_between (graph_edges g) a b \<noteq> None} \<subseteq> nodes g"
    using edge_to_node by blast
  ultimately show ?thesis unfolding gw prod.case by (simp add: graph_ok_def edges_ok_def keys_ok_def)
qed

section \<open>The ranks in exact arithmetic\<close>

definition field_ops :: "'w \<Rightarrow> ('w::linordered_field) rank_ops" where
  "field_ops d = \<lparr>r_zero = 0, r_one = 1, r_add = (+), r_minus = (-), r_mult = (*), r_div = (/), r_of_nat = of_nat, r_damping = d\<rparr>"

lemma field_ops_simps [simp]:
  "r_zero (field_ops d) = 0" "r_one (field_ops d) = 1" "r_add (field_ops d) = (+)" "r_minus (field_ops d) = (-)"
  "r_mult (field_ops d) = (*)" "r_div (field_ops d) = (/)" "r_of_nat (field_ops d) = of_nat" "r_damping (field_ops d) = d"
  by (simp_all add: field_ops_def)

lemma map_at_all:
  "(\<And>v. P v \<Longrightarrow> P (f v)) \<Longrightarrow> P (f z) \<Longrightarrow> \<forall>v \<in> snd ` set m. P v \<Longrightarrow> \<forall>v \<in> snd ` set (map_at k f z m). P v"
  by (induction k f z m rule: map_at.induct) auto

lemma at_or_pos: "\<forall>v \<in> snd ` set m. 0 \<le> v \<Longrightarrow> 0 \<le> z \<Longrightarrow> 0 \<le> at_or z m (k :: string)" for z :: "'w::linordered_field"
  by (force simp: at_or_def dest: map_of_SomeD split: option.split)

definition positive :: "(string \<times> ('w::linordered_field) keyword) list \<Rightarrow> bool" where
  "positive ws \<longleftrightarrow> (\<forall>k \<in> snd ` set ws. 0 < kw_weight k)"

lemma flow_nonneg:
  assumes "\<forall>v \<in> snd ` set out. 0 \<le> v" "positive ws" "\<forall>w \<in> snd ` set es. 0 \<le> w"
  shows "0 \<le> flow (field_ops d) out ws es"
proof -
  have k: "0 \<le> kw_weight (at_or (blank_rank (field_ops d)) ws b)" for b
    using assms(2)
    by (cases "map_of ws b") (auto simp: at_or_def positive_def blank_rank_def intro: less_imp_le dest!: map_of_SomeD)
  have "0 \<le> s \<Longrightarrow> 0 \<le> foldl (\<lambda>s (b, w). r_add (field_ops d) s (r_mult (field_ops d) (r_div (field_ops d) w (at_or (r_zero (field_ops d)) out b))
      (kw_weight (at_or (blank_rank (field_ops d)) ws b)))) s es" for s
    using assms(3)
  proof (induction es arbitrary: s)
    case (Cons e es)
    then show ?case using k at_or_pos[OF assms(1) order.refl] by (cases e) (simp add: add_nonneg_nonneg)
  qed simp
  then show ?thesis by (simp add: flow_def)
qed

lemma rank_nodes_positive:
  assumes "0 \<le> d" "d < 1" "\<forall>v \<in> snd ` set out. 0 \<le> v" "\<forall>es \<in> snd ` set E. \<forall>w \<in> snd ` set es. 0 \<le> w"
  shows "positive ws \<Longrightarrow> positive (foldl (rank_node (field_ops d) E out) ws ns)"
proof (induction ns arbitrary: ws)
  case (Cons n ns)
  have "\<forall>w \<in> snd ` set (at_or [] E n). 0 \<le> w"
  proof (cases "map_of E n")
    case (Some es)
    then show ?thesis using assms(4) map_of_SomeD[OF Some] by (force simp: at_or_def)
  qed (simp add: at_or_def)
  then have "0 < (1 - d) + d * flow (field_ops d) out ws (at_or [] E n)"
    using flow_nonneg[OF assms(3) Cons.prems] assms(1,2) by (intro add_pos_nonneg mult_nonneg_nonneg) auto
  then have "positive (rank_node (field_ops d) E out ws n)"
    using Cons.prems unfolding positive_def rank_node_def by (intro map_at_all) simp_all
  then show ?case using Cons.IH by simp
qed simp

lemma low_high_fold: "low_high xs (lo, hi) = (fold min xs lo, fold max xs hi)"
  by (induction xs arbitrary: lo hi) (auto simp: min_def max_def not_less)

lemma low_high_bounds:
  "case low_high (x # xs) (x, x) of (lo, hi) \<Rightarrow> lo \<in> set (x # xs) \<and> hi \<in> set (x # xs) \<and> (\<forall>y \<in> set (x # xs). lo \<le> y \<and> y \<le> hi)"
proof -
  have "fold min (x # xs) x = Min (set (x # xs))" "fold max (x # xs) x = Max (set (x # xs))"
    by (simp_all only: Min.set_eq_fold Max.set_eq_fold fold.simps o_apply min.idem max.idem)
  then show ?thesis
    using Min_in[of "set (x # xs)"] Max_in[of "set (x # xs)"] Min_le[of "set (x # xs)"] Max_ge[of "set (x # xs)"]
    unfolding low_high_fold by (simp only: prod.case) blast
qed

definition edges_nonneg :: "(string \<times> (string \<times> 'w::linordered_field) list) list \<Rightarrow> bool" where
  "edges_nonneg E \<longleftrightarrow> (\<forall>es \<in> snd ` set E. \<forall>w \<in> snd ` set es. 0 \<le> w)"

lemma half_edge_nonneg: "0 \<le> w \<Longrightarrow> edges_nonneg E \<Longrightarrow> edges_nonneg (half_edge (field_ops d) a b w E)"
  unfolding edges_nonneg_def half_edge_def
  by (intro map_at_all[where P = "\<lambda>es. \<forall>w \<in> snd ` set es. 0 \<le> w"] map_at_all[where P = "\<lambda>w. 0 \<le> w"]) auto

lemma link_words_inv:
  "(\<And>a b g. I g \<Longrightarrow> I (add_edge ops a b (r_one ops) g)) \<Longrightarrow> I g \<Longrightarrow> I (link_words ops stop words a bound j skip g)"
proof (induction ops stop words a bound j skip g rule: link_words.induct)
  case (1 ops stop words a bound j skip g)
  then show ?case by (subst link_words.simps) simp
qed

lemma graph_words_inv:
  "(\<And>a b g. I g \<Longrightarrow> I (add_edge ops a b (r_one ops) g)) \<Longrightarrow> I g \<Longrightarrow>
    I (fst (snd (graph_words ops stop words win i pos g m)))"
proof (induction ops stop words win i pos g m rule: graph_words.induct)
  case (1 ops stop words win i pos g m)
  have "I (link_words ops stop words (words ! i) (i + win) (i + 1) 0 g)" using 1(3,4) by (rule link_words_inv)
  then show ?case using 1 by (subst graph_words.simps) (simp add: Let_def)
qed

lemma start_ranks_positive:
  "start_ranks (field_ops d) wsd E (ws, out) = (ws', out') \<Longrightarrow> keys_ok ws \<Longrightarrow> fst ` set E \<subseteq> fst ` set ws \<Longrightarrow> 0 < wsd \<Longrightarrow>
     edges_nonneg E \<Longrightarrow> \<forall>(n, k) \<in> set ws. n \<notin> fst ` set E \<longrightarrow> 0 < kw_weight k \<Longrightarrow> \<forall>v \<in> snd ` set out. 0 \<le> v \<Longrightarrow>
     positive ws' \<and> (\<forall>v \<in> snd ` set out'. 0 \<le> v)"
proof (induction E arbitrary: ws out)
  case Nil
  then show ?case by (auto simp: positive_def)
next
  case (Cons e E)
  obtain n es where e: "e = (n, es)" by (cases e)
  let ?ws = "map_at n (\<lambda>k. k\<lparr>kw_word := n, kw_weight := wsd\<rparr>) (blank_rank (field_ops d)) ws"
  let ?out = "map_at n (\<lambda>_. sum_edges (field_ops d) es) (r_zero (field_ops d)) out"
  have m: "?ws = map (\<lambda>(n', k). (n', if n' = n then k\<lparr>kw_word := n, kw_weight := wsd\<rparr> else k)) ws"
    using Cons.prems(2,3) by (intro map_at_there) (simp_all add: e)
  have f: "map fst ?ws = map fst ws" unfolding m by (simp add: case_prod_beta)
  have s: "0 \<le> sum_edges (field_ops d) es"
  proof -
    have "\<forall>w \<in> snd ` set es. 0 \<le> w" using Cons.prems(5) by (simp add: edges_nonneg_def e)
    then have "0 \<le> s \<Longrightarrow> 0 \<le> foldl (\<lambda>s e. r_add (field_ops d) s (snd e)) s es" for s by (induction es arbitrary: s) auto
    then show ?thesis by (simp add: sum_edges_def)
  qed
  show ?case
  proof (rule Cons.IH)
    show "start_ranks (field_ops d) wsd E (?ws, ?out) = (ws', out')" using Cons.prems(1) by (simp add: e)
    show "keys_ok ?ws" "fst ` set E \<subseteq> fst ` set ?ws"
      using Cons.prems(2,3) keys_ok_cong[OF f] f by (simp_all add: e flip: set_map)
    show "edges_nonneg E" using Cons.prems(5) by (simp add: edges_nonneg_def)
    show "\<forall>(n', k) \<in> set ?ws. n' \<notin> fst ` set E \<longrightarrow> 0 < kw_weight k" using Cons.prems(4,6) unfolding m by (auto simp: e)
    show "\<forall>v \<in> snd ` set ?out. 0 \<le> v" using Cons.prems(7) s by (intro map_at_all) simp_all
  qed (rule Cons.prems(4))
qed

lemma scale_ranks_bounds:
  assumes "positive ws" "ws \<noteq> []"
  shows "\<forall>k \<in> snd ` set (scale_ranks (field_ops d) ws). 0 < kw_weight k \<and> kw_weight k \<le> 1"
    and "\<exists>k \<in> snd ` set (scale_ranks (field_ops d) ws). kw_weight k = 1"
proof -
  obtain n k0 ws' where ws: "ws = (n, k0) # ws'" using assms(2) by (cases ws) auto
  let ?xs = "map (kw_weight \<circ> snd) ws"
  obtain lo hi where lh: "low_high ?xs (kw_weight k0, kw_weight k0) = (lo, hi)" by fastforce
  have b: "lo \<in> set ?xs" "hi \<in> set ?xs" "\<And>y. y \<in> set ?xs \<Longrightarrow> lo \<le> y \<and> y \<le> hi"
    using low_high_bounds[of "kw_weight k0" "map (kw_weight \<circ> snd) ws'"] lh by (auto simp: ws)
  define f where "f x = (x - lo / 10) / (hi - lo / 10)" for x
  have lo: "0 < lo" "lo \<le> hi" using b assms(1) by (auto simp: positive_def)
  have sc: "scale_ranks (field_ops d) ws = map (\<lambda>(n, k). (n, k\<lparr>kw_weight := f (kw_weight k)\<rparr>)) ws"
    using lh by (simp add: scale_ranks_def ws Let_def f_def del: low_high.simps)
  have den: "0 < hi - lo / 10" using lo by (simp add: field_simps)
  have "0 < f x \<and> f x \<le> 1" if "x \<in> set ?xs" for x
    using b(3)[OF that] lo den by (simp add: f_def field_simps)
  then show "\<forall>k \<in> snd ` set (scale_ranks (field_ops d) ws). 0 < kw_weight k \<and> kw_weight k \<le> 1"
    unfolding sc by force
  have "f hi = 1" using den by (simp add: f_def)
  then show "\<exists>k \<in> snd ` set (scale_ranks (field_ops d) ws). kw_weight k = 1"
    using b(2) unfolding sc by force
qed

text \<open>
  In exact arithmetic every rank is above zero and at most one, and the best word has exactly one, whatever the
  number of passes: nothing is divided by zero and no rank is negative.
\<close>
theorem ranks_scaled:
  fixes d :: "'w::linordered_field"
  assumes "0 \<le> d" "d < 1" "2 \<le> win" "2 \<le> length (kept stop words)"
  shows "case graph_words (field_ops d) stop words win 0 0 new_graph [] of (pos, g, m) \<Rightarrow>
    (let R = rank_words (field_ops d) g m t in
      (\<forall>k \<in> snd ` set R. 0 < kw_weight k \<and> kw_weight k \<le> 1) \<and> (\<exists>k \<in> snd ` set R. kw_weight k = 1))"
proof -
  obtain pos g m where gw: "graph_words (field_ops d) stop words win 0 0 new_graph [] = (pos, g, m)" using prod_cases3 by blast
  have k0: "keys_ok ([] :: (string \<times> 'w keyword) list)" by (simp add: keys_ok_def)
  note ok = graph_words_ok[OF gw new_graph_ok k0]
  have m: "keys_ok m" and mo: "\<And>w. (map_of m w \<noteq> None) = (w \<in> set (kept stop words))" using ok by auto
  have nodes: "nodes g = set (kept stop words)"
    using graph_words_nodes[OF gw assms(3)] assms(4) by (simp add: new_graph_def)
  have keys: "fst ` set m = nodes g"
    using mo unfolding nodes by (auto simp: dom_map_of_conv_image_fst[symmetric] dom_def)
  have nn: "edges_nonneg (graph_edges g)"
    using graph_words_inv[of "\<lambda>g. edges_nonneg (graph_edges g)" "field_ops d" new_graph stop words win 0 0 "[]"]
    unfolding gw fst_conv snd_conv
    by (simp add: add_edge_def half_edge_nonneg) (simp add: new_graph_def edges_nonneg_def)
  have ne: "graph_edges g \<noteq> []" using nodes assms(4) by auto
  define wsd where "wsd = (1 :: 'w) / of_nat (length (graph_edges g))"
  have "0 < wsd" using ne by (simp add: wsd_def)
  obtain ws out where st: "start_ranks (field_ops d) wsd (graph_edges g) (m, []) = (ws, out)" by fastforce
  have p: "positive ws \<and> (\<forall>v \<in> snd ` set out. 0 \<le> v)"
    by (rule start_ranks_positive[OF st m _ \<open>0 < wsd\<close> nn]) (use keys in force)+
  have ps: "positive ((rank_pass (field_ops d) g out ^^ t) ws)"
    by (induction t) (use p rank_nodes_positive[OF assms(1,2)] nn in \<open>simp_all add: rank_pass_def edges_nonneg_def\<close>)
  have R: "rank_words (field_ops d) g m t = scale_ranks (field_ops d) ((rank_pass (field_ops d) g out ^^ t) ws)"
    using st ne by (simp add: rank_words_def wsd_def)
  have "m \<noteq> []" using keys ne by auto
  moreover have "outline (rank_words (field_ops d) g m t) = named (nodes g) (outline m)"
    using ok m keys by (intro rank_words_outline) auto
  ultimately have "rank_words (field_ops d) g m t \<noteq> []" by (auto simp: named_def outline_def)
  then have "(rank_pass (field_ops d) g out ^^ t) ws \<noteq> []" unfolding R by (auto simp: scale_ranks_def)
  from scale_ranks_bounds[OF ps this] show ?thesis by (simp add: gw R)
qed

theorem ranks_scaled_witness:
  "case graph_words (field_ops (17 / 20 :: rat)) {} [''ab'', ''cd'', ''ab''] 5 0 0 new_graph [] of (pos, g, m) \<Rightarrow>
    (let R = rank_words (field_ops (17 / 20)) g m 10 in
      (\<forall>k \<in> snd ` set R. 0 < kw_weight k \<and> kw_weight k \<le> 1) \<and> (\<exists>k \<in> snd ` set R. kw_weight k = 1))"
proof -
  have "\<not> is_single_word ''ab''" "\<not> is_single_word ''cd''" by code_simp+
  then have "2 \<le> length (kept {} [''ab'', ''cd'', ''ab''])" by (simp add: skipped_def)
  then show ?thesis by (intro ranks_scaled) simp_all
qed

end
