(* ===== verification/LocalVector.thy ===== *)
theory LocalVector
  imports Main
begin

text \<open>
  The vector that holds runes and edges (\<open>src/utils/cppjieba/limonp/LocalVector.hpp\<close>): up to sixteen elements
  are kept in the object, more in a block on the heap.  \<open>ptr_\<close> is \<open>buffer_\<close> when \<open>heap_block\<close> is \<open>None\<close>.  The cells from
  \<open>size_\<close> on are not initialised; \<open>junk\<close> gives what they hold in a fresh block.  Allocation succeeds (the code
  asserts it).  The rest of the development takes such a vector as the list of its elements, which this theory
  justifies.
\<close>

section \<open>The vector\<close>

definition LOCAL_VECTOR_BUFFER_SIZE :: nat where "LOCAL_VECTOR_BUFFER_SIZE = 16"

record 'a local_vector =
  buffer :: "'a list"
  heap_block :: "'a list option"
  vec_size :: nat
  vec_capacity :: nat

definition vec_init :: "'a local_vector \<Rightarrow> 'a local_vector" where
  "vec_init v = v\<lparr>heap_block := None, vec_size := 0, vec_capacity := LOCAL_VECTOR_BUFFER_SIZE\<rparr>"

definition ptr_cells :: "'a local_vector \<Rightarrow> 'a list" where
  "ptr_cells v = (case heap_block v of None \<Rightarrow> buffer v | Some h \<Rightarrow> h)"

definition set_ptr_cells :: "'a list \<Rightarrow> 'a local_vector \<Rightarrow> 'a local_vector" where
  "set_ptr_cells xs v = (case heap_block v of None \<Rightarrow> v\<lparr>buffer := xs\<rparr> | Some h \<Rightarrow> v\<lparr>heap_block := Some xs\<rparr>)"

text \<open>An element the vector has no cell for is \<open>None\<close>.\<close>

definition vec_at :: "'a local_vector \<Rightarrow> nat \<Rightarrow> 'a option" where
  "vec_at v i = (if i < length (ptr_cells v) then Some (ptr_cells v ! i) else None)"

definition vec_reserve :: "(nat \<Rightarrow> 'a) \<Rightarrow> nat \<Rightarrow> 'a local_vector \<Rightarrow> 'a local_vector" where
  "vec_reserve junk n v =
     (if n \<le> vec_capacity v then v
      else v\<lparr>heap_block := Some (take (vec_capacity v) (ptr_cells v) @ map junk [vec_capacity v..<n]), vec_capacity := n\<rparr>)"

definition vec_push_back :: "(nat \<Rightarrow> 'a) \<Rightarrow> 'a \<Rightarrow> 'a local_vector \<Rightarrow> 'a local_vector" where
  "vec_push_back junk t v =
     (let v = (if vec_size v = vec_capacity v then vec_reserve junk (vec_capacity v * 2) v else v)
      in (set_ptr_cells ((ptr_cells v)[vec_size v := t]) v)\<lparr>vec_size := vec_size v + 1\<rparr>)"

definition vec_empty :: "'a local_vector \<Rightarrow> bool" where
  "vec_empty v \<longleftrightarrow> 0 = vec_size v"

definition vec_clear :: "'a local_vector \<Rightarrow> 'a local_vector" where
  "vec_clear v = vec_init v"

text \<open>
  \<open>operator=\<close>: the receiver is cleared before the argument is read.  \<open>same\<close> says that the argument is the
  receiver itself.
\<close>

definition vec_assign :: "(nat \<Rightarrow> 'a) \<Rightarrow> bool \<Rightarrow> 'a local_vector \<Rightarrow> 'a local_vector \<Rightarrow> 'a local_vector" where
  "vec_assign junk same vec v =
     (let v = vec_clear v; vec = (if same then v else vec);
          v = v\<lparr>vec_size := vec_size vec, vec_capacity := vec_capacity vec\<rparr> in
      case heap_block vec of
        None \<Rightarrow> v\<lparr>buffer := take (vec_size vec) (buffer vec) @ drop (vec_size vec) (buffer v), heap_block := None\<rparr>
      | Some h \<Rightarrow> v\<lparr>heap_block := Some (take (vec_size vec) h @ map junk [vec_size vec..<vec_capacity vec])\<rparr>)"

definition new_vector :: "(nat \<Rightarrow> 'a) \<Rightarrow> 'a local_vector" where
  "new_vector junk = vec_init
     \<lparr>buffer = map junk [0..<LOCAL_VECTOR_BUFFER_SIZE], heap_block = None, vec_size = 0, vec_capacity = 0\<rparr>"

definition copy_vector :: "(nat \<Rightarrow> 'a) \<Rightarrow> 'a local_vector \<Rightarrow> 'a local_vector" where
  "copy_vector junk vec = vec_assign junk False vec (new_vector junk)"

definition vector_of :: "(nat \<Rightarrow> 'a) \<Rightarrow> 'a list \<Rightarrow> 'a local_vector" where
  "vector_of junk xs = foldl (\<lambda>v x. vec_push_back junk x v) (new_vector junk) xs"

definition filled_vector :: "(nat \<Rightarrow> 'a) \<Rightarrow> nat \<Rightarrow> 'a \<Rightarrow> 'a local_vector" where
  "filled_vector junk n t = ((\<lambda>v. vec_push_back junk t v) ^^ n) (new_vector junk)"

section \<open>The contract of a vector\<close>

text \<open>What a client may rely on: the vector stands for a list.\<close>

locale list_vector =
  fixes fresh :: "'v" and push :: "'a \<Rightarrow> 'v \<Rightarrow> 'v" and at :: "'v \<Rightarrow> nat \<Rightarrow> 'a option" and elems :: "'v \<Rightarrow> nat"
    and ok :: "'v \<Rightarrow> bool" and contents :: "'v \<Rightarrow> 'a list"
  assumes fresh_ok: "ok fresh" and fresh_nil: "contents fresh = []"
    and push_ok: "ok v \<Longrightarrow> ok (push x v)" and push_snoc: "ok v \<Longrightarrow> contents (push x v) = contents v @ [x]"
    and at_nth: "ok v \<Longrightarrow> i < length (contents v) \<Longrightarrow> at v i = Some (contents v ! i)"
    and elems_length: "ok v \<Longrightarrow> elems v = length (contents v)"
begin

lemma pushes: "ok v \<Longrightarrow> ok (foldl (\<lambda>v x. push x v) v xs) \<and> contents (foldl (\<lambda>v x. push x v) v xs) = contents v @ xs"
  by (induction xs arbitrary: v) (simp_all add: push_ok push_snoc)

lemma built: "ok (foldl (\<lambda>v x. push x v) fresh xs) \<and> contents (foldl (\<lambda>v x. push x v) fresh xs) = xs"
  using pushes[OF fresh_ok] by (simp add: fresh_nil)

lemma built_at: "i < length xs \<Longrightarrow> at (foldl (\<lambda>v x. push x v) fresh xs) i = Some (xs ! i)"
  using built[of xs] at_nth by metis

lemma repeated: "ok ((push x ^^ n) fresh) \<and> contents ((push x ^^ n) fresh) = replicate n x"
  by (induction n) (simp_all add: fresh_ok fresh_nil push_ok push_snoc replicate_append_same)

end

section \<open>The vector keeps the contract\<close>

definition vec_ok :: "'a local_vector \<Rightarrow> bool" where
  "vec_ok v \<longleftrightarrow> length (buffer v) = LOCAL_VECTOR_BUFFER_SIZE \<and> vec_size v \<le> vec_capacity v \<and>
     (case heap_block v of None \<Rightarrow> vec_capacity v = LOCAL_VECTOR_BUFFER_SIZE
      | Some h \<Rightarrow> length h = vec_capacity v \<and> LOCAL_VECTOR_BUFFER_SIZE < vec_capacity v)"

definition vec_list :: "'a local_vector \<Rightarrow> 'a list" where
  "vec_list v = take (vec_size v) (ptr_cells v)"

lemma ptr_length: "vec_ok v \<Longrightarrow> length (ptr_cells v) = vec_capacity v"
  by (auto simp: vec_ok_def ptr_cells_def split: option.splits)

lemma capacity_pos: "vec_ok v \<Longrightarrow> 0 < vec_capacity v"
  by (auto simp: vec_ok_def LOCAL_VECTOR_BUFFER_SIZE_def split: option.splits)

lemma reserve_keeps:
  assumes "vec_ok v"
  shows "vec_ok (vec_reserve junk n v) \<and> vec_list (vec_reserve junk n v) = vec_list v \<and>
    vec_size (vec_reserve junk n v) = vec_size v \<and> n \<le> vec_capacity (vec_reserve junk n v)"
proof -
  have le: "vec_size v \<le> vec_capacity v" "LOCAL_VECTOR_BUFFER_SIZE \<le> vec_capacity v"
    using assms by (auto simp: vec_ok_def split: option.splits)
  show ?thesis
    using assms ptr_length[OF assms] le
    by (auto simp: vec_reserve_def vec_ok_def vec_list_def ptr_cells_def min_def)
qed

lemma store_keeps:
  assumes "vec_ok v" "vec_size v < vec_capacity v"
  shows "vec_ok ((set_ptr_cells ((ptr_cells v)[vec_size v := t]) v)\<lparr>vec_size := vec_size v + 1\<rparr>) \<and>
    vec_list ((set_ptr_cells ((ptr_cells v)[vec_size v := t]) v)\<lparr>vec_size := vec_size v + 1\<rparr>) = vec_list v @ [t]"
  using assms ptr_length[OF assms(1)]
  by (auto simp: vec_ok_def vec_list_def set_ptr_cells_def ptr_cells_def take_Suc_conv_app_nth split: option.splits)

lemma push_back_keeps:
  assumes "vec_ok v"
  shows "vec_ok (vec_push_back junk t v) \<and> vec_list (vec_push_back junk t v) = vec_list v @ [t]"
proof (cases "vec_size v = vec_capacity v")
  case True
  let ?w = "vec_reserve junk (vec_capacity v * 2) v"
  have "vec_ok ?w" "vec_list ?w = vec_list v" "vec_size ?w < vec_capacity ?w"
    using reserve_keeps[OF assms, of junk "vec_capacity v * 2"] capacity_pos[OF assms] True by auto
  then show ?thesis using store_keeps[of ?w t] True by (simp add: vec_push_back_def Let_def)
next
  case False
  then have "vec_size v < vec_capacity v" using assms by (simp add: vec_ok_def)
  then show ?thesis using store_keeps[OF assms, of t] False by (simp add: vec_push_back_def Let_def)
qed

lemma new_vector_ok: "vec_ok (new_vector junk)" "vec_list (new_vector junk) = []"
  by (simp_all add: new_vector_def vec_init_def vec_ok_def vec_list_def)

lemma vec_list_length: "vec_ok v \<Longrightarrow> vec_size v = length (vec_list v)"
  by (simp add: vec_list_def ptr_length) (simp add: vec_ok_def)

lemma vec_at_list: "vec_ok v \<Longrightarrow> i < length (vec_list v) \<Longrightarrow> vec_at v i = Some (vec_list v ! i)"
  by (simp add: vec_at_def vec_list_def)

interpretation lv: list_vector "new_vector junk" "vec_push_back junk" vec_at vec_size vec_ok vec_list
  by unfold_locales (simp_all add: new_vector_ok push_back_keeps vec_at_list vec_list_length)

lemma clear_keeps: "vec_ok v \<Longrightarrow> vec_ok (vec_clear v) \<and> vec_list (vec_clear v) = []"
  by (simp add: vec_clear_def vec_init_def vec_ok_def vec_list_def)

lemma assign_keeps:
  assumes "vec_ok vec" "vec_ok v"
  shows "vec_ok (vec_assign junk False vec v) \<and> vec_list (vec_assign junk False vec v) = vec_list vec"
  using assms
  by (auto simp: vec_assign_def vec_clear_def vec_init_def vec_ok_def vec_list_def ptr_cells_def Let_def split: option.splits)


text \<open>
  A vector assigned to itself loses its elements: \<open>operator=\<close> clears the receiver before it reads the argument.
\<close>

theorem self_assignment_empties: "vec_list (vec_assign junk True v v) = []"
  by (simp add: vec_assign_def vec_clear_def vec_init_def vec_list_def Let_def)

end
