(* ===== verification/Md5.thy ===== *)
theory Md5
  imports StrUtil
begin

unbundle bit_operations_syntax

text \<open>
  The digest of \<open>src/utils/cppjieba/limonp/Md5.hpp\<close>.  \<open>round1\<close> to \<open>round4\<close> are the macro calls of
  \<open>MD5Transform\<close> line by line; \<open>md5_update\<close> is \<open>Update\<close> on an array of bytes (the answer is None when it
  reads past the end of its input, writes past its buffer or does not end), and the digests of memory, strings and
  files are built on it.  The reference is the loop of RFC 1321: sixty-four equal steps on each block of the
  padded message.  A file is the list of its bytes, or nothing when it cannot be opened.
\<close>

section \<open>The block transform\<close>

type_synonym regs = "32 word \<times> 32 word \<times> 32 word \<times> 32 word"

definition S11 :: nat where "S11 = 7"
definition S12 :: nat where "S12 = 12"
definition S13 :: nat where "S13 = 17"
definition S14 :: nat where "S14 = 22"
definition S21 :: nat where "S21 = 5"
definition S22 :: nat where "S22 = 9"
definition S23 :: nat where "S23 = 14"
definition S24 :: nat where "S24 = 20"
definition S31 :: nat where "S31 = 4"
definition S32 :: nat where "S32 = 11"
definition S33 :: nat where "S33 = 16"
definition S34 :: nat where "S34 = 23"
definition S41 :: nat where "S41 = 6"
definition S42 :: nat where "S42 = 10"
definition S43 :: nat where "S43 = 15"
definition S44 :: nat where "S44 = 21"

definition md5_f :: "32 word \<Rightarrow> 32 word \<Rightarrow> 32 word \<Rightarrow> 32 word" where
  "md5_f x y z = (x AND y) OR (NOT x AND z)"

definition md5_g :: "32 word \<Rightarrow> 32 word \<Rightarrow> 32 word \<Rightarrow> 32 word" where
  "md5_g x y z = (x AND z) OR (y AND NOT z)"

definition md5_h :: "32 word \<Rightarrow> 32 word \<Rightarrow> 32 word \<Rightarrow> 32 word" where
  "md5_h x y z = x XOR y XOR z"

definition md5_i :: "32 word \<Rightarrow> 32 word \<Rightarrow> 32 word \<Rightarrow> 32 word" where
  "md5_i x y z = y XOR (x OR NOT z)"

definition rotate_left :: "32 word \<Rightarrow> nat \<Rightarrow> 32 word" where
  "rotate_left x n = push_bit n x OR drop_bit (32 - n) x"

text \<open>The macros change their first argument; here they return it.\<close>

definition FF :: "32 word \<Rightarrow> 32 word \<Rightarrow> 32 word \<Rightarrow> 32 word \<Rightarrow> 32 word \<Rightarrow> nat \<Rightarrow> 32 word \<Rightarrow> 32 word" where
  "FF a b c d x s ac = rotate_left (a + (md5_f b c d + x + ac)) s + b"

definition GG :: "32 word \<Rightarrow> 32 word \<Rightarrow> 32 word \<Rightarrow> 32 word \<Rightarrow> 32 word \<Rightarrow> nat \<Rightarrow> 32 word \<Rightarrow> 32 word" where
  "GG a b c d x s ac = rotate_left (a + (md5_g b c d + x + ac)) s + b"

definition HH :: "32 word \<Rightarrow> 32 word \<Rightarrow> 32 word \<Rightarrow> 32 word \<Rightarrow> 32 word \<Rightarrow> nat \<Rightarrow> 32 word \<Rightarrow> 32 word" where
  "HH a b c d x s ac = rotate_left (a + (md5_h b c d + x + ac)) s + b"

definition II :: "32 word \<Rightarrow> 32 word \<Rightarrow> 32 word \<Rightarrow> 32 word \<Rightarrow> 32 word \<Rightarrow> nat \<Rightarrow> 32 word \<Rightarrow> 32 word" where
  "II a b c d x s ac = rotate_left (a + (md5_i b c d + x + ac)) s + b"

definition round1 :: "32 word list \<Rightarrow> regs \<Rightarrow> regs" where
  "round1 x regs = (case regs of (a, b, c, d) \<Rightarrow>
     let a = FF a b c d (x ! 0) S11 0xd76aa478;
         d = FF d a b c (x ! 1) S12 0xe8c7b756;
         c = FF c d a b (x ! 2) S13 0x242070db;
         b = FF b c d a (x ! 3) S14 0xc1bdceee;
         a = FF a b c d (x ! 4) S11 0xf57c0faf;
         d = FF d a b c (x ! 5) S12 0x4787c62a;
         c = FF c d a b (x ! 6) S13 0xa8304613;
         b = FF b c d a (x ! 7) S14 0xfd469501;
         a = FF a b c d (x ! 8) S11 0x698098d8;
         d = FF d a b c (x ! 9) S12 0x8b44f7af;
         c = FF c d a b (x ! 10) S13 0xffff5bb1;
         b = FF b c d a (x ! 11) S14 0x895cd7be;
         a = FF a b c d (x ! 12) S11 0x6b901122;
         d = FF d a b c (x ! 13) S12 0xfd987193;
         c = FF c d a b (x ! 14) S13 0xa679438e;
         b = FF b c d a (x ! 15) S14 0x49b40821
     in (a, b, c, d))"

definition round2 :: "32 word list \<Rightarrow> regs \<Rightarrow> regs" where
  "round2 x regs = (case regs of (a, b, c, d) \<Rightarrow>
     let a = GG a b c d (x ! 1) S21 0xf61e2562;
         d = GG d a b c (x ! 6) S22 0xc040b340;
         c = GG c d a b (x ! 11) S23 0x265e5a51;
         b = GG b c d a (x ! 0) S24 0xe9b6c7aa;
         a = GG a b c d (x ! 5) S21 0xd62f105d;
         d = GG d a b c (x ! 10) S22 0x2441453;
         c = GG c d a b (x ! 15) S23 0xd8a1e681;
         b = GG b c d a (x ! 4) S24 0xe7d3fbc8;
         a = GG a b c d (x ! 9) S21 0x21e1cde6;
         d = GG d a b c (x ! 14) S22 0xc33707d6;
         c = GG c d a b (x ! 3) S23 0xf4d50d87;
         b = GG b c d a (x ! 8) S24 0x455a14ed;
         a = GG a b c d (x ! 13) S21 0xa9e3e905;
         d = GG d a b c (x ! 2) S22 0xfcefa3f8;
         c = GG c d a b (x ! 7) S23 0x676f02d9;
         b = GG b c d a (x ! 12) S24 0x8d2a4c8a
     in (a, b, c, d))"

definition round3 :: "32 word list \<Rightarrow> regs \<Rightarrow> regs" where
  "round3 x regs = (case regs of (a, b, c, d) \<Rightarrow>
     let a = HH a b c d (x ! 5) S31 0xfffa3942;
         d = HH d a b c (x ! 8) S32 0x8771f681;
         c = HH c d a b (x ! 11) S33 0x6d9d6122;
         b = HH b c d a (x ! 14) S34 0xfde5380c;
         a = HH a b c d (x ! 1) S31 0xa4beea44;
         d = HH d a b c (x ! 4) S32 0x4bdecfa9;
         c = HH c d a b (x ! 7) S33 0xf6bb4b60;
         b = HH b c d a (x ! 10) S34 0xbebfbc70;
         a = HH a b c d (x ! 13) S31 0x289b7ec6;
         d = HH d a b c (x ! 0) S32 0xeaa127fa;
         c = HH c d a b (x ! 3) S33 0xd4ef3085;
         b = HH b c d a (x ! 6) S34 0x4881d05;
         a = HH a b c d (x ! 9) S31 0xd9d4d039;
         d = HH d a b c (x ! 12) S32 0xe6db99e5;
         c = HH c d a b (x ! 15) S33 0x1fa27cf8;
         b = HH b c d a (x ! 2) S34 0xc4ac5665
     in (a, b, c, d))"

definition round4 :: "32 word list \<Rightarrow> regs \<Rightarrow> regs" where
  "round4 x regs = (case regs of (a, b, c, d) \<Rightarrow>
     let a = II a b c d (x ! 0) S41 0xf4292244;
         d = II d a b c (x ! 7) S42 0x432aff97;
         c = II c d a b (x ! 14) S43 0xab9423a7;
         b = II b c d a (x ! 5) S44 0xfc93a039;
         a = II a b c d (x ! 12) S41 0x655b59c3;
         d = II d a b c (x ! 3) S42 0x8f0ccc92;
         c = II c d a b (x ! 10) S43 0xffeff47d;
         b = II b c d a (x ! 1) S44 0x85845dd1;
         a = II a b c d (x ! 8) S41 0x6fa87e4f;
         d = II d a b c (x ! 15) S42 0xfe2ce6e0;
         c = II c d a b (x ! 6) S43 0xa3014314;
         b = II b c d a (x ! 13) S44 0x4e0811a1;
         a = II a b c d (x ! 4) S41 0xf7537e82;
         d = II d a b c (x ! 11) S42 0xbd3af235;
         c = II c d a b (x ! 2) S43 0x2ad7d2bb;
         b = II b c d a (x ! 9) S44 0xeb86d391
     in (a, b, c, d))"


text \<open>Both conversions stop when the given number of bytes is reached; the code calls them on whole words.\<close>

fun md5_encode :: "32 word list \<Rightarrow> nat \<Rightarrow> 8 word list" where
  "md5_encode [] n = []"
| "md5_encode (w # ws) n =
     (if 0 < n
      then [ucast (w AND 0xff), ucast (drop_bit 8 w AND 0xff), ucast (drop_bit 16 w AND 0xff), ucast (drop_bit 24 w AND 0xff)] @
        md5_encode ws (n - 4)
      else [])"

fun md5_decode :: "8 word list \<Rightarrow> nat \<Rightarrow> 32 word list" where
  "md5_decode (b0 # b1 # b2 # b3 # bs) n =
     (if 0 < n
      then (ucast b0 OR push_bit 8 (ucast b1) OR push_bit 16 (ucast b2) OR push_bit 24 (ucast b3)) # md5_decode bs (n - 4)
      else [])"
| "md5_decode bs n = []"

definition md5_transform :: "32 word list \<Rightarrow> 8 word list \<Rightarrow> 32 word list" where
  "md5_transform st block =
     (let x = md5_decode block 64 in
      case round4 x (round3 x (round2 x (round1 x (st ! 0, st ! 1, st ! 2, st ! 3)))) of
        (a, b, c, d) \<Rightarrow> [st ! 0 + a, st ! 1 + b, st ! 2 + c, st ! 3 + d])"

section \<open>The context\<close>

record md5_context =
  md5_state :: "32 word list"
  md5_count0 :: "32 word"
  md5_count1 :: "32 word"
  md5_buffer :: "8 word list"

definition md5_init :: "md5_context \<Rightarrow> md5_context" where
  "md5_init ctx =
     ctx\<lparr>md5_count0 := 0, md5_count1 := 0, md5_state := [0x67452301, 0xefcdab89, 0x98badcfe, 0x10325476]\<rparr>"

definition md5_padding :: "8 word list" where
  "md5_padding = 0x80 # replicate 63 0"

definition buffer_index :: "32 word \<Rightarrow> 32 word" where
  "buffer_index c = drop_bit 3 c AND 0x3F"

definition memcpy_at :: "nat \<Rightarrow> 'a list \<Rightarrow> 'a list \<Rightarrow> 'a list" where
  "memcpy_at i src dst = take i dst @ src @ drop (i + length src) dst"

partial_function (option) transform_loop ::
    "8 word list \<Rightarrow> 32 word \<Rightarrow> 32 word \<Rightarrow> 32 word list \<Rightarrow> (32 word list \<times> 32 word) option" where
  "transform_loop inp input_len i st =
     (if i + 63 < input_len
      then (if unat i + 64 \<le> length inp
        then transform_loop inp input_len (i + 64) (md5_transform st (take 64 (drop (unat i) inp)))
        else None)
      else Some (st, i))"

declare transform_loop.simps [code]

definition md5_buffer_rest :: "8 word list \<Rightarrow> 32 word \<Rightarrow> 32 word \<Rightarrow> 32 word \<Rightarrow> md5_context \<Rightarrow> md5_context option" where
  "md5_buffer_rest inp input_len i index ctx =
     (let n = unat (input_len - i) in
      if unat i + n \<le> length inp \<and> unat index + n \<le> length (md5_buffer ctx)
      then Some (ctx\<lparr>md5_buffer := memcpy_at (unat index) (take n (drop (unat i) inp)) (md5_buffer ctx)\<rparr>)
      else None)"

definition add_bits :: "32 word \<Rightarrow> md5_context \<Rightarrow> md5_context" where
  "add_bits input_len ctx =
     (let bits = push_bit 3 input_len; c0 = md5_count0 ctx + bits;
          c1 = (if c0 < bits then md5_count1 ctx + 1 else md5_count1 ctx)
      in ctx\<lparr>md5_count0 := c0, md5_count1 := c1 + drop_bit 29 input_len\<rparr>)"

definition md5_update :: "8 word list \<Rightarrow> 32 word \<Rightarrow> md5_context \<Rightarrow> md5_context option" where
  "md5_update inp input_len ctx =
     (let index = buffer_index (md5_count0 ctx); ctx = add_bits input_len ctx; part_len = 64 - index in
      if part_len \<le> input_len
      then (if unat part_len \<le> length inp \<and> unat index + unat part_len \<le> length (md5_buffer ctx)
        then
          (let buf = memcpy_at (unat index) (take (unat part_len) inp) (md5_buffer ctx) in
           case transform_loop inp input_len part_len (md5_transform (md5_state ctx) buf) of
             None \<Rightarrow> None
           | Some (st, i) \<Rightarrow> md5_buffer_rest inp input_len i 0 (ctx\<lparr>md5_state := st, md5_buffer := buf\<rparr>))
        else None)
      else md5_buffer_rest inp input_len 0 index ctx)"

definition zero_context :: md5_context where
  "zero_context = \<lparr>md5_state = replicate 4 0, md5_count0 = 0, md5_count1 = 0, md5_buffer = replicate 64 0\<rparr>"

section \<open>Digests\<close>

record md5 =
  md5_ctx :: md5_context
  digest_raw :: "8 word list"
  digest_chars :: string

definition hex_digit :: "nat \<Rightarrow> char" where
  "hex_digit n = char_of (if n < 10 then 48 + n else 87 + n)"

definition write_to_string :: "8 word list \<Rightarrow> string" where
  "write_to_string raw = concat (map (\<lambda>w. [hex_digit (unat w div 16), hex_digit (unat w mod 16)]) raw)"

definition md5_final :: "md5 \<Rightarrow> md5 option" where
  "md5_final m =
     (let ctx = md5_ctx m; bits = md5_encode [md5_count0 ctx, md5_count1 ctx] 8; index = buffer_index (md5_count0 ctx);
          pad_len = (if index < 56 then 56 - index else 120 - index)
      in case md5_update md5_padding pad_len ctx of
           None \<Rightarrow> None
         | Some ctx \<Rightarrow>
             (case md5_update bits 8 ctx of
                None \<Rightarrow> None
              | Some ctx \<Rightarrow>
                  (let raw = md5_encode (md5_state ctx) 16 in
                   Some \<lparr>md5_ctx = zero_context, digest_raw = raw, digest_chars = write_to_string raw\<rparr>)))"

definition new_md5 :: "md5 \<Rightarrow> md5" where
  "new_md5 m = m\<lparr>md5_ctx := md5_init (md5_ctx m)\<rparr>"

definition digest_of :: "8 word list \<Rightarrow> 32 word \<Rightarrow> md5 \<Rightarrow> md5 option" where
  "digest_of inp n m =
     (case md5_update inp n (md5_init (md5_ctx m)) of None \<Rightarrow> None | Some ctx \<Rightarrow> md5_final (m\<lparr>md5_ctx := ctx\<rparr>))"

text \<open>The outer option is an undefined run, the inner one the null pointer.\<close>

definition digest_memory :: "8 word list option \<Rightarrow> int \<Rightarrow> md5 \<Rightarrow> (string option \<times> md5) option" where
  "digest_memory chunk n m =
     (case chunk of
        None \<Rightarrow> Some (None, m)
      | Some bs \<Rightarrow> (case digest_of bs (word_of_int n) m of None \<Rightarrow> None | Some m \<Rightarrow> Some (Some (digest_chars m), m)))"

definition c_string :: "string \<Rightarrow> 8 word list" where
  "c_string s = map byte8 (takeWhile (\<lambda>c. c \<noteq> NUL) s)"

definition digest_string :: "string option \<Rightarrow> md5 \<Rightarrow> (string option \<times> md5) option" where
  "digest_string str m =
     (case str of
        None \<Rightarrow> Some (None, m)
      | Some s \<Rightarrow>
          (case digest_of (c_string s) (of_nat (length (c_string s))) m of None \<Rightarrow> None | Some m \<Rightarrow> Some (Some (digest_chars m), m)))"

text \<open>\<open>fread\<close> fills the buffer of 1024 bytes as long as the file has them.\<close>

function update_file :: "8 word list \<Rightarrow> md5_context \<Rightarrow> md5_context option" where
  "update_file bs ctx =
     (if bs = [] then Some ctx
      else case md5_update (take 1024 bs) (of_nat (length (take 1024 bs))) ctx of
        None \<Rightarrow> None
      | Some ctx \<Rightarrow> update_file (drop 1024 bs) ctx)"
  by pat_completeness auto
termination by (relation "measure (\<lambda>(bs, ctx). length bs)") auto

declare update_file.simps [simp del]

definition digest_file :: "(string \<Rightarrow> 8 word list option) \<Rightarrow> string option \<Rightarrow> md5 \<Rightarrow> (string option \<times> md5) option" where
  "digest_file files name m =
     (case name of
        None \<Rightarrow> Some (None, m)
      | Some f \<Rightarrow>
          if f = [] then Some (None, m)
          else
            (let m = m\<lparr>md5_ctx := md5_init (md5_ctx m)\<rparr> in
             case files f of
               None \<Rightarrow> Some (None, m)
             | Some bs \<Rightarrow>
                 (case update_file bs (md5_ctx m) of
                    None \<Rightarrow> None
                  | Some ctx \<Rightarrow> (case md5_final (m\<lparr>md5_ctx := ctx\<rparr>) of None \<Rightarrow> None | Some m \<Rightarrow> Some (Some (digest_chars m), m)))))"

text \<open>The functions for clients: whether there is a digest, and the digest or the empty string.\<close>

definition answer_or_empty :: "string option \<Rightarrow> bool \<times> string" where
  "answer_or_empty res = (case res of None \<Rightarrow> (False, []) | Some s \<Rightarrow> (True, s))"

definition md5_string :: "md5 \<Rightarrow> string option \<Rightarrow> (bool \<times> string) option" where
  "md5_string m str =
     (case str of
        None \<Rightarrow> Some (False, [])
      | Some s \<Rightarrow> map_option (\<lambda>(res, _). answer_or_empty res) (digest_string (Some s) (new_md5 m)))"

definition md5_file :: "(string \<Rightarrow> 8 word list option) \<Rightarrow> md5 \<Rightarrow> string option \<Rightarrow> (bool \<times> string) option" where
  "md5_file files m name =
     (case name of
        None \<Rightarrow> Some (False, [])
      | Some f \<Rightarrow>
          if f = [] then Some (False, [])
          else map_option (\<lambda>(res, _). answer_or_empty res) (digest_file files (Some f) (new_md5 m)))"

section \<open>The reference\<close>

definition sine_table :: "32 word list" where
  "sine_table =
    [
     0xd76aa478, 0xe8c7b756, 0x242070db, 0xc1bdceee, 0xf57c0faf, 0x4787c62a, 0xa8304613, 0xfd469501,
     0x698098d8, 0x8b44f7af, 0xffff5bb1, 0x895cd7be, 0x6b901122, 0xfd987193, 0xa679438e, 0x49b40821,
     0xf61e2562, 0xc040b340, 0x265e5a51, 0xe9b6c7aa, 0xd62f105d, 0x2441453, 0xd8a1e681, 0xe7d3fbc8,
     0x21e1cde6, 0xc33707d6, 0xf4d50d87, 0x455a14ed, 0xa9e3e905, 0xfcefa3f8, 0x676f02d9, 0x8d2a4c8a,
     0xfffa3942, 0x8771f681, 0x6d9d6122, 0xfde5380c, 0xa4beea44, 0x4bdecfa9, 0xf6bb4b60, 0xbebfbc70,
     0x289b7ec6, 0xeaa127fa, 0xd4ef3085, 0x4881d05, 0xd9d4d039, 0xe6db99e5, 0x1fa27cf8, 0xc4ac5665,
     0xf4292244, 0x432aff97, 0xab9423a7, 0xfc93a039, 0x655b59c3, 0x8f0ccc92, 0xffeff47d, 0x85845dd1,
     0x6fa87e4f, 0xfe2ce6e0, 0xa3014314, 0x4e0811a1, 0xf7537e82, 0xbd3af235, 0x2ad7d2bb, 0xeb86d391]"

definition ref_shift :: "nat \<Rightarrow> nat" where
  "ref_shift i = [[7, 12, 17, 22], [5, 9, 14, 20], [4, 11, 16, 23], [6, 10, 15, 21]] ! (i div 16) ! (i mod 4)"

definition ref_index :: "nat \<Rightarrow> nat" where
  "ref_index i =
     (if i < 16 then i else if i < 32 then (5 * i + 1) mod 16 else if i < 48 then (3 * i + 5) mod 16 else (7 * i) mod 16)"

definition ref_mix :: "nat \<Rightarrow> 32 word \<Rightarrow> 32 word \<Rightarrow> 32 word \<Rightarrow> 32 word" where
  "ref_mix i b c d =
     (if i < 16 then (b AND c) OR (NOT b AND d)
      else if i < 32 then (d AND b) OR (NOT d AND c)
      else if i < 48 then b XOR c XOR d
      else c XOR (b OR NOT d))"

fun ref_steps :: "32 word list \<Rightarrow> nat list \<Rightarrow> regs \<Rightarrow> regs" where
  "ref_steps x [] r = r"
| "ref_steps x (i # is) (a, b, c, d) =
     (let t = b + word_rotl (ref_shift i) (a + ref_mix i b c d + sine_table ! i + x ! ref_index i) in ref_steps x is (d, t, b, c))"

definition le_number :: "8 word list \<Rightarrow> nat" where
  "le_number bs = foldr (\<lambda>b n. unat b + 256 * n) bs 0"

definition le_bytes :: "nat \<Rightarrow> nat \<Rightarrow> 8 word list" where
  "le_bytes k n = map (\<lambda>i. of_nat (n div 256 ^ i)) [0..<k]"

definition le_words :: "8 word list \<Rightarrow> 32 word list" where
  "le_words block = map (\<lambda>i. of_nat (le_number (take 4 (drop (4 * i) block)))) [0..<16]"

definition ref_block :: "regs \<Rightarrow> 8 word list \<Rightarrow> regs" where
  "ref_block r block =
     (case (r, ref_steps (le_words block) [0..<64] r) of
        ((a0, b0, c0, d0), (a, b, c, d)) \<Rightarrow> (a0 + a, b0 + b, c0 + c, d0 + d))"

function blocks64 :: "'a list \<Rightarrow> 'a list list" where
  "blocks64 bs = (if length bs < 64 then [] else take 64 bs # blocks64 (drop 64 bs))"
  by pat_completeness auto
termination by (relation "measure length") auto

declare blocks64.simps [simp del]

definition ref_start :: regs where
  "ref_start = (0x67452301, 0xefcdab89, 0x98badcfe, 0x10325476)"

definition ref_pad :: "8 word list \<Rightarrow> 8 word list" where
  "ref_pad m = m @ [0x80] @ replicate ((119 - length m mod 64) mod 64) 0 @ le_bytes 8 (8 * length m)"

definition ref_md5 :: "8 word list \<Rightarrow> 8 word list" where
  "ref_md5 m =
     (case foldl ref_block ref_start (blocks64 (ref_pad m)) of
        (a, b, c, d) \<Rightarrow> concat (map (\<lambda>w. le_bytes 4 (unat w)) [a, b, c, d]))"


section \<open>The transform is the reference's\<close>

lemma rotate_left_rotl: 
  assumes "0 < n" "n < 32" shows "rotate_left x n = word_rotl n x"
  unfolding rotate_left_def
proof (rule bit_word_eqI)
  fix m assume "m < LENGTH(32)"
  then have m: "m < 32" by simp
  have e: "(m + (32 - n mod 32)) mod 32 = (if n \<le> m then m - n else m + 32 - n)"
    using m assms by (simp add: mod_if)
  have r: "bit (word_rotl n x) m = bit x (if n \<le> m then m - n else m + 32 - n)"
    using m e by (simp only: bit_word_rotl_iff len_bit0 len_num1 len_of_numeral_defs mult_1_right) simp
  show "bit (push_bit n x OR drop_bit (32 - n) x) m = bit (word_rotl n x) m"
  proof (cases "n \<le> m")
    case True
    then have "\<not> bit x (32 - n + m)" using assms bit_imp_le_length[of x "32 - n + m"] by auto
    then show ?thesis unfolding r using True m by (simp add: bit_simps)
  next
    case False
    then show ?thesis unfolding r using assms m by (simp add: bit_simps add.commute)
  qed
qed

lemmas macro_defs = FF_def GG_def HH_def II_def md5_f_def md5_g_def md5_h_def md5_i_def

lemma ref_shift_bounds: "i < 64 \<Longrightarrow> 0 < ref_shift i \<and> ref_shift i < 32"
proof -
  assume "i < 64"
  then have "i div 16 \<in> {0, 1, 2, 3}" "i mod 4 \<in> {0, 1, 2, 3}" by auto
  then show ?thesis by (auto simp: ref_shift_def)
qed

lemma ref_step_FF:
  "i < 16 \<Longrightarrow> b + word_rotl (ref_shift i) (a + ref_mix i b c d + k + y) = FF a b c d y (ref_shift i) k"
  using ref_shift_bounds[of i] by (simp add: ref_mix_def macro_defs rotate_left_rotl ac_simps)

lemma ref_step_GG:
  "16 \<le> i \<Longrightarrow> i < 32 \<Longrightarrow> b + word_rotl (ref_shift i) (a + ref_mix i b c d + k + y) = GG a b c d y (ref_shift i) k"
  using ref_shift_bounds[of i] by (simp add: ref_mix_def macro_defs rotate_left_rotl ac_simps)

lemma ref_step_HH:
  "32 \<le> i \<Longrightarrow> i < 48 \<Longrightarrow> b + word_rotl (ref_shift i) (a + ref_mix i b c d + k + y) = HH a b c d y (ref_shift i) k"
  using ref_shift_bounds[of i] by (simp add: ref_mix_def macro_defs rotate_left_rotl ac_simps)

lemma ref_step_II:
  "48 \<le> i \<Longrightarrow> i < 64 \<Longrightarrow> b + word_rotl (ref_shift i) (a + ref_mix i b c d + k + y) = II a b c d y (ref_shift i) k"
  using ref_shift_bounds[of i] by (simp add: ref_mix_def macro_defs rotate_left_rotl ac_simps)

lemma ref_steps_append: "ref_steps x (is @ js) r = ref_steps x js (ref_steps x is r)"
  by (induction x "is" r rule: ref_steps.induct) (simp_all add: Let_def)

lemmas shift_names = S11_def S12_def S13_def S14_def S21_def S22_def S23_def S24_def
  S31_def S32_def S33_def S34_def S41_def S42_def S43_def S44_def


fun macro_steps ::
    "(32 word \<Rightarrow> 32 word \<Rightarrow> 32 word \<Rightarrow> 32 word \<Rightarrow> 32 word \<Rightarrow> nat \<Rightarrow> 32 word \<Rightarrow> 32 word) \<Rightarrow> 32 word list \<Rightarrow>
     (nat \<times> nat \<times> 32 word) list \<Rightarrow> regs \<Rightarrow> regs" where
  "macro_steps F x [] r = r"
| "macro_steps F x ((k, s, ac) # ks) (a, b, c, d) = (let t = F a b c d (x ! k) s ac in macro_steps F x ks (d, t, b, c))"

definition schedule :: "nat \<Rightarrow> nat \<times> nat \<times> 32 word" where
  "schedule i = (ref_index i, ref_shift i, sine_table ! i)"

lemma ref_macro_steps:
  assumes "\<And>i a b c d k y. i \<in> set is \<Longrightarrow>
    b + word_rotl (ref_shift i) (a + ref_mix i b c d + k + y) = F a b c d y (ref_shift i) k"
  shows "ref_steps x is r = macro_steps F x (map schedule is) r"
  using assms by (induction x "is" r rule: ref_steps.induct) (simp_all add: schedule_def Let_def)

lemma upt_split: "i \<in> set [m..<n] \<Longrightarrow> (m \<le> i \<Longrightarrow> i < n \<Longrightarrow> P) \<Longrightarrow> P"
  by simp

lemma schedule1: "map schedule [0..<16] =
   [(0, 7, 0xd76aa478), (1, 12, 0xe8c7b756), (2, 17, 0x242070db), (3, 22, 0xc1bdceee),
    (4, 7, 0xf57c0faf), (5, 12, 0x4787c62a), (6, 17, 0xa8304613), (7, 22, 0xfd469501),
    (8, 7, 0x698098d8), (9, 12, 0x8b44f7af), (10, 17, 0xffff5bb1), (11, 22, 0x895cd7be),
    (12, 7, 0x6b901122), (13, 12, 0xfd987193), (14, 17, 0xa679438e), (15, 22, 0x49b40821)]"
  by (simp add: upt_rec schedule_def ref_index_def ref_shift_def sine_table_def)

lemma round1_ref: "round1 x r = ref_steps x [0..<16] r"
  by (subst ref_macro_steps[where F = FF], erule upt_split, rule ref_step_FF, assumption+, cases r,
      simp only: schedule1 macro_steps.simps round1_def shift_names prod.case)

lemma schedule2: "map schedule [16..<32] =
   [(1, 5, 0xf61e2562), (6, 9, 0xc040b340), (11, 14, 0x265e5a51), (0, 20, 0xe9b6c7aa),
    (5, 5, 0xd62f105d), (10, 9, 0x2441453), (15, 14, 0xd8a1e681), (4, 20, 0xe7d3fbc8),
    (9, 5, 0x21e1cde6), (14, 9, 0xc33707d6), (3, 14, 0xf4d50d87), (8, 20, 0x455a14ed),
    (13, 5, 0xa9e3e905), (2, 9, 0xfcefa3f8), (7, 14, 0x676f02d9), (12, 20, 0x8d2a4c8a)]"
  by (simp add: upt_rec schedule_def ref_index_def ref_shift_def sine_table_def)

lemma round2_ref: "round2 x r = ref_steps x [16..<32] r"
  by (subst ref_macro_steps[where F = GG], erule upt_split, rule ref_step_GG, assumption+, cases r,
      simp only: schedule2 macro_steps.simps round2_def shift_names prod.case)

lemma schedule3: "map schedule [32..<48] =
   [(5, 4, 0xfffa3942), (8, 11, 0x8771f681), (11, 16, 0x6d9d6122), (14, 23, 0xfde5380c),
    (1, 4, 0xa4beea44), (4, 11, 0x4bdecfa9), (7, 16, 0xf6bb4b60), (10, 23, 0xbebfbc70),
    (13, 4, 0x289b7ec6), (0, 11, 0xeaa127fa), (3, 16, 0xd4ef3085), (6, 23, 0x4881d05),
    (9, 4, 0xd9d4d039), (12, 11, 0xe6db99e5), (15, 16, 0x1fa27cf8), (2, 23, 0xc4ac5665)]"
  by (simp add: upt_rec schedule_def ref_index_def ref_shift_def sine_table_def)

lemma round3_ref: "round3 x r = ref_steps x [32..<48] r"
  by (subst ref_macro_steps[where F = HH], erule upt_split, rule ref_step_HH, assumption+, cases r,
      simp only: schedule3 macro_steps.simps round3_def shift_names prod.case)

lemma schedule4: "map schedule [48..<64] =
   [(0, 6, 0xf4292244), (7, 10, 0x432aff97), (14, 15, 0xab9423a7), (5, 21, 0xfc93a039),
    (12, 6, 0x655b59c3), (3, 10, 0x8f0ccc92), (10, 15, 0xffeff47d), (1, 21, 0x85845dd1),
    (8, 6, 0x6fa87e4f), (15, 10, 0xfe2ce6e0), (6, 15, 0xa3014314), (13, 21, 0x4e0811a1),
    (4, 6, 0xf7537e82), (11, 10, 0xbd3af235), (2, 15, 0x2ad7d2bb), (9, 21, 0xeb86d391)]"
  by (simp add: upt_rec schedule_def ref_index_def ref_shift_def sine_table_def)

lemma round4_ref: "round4 x r = ref_steps x [48..<64] r"
  by (subst ref_macro_steps[where F = II], erule upt_split, rule ref_step_II, assumption+, cases r,
      simp only: schedule4 macro_steps.simps round4_def shift_names prod.case)


section \<open>Words and bytes\<close>

lemma bit_ucast8: "8 \<le> n \<Longrightarrow> \<not> bit (b :: 8 word) n"
  using bit_imp_le_length[of b n] by auto

lemma bytes_or_add:
  fixes b0 b1 b2 b3 :: "8 word"
  shows "(ucast b0 OR push_bit 8 (ucast b1) OR push_bit 16 (ucast b2) OR push_bit 24 (ucast b3) :: 32 word)
    = ucast b0 + (push_bit 8 (ucast b1) + (push_bit 16 (ucast b2) + push_bit 24 (ucast b3)))"
proof -
  have a: "push_bit 16 (ucast b2) AND (push_bit 24 (ucast b3)) = (0 :: 32 word)"
    by (rule bit_word_eqI) (auto simp: bit_simps dest: bit_imp_le_length)
  have b: "push_bit 8 (ucast b1) AND (push_bit 16 (ucast b2) OR push_bit 24 (ucast b3)) = (0 :: 32 word)"
    by (rule bit_word_eqI) (auto simp: bit_simps dest: bit_imp_le_length)
  have c: "ucast b0 AND (push_bit 8 (ucast b1) OR push_bit 16 (ucast b2) OR push_bit 24 (ucast b3)) = (0 :: 32 word)"
    by (rule bit_word_eqI) (auto simp: bit_simps dest: bit_imp_le_length)
  show ?thesis
    by (simp only: or.assoc disjunctive_add_eq_or[OF a] disjunctive_add_eq_or[OF b] disjunctive_add_eq_or[OF c])
qed

lemma ucast_of_unat: "(ucast (b :: 8 word) :: 32 word) = of_nat (unat b)"
  by simp

lemma decode_word:
  fixes b0 b1 b2 b3 :: "8 word"
  shows "(ucast b0 OR push_bit 8 (ucast b1) OR push_bit 16 (ucast b2) OR push_bit 24 (ucast b3) :: 32 word)
    = of_nat (le_number [b0, b1, b2, b3])"
  unfolding bytes_or_add le_number_def
  by (simp add: push_bit_eq_mult algebra_simps)

lemma decode_words:
  "length bs = 4 * k \<Longrightarrow> md5_decode bs (4 * k) = map (\<lambda>i. of_nat (le_number (take 4 (drop (4 * i) bs)))) [0..<k]"
proof (induction k arbitrary: bs)
  case (Suc k)
  obtain b0 b1 b2 b3 ds where bs: "bs = b0 # b1 # b2 # b3 # ds" and ds: "length ds = 4 * k"
  proof -
    have "length bs = Suc (Suc (Suc (Suc (4 * k))))" using Suc.prems by simp
    then show ?thesis using that by (auto simp: length_Suc_conv)
  qed
  have d: "drop (4 + n) bs = drop n ds" for n
    using drop_drop[of n 4 bs] by (simp add: bs add.commute)
  have "map (\<lambda>i. of_nat (le_number (take 4 (drop (4 * i) bs))) :: 32 word) [0..<Suc k]
    = of_nat (le_number [b0, b1, b2, b3]) # map (\<lambda>i. of_nat (le_number (take 4 (drop (4 * i) ds)))) [0..<k]"
    by (simp add: upt_conv_Cons map_Suc_upt[symmetric] o_def d del: upt_Suc of_nat_mult) (simp add: bs)
  then show ?case using Suc.IH[OF ds] decode_word[of b0 b1 b2 b3] by (simp add: bs del: upt_Suc)
qed simp

lemma decode_block: "length block = 64 \<Longrightarrow> md5_decode block 64 = le_words block"
  using decode_words[of block 16] by (simp add: le_words_def)

lemma byte_of_word: "(ucast (drop_bit n (w :: 32 word) AND 0xff) :: 8 word) = of_nat (unat w div 2 ^ n)"
proof -
  have m: "(0xff :: 32 word) = mask 8" by (simp add: mask_eq_exp_minus_1)
  have "(ucast (drop_bit n w AND 0xff) :: 8 word) = ucast (drop_bit n w)"
    unfolding m by (rule bit_word_eqI) (auto simp: bit_simps)
  also have "\<dots> = of_nat (unat (drop_bit n w))" by (simp only: of_nat_unat)
  also have "unat (drop_bit n w) = drop_bit n (unat w)" by (rule unat_drop_bit_eq)
  finally show ?thesis by (simp only: drop_bit_eq_div[where 'a = nat])
qed

lemma encode_word:
  "[ucast (w AND 0xff), ucast (drop_bit 8 w AND 0xff), ucast (drop_bit 16 w AND 0xff), ucast (drop_bit 24 w AND 0xff)]
    = le_bytes 4 (unat (w :: 32 word))"
proof -
  have z: "w AND 0xff = drop_bit 0 w AND 0xff" by simp
  have u: "[0..<4] = [0, 1, 2, 3]" by (simp add: upt_rec)
  show ?thesis unfolding le_bytes_def u z by (simp only: byte_of_word list.map) simp
qed

lemma encode_words: "md5_encode ws (4 * length ws) = concat (map (\<lambda>w. le_bytes 4 (unat w)) ws)"
  by (induction ws) (simp_all only: md5_encode.simps encode_word list.map concat.simps list.size, simp_all)


definition regs_list :: "regs \<Rightarrow> 32 word list" where
  "regs_list r = (case r of (a, b, c, d) \<Rightarrow> [a, b, c, d])"

lemma transform_ref: "length block = 64 \<Longrightarrow> md5_transform (regs_list r) block = regs_list (ref_block r block)"
proof -
  assume "length block = 64"
  then have d: "md5_decode block 64 = le_words block" by (rule decode_block)
  have u: "[0..<64] = [0..<16] @ [16..<32] @ [32..<48] @ [48..<64 :: nat]"
    using upt_add_eq_append[of 0 16 48] upt_add_eq_append[of 16 32 16] upt_add_eq_append[of 32 48 16] upt_add_eq_append[of 16 32 32] by simp
  obtain a b c d where r: "r = (a, b, c, d)" by (cases r)
  show ?thesis
    unfolding md5_transform_def Let_def d ref_block_def u ref_steps_append
      round1_ref[symmetric] round2_ref[symmetric] round3_ref[symmetric] round4_ref[symmetric]
    by (simp add: r regs_list_def split: prod.split)
qed


section \<open>Blocks\<close>

definition tail64 :: "'a list \<Rightarrow> 'a list" where
  "tail64 xs = drop (64 * (length xs div 64)) xs"

lemma tail64_short: "length xs < 64 \<Longrightarrow> tail64 xs = xs"
  by (simp add: tail64_def)

lemma tail64_long: "64 \<le> length xs \<Longrightarrow> tail64 xs = tail64 (drop 64 xs)"
proof -
  assume l: "64 \<le> length xs"
  have "64 * (length xs div 64) = 64 * ((length xs - 64) div 64) + 64"
    using le_div_geq[OF _ l] by simp
  then show ?thesis by (simp add: tail64_def)
qed

lemma length_tail64: "length (tail64 xs) = length xs mod 64"
  by (simp add: tail64_def minus_mult_div_eq_mod)

lemma blocks64_short: "length xs < 64 \<Longrightarrow> blocks64 xs = []"
  by (simp add: blocks64.simps[of xs])

lemma blocks64_long: "64 \<le> length xs \<Longrightarrow> blocks64 xs = take 64 xs # blocks64 (drop 64 xs)"
  by (simp add: blocks64.simps[of xs])

lemma blocks64_append: "blocks64 (xs @ ys) = blocks64 xs @ blocks64 (tail64 xs @ ys)"
proof (induction xs rule: blocks64.induct)
  case (1 xs)
  then show ?case
    by (cases "length xs < 64") (simp_all add: blocks64_short blocks64_long tail64_short tail64_long[of xs])
qed

lemma tail64_append: "tail64 (xs @ ys) = tail64 (tail64 xs @ ys)"
proof (induction xs rule: blocks64.induct)
  case (1 xs)
  then show ?case
    by (cases "length xs < 64") (simp_all add: tail64_short tail64_long[of xs] tail64_long[of "xs @ ys"])
qed

section \<open>The count and the index\<close>

lemma index_of_count: "buffer_index (of_nat (8 * l)) = of_nat (l mod 64)"
proof -
  have m: "(0x3f :: 32 word) = mask 6" by (simp add: mask_eq_exp_minus_1)
  define w :: "32 word" where "w = drop_bit 3 (of_nat (8 * l))"
  have d: "8 * l mod 2 ^ 32 div 2 ^ 3 = l mod 2 ^ 29"
    using mult_mod_right[of 8 l "2 ^ 29"] by simp
  have "unat w = drop_bit 3 (8 * l mod 2 ^ LENGTH(32))"
    unfolding w_def by (simp only: unat_drop_bit_eq unat_of_nat)
  then have w: "unat w = l mod 2 ^ 29"
    using d by (simp add: drop_bit_eq_div[where 'a = nat])
  have "unat (take_bit 6 w) = take_bit 6 (unat w)" by (rule unsigned_take_bit_eq)
  also have "\<dots> = l mod 2 ^ 29 mod 2 ^ 6" unfolding w by (rule take_bit_eq_mod)
  also have "\<dots> = l mod 2 ^ 6" by (rule mod_mod_cancel) simp
  finally have u: "unat (take_bit 6 w) = l mod 64" by simp
  have "buffer_index (of_nat (8 * l)) = take_bit 6 w"
    by (simp add: buffer_index_def m take_bit_eq_mask w_def del: of_nat_mult)
  also have "\<dots> = of_nat (unat (take_bit 6 w))" by simp
  finally show ?thesis unfolding u .
qed

lemma carry_iff: "(a :: nat) < 2 ^ 32 \<Longrightarrow> b < 2 ^ 32 \<Longrightarrow> ((a + b) mod 2 ^ 32 < b) = (2 ^ 32 \<le> a + b)"
proof -
  assume l: "a < 2 ^ 32" "b < 2 ^ 32"
  show ?thesis
  proof (cases "a + b < 2 ^ 32")
    case False
    then have "(a + b) mod 2 ^ 32 = a + b - 2 ^ 32" using l by (simp add: le_mod_geq)
    then show ?thesis using False l by linarith
  qed simp
qed

lemma add_bits_counts:
  assumes c0: "md5_count0 ctx = of_nat (8 * l)" and c1: "md5_count1 ctx = of_nat (8 * l div 2 ^ 32)" and n: "n < 2 ^ 32"
  shows "add_bits (of_nat n) ctx = ctx\<lparr>md5_count0 := of_nat (8 * (l + n)), md5_count1 := of_nat (8 * (l + n) div 2 ^ 32)\<rparr>"
proof -
  define bits :: "32 word" where "bits = of_nat (8 * n)"
  have b: "push_bit 3 (of_nat n) = bits" by (simp add: bits_def push_bit_eq_mult)
  have s: "of_nat (8 * l) + bits = of_nat (8 * (l + n))" by (simp add: bits_def algebra_simps)
  have d: "drop_bit 29 (of_nat n :: 32 word) = of_nat (8 * n div 2 ^ 32)"
  proof -
    have "unat (drop_bit 29 (of_nat n :: 32 word)) = drop_bit 29 (n mod 2 ^ LENGTH(32))"
      by (simp only: unat_drop_bit_eq unat_of_nat)
    also have "\<dots> = n div 2 ^ 29" using n by (simp add: drop_bit_eq_div)
    also have "\<dots> = 8 * n div 2 ^ 32" by simp
    finally show ?thesis by (metis of_nat_unat ucast_id)
  qed
  define x y where "x = 8 * l mod 2 ^ 32" and "y = 8 * n mod 2 ^ 32"
  have "unat (of_nat (8 * (l + n)) :: 32 word) = (x + y) mod 2 ^ 32"
    by (simp add: unat_of_nat x_def y_def mod_add_eq distrib_left del: of_nat_mult of_nat_add)
  moreover have "unat bits = y" by (simp add: bits_def y_def unat_of_nat del: of_nat_mult)
  ultimately have c: "(of_nat (8 * (l + n)) < bits) = (2 ^ 32 \<le> x + y)"
    using carry_iff[of x y] by (simp add: word_less_nat_alt x_def y_def)
  have "8 * (l + n) div 2 ^ 32 = 8 * l div 2 ^ 32 + 8 * n div 2 ^ 32 + (x + y) div 2 ^ 32"
    unfolding x_def y_def distrib_left by (rule div_add1_eq)
  moreover have "(x + y) div 2 ^ 32 = (if 2 ^ 32 \<le> x + y then 1 else 0)"
  proof -
    have "x < 2 ^ 32" "y < 2 ^ 32" by (simp_all add: x_def y_def)
    then have "(x + y) div 2 ^ 32 < 2" by (simp add: less_mult_imp_div_less)
    then show ?thesis using div_less[of "x + y" "2 ^ 32"] div_le_mono[of "2 ^ 32" "x + y" "2 ^ 32"] by (auto simp: not_le)
  qed
  ultimately have e: "of_nat (8 * (l + n) div 2 ^ 32)
    = (if 2 ^ 32 \<le> x + y then md5_count1 ctx + 1 else md5_count1 ctx) + (drop_bit 29 (of_nat n) :: 32 word)"
    unfolding c1 d by (simp del: of_nat_mult)
  show ?thesis
    unfolding add_bits_def Let_def b c0 s c e[symmetric] by (rule refl)
qed


section \<open>Updates\<close>

lemma unat_small: "n < 2 ^ 32 \<Longrightarrow> unat (of_nat n :: 32 word) = n"
  by (simp add: unat_of_nat)

lemma transform_loop_runs:
  assumes n: "n + 64 \<le> 2 ^ 32" and l: "n \<le> length inp"
  shows "i \<le> n \<Longrightarrow> transform_loop inp (of_nat n) (of_nat i) (regs_list r) =
    Some (regs_list (foldl ref_block r (blocks64 (drop i (take n inp)))), of_nat (i + 64 * ((n - i) div 64)))"
proof (induction "n - i" arbitrary: i r rule: less_induct)
  case less
  have i: "unat (of_nat i :: 32 word) = i" using less.prems n by (intro unat_small) simp
  have "unat (of_nat (i + 63) :: 32 word) = i + 63"
    using less.prems n by (intro unat_small) simp
  moreover have "unat (of_nat n :: 32 word) = n" using n by (intro unat_small) simp
  ultimately have c: "(of_nat i + 63 < (of_nat n :: 32 word)) = (i + 63 < n)"
    by (simp add: word_less_nat_alt)
  have len: "length (drop i (take n inp)) = n - i" using l by simp
  show ?case
  proof (cases "i + 63 < n")
    case True
    have t: "take 64 (drop i (take n inp)) = take 64 (drop i inp)"
      using True by (simp add: take_drop min_def)
    have b: "blocks64 (drop i (take n inp)) = take 64 (drop i inp) # blocks64 (drop (i + 64) (take n inp))"
      using blocks64_long[of "drop i (take n inp)"] True len by (simp add: t add.commute)
    have k: "i + 64 * ((n - i) div 64) = i + 64 + 64 * ((n - (i + 64)) div 64)"
      using le_div_geq[of 64 "n - i"] True by simp
    have "md5_transform (regs_list r) (take 64 (drop i inp)) = regs_list (ref_block r (take 64 (drop i inp)))"
      using True l by (intro transform_ref) simp
    then show ?thesis
      using less.hyps[of "i + 64" "ref_block r (take 64 (drop i inp))"] True c i l
      by (subst transform_loop.simps) (simp add: b k)
  next
    case False
    then have "blocks64 (drop i (take n inp)) = []" using len by (intro blocks64_short) linarith
    moreover have "(n - i) div 64 = 0" using False by (intro div_less) linarith
    ultimately show ?thesis using False c by (subst transform_loop.simps) simp
  qed
qed

definition md5_holds :: "8 word list \<Rightarrow> md5_context \<Rightarrow> bool" where
  "md5_holds msg ctx \<longleftrightarrow>
     length (md5_buffer ctx) = 64 \<and>
     md5_state ctx = regs_list (foldl ref_block ref_start (blocks64 msg)) \<and>
     take (length msg mod 64) (md5_buffer ctx) = tail64 msg \<and>
     md5_count0 ctx = of_nat (8 * length msg) \<and>
     md5_count1 ctx = of_nat (8 * length msg div 2 ^ 32)"

lemma init_holds: "length (md5_buffer ctx) = 64 \<Longrightarrow> md5_holds [] (md5_init ctx)"
  by (simp add: md5_holds_def md5_init_def blocks64_short tail64_short regs_list_def ref_start_def)

lemma length_memcpy_at: "i + length src \<le> length dst \<Longrightarrow> length (memcpy_at i src dst) = length dst"
  by (simp add: memcpy_at_def)

lemma take_memcpy_at: "i \<le> length dst \<Longrightarrow> take (i + length src) (memcpy_at i src dst) = take i dst @ src"
  by (simp add: memcpy_at_def)

lemma buffer_rest_copies:
  assumes "n < 2 ^ 32" "i \<le> n" "j < 64" "n \<le> length inp" "j + (n - i) \<le> length (md5_buffer ctx)"
  shows "md5_buffer_rest inp (of_nat n) (of_nat i) (of_nat j) ctx =
    Some (ctx\<lparr>md5_buffer := memcpy_at j (drop i (take n inp)) (md5_buffer ctx)\<rparr>)"
proof -
  have u: "unat (of_nat n - of_nat i :: 32 word) = n - i"
    using assms by (simp add: of_nat_diff[symmetric] unat_small del: of_nat_diff)
  have ij: "unat (of_nat i :: 32 word) = i" "unat (of_nat j :: 32 word) = j" using assms by (simp_all add: unat_small)
  show ?thesis using assms by (simp add: md5_buffer_rest_def u ij drop_take)
qed

lemma append_short:
  assumes "length (tail64 msg) + length x < 64"
  shows "blocks64 (msg @ x) = blocks64 msg" "tail64 (msg @ x) = tail64 msg @ x"
  using assms by (simp_all add: blocks64_append[of msg] blocks64_short tail64_append[of msg] tail64_short)

lemma append_long:
  assumes "part = 64 - length (tail64 msg)" "part \<le> length x"
  shows "blocks64 (msg @ x) = blocks64 msg @ (tail64 msg @ take part x) # blocks64 (drop part x)"
    and "tail64 (msg @ x) = tail64 (drop part x)"
proof -
  have "length (tail64 msg) < 64" by (simp add: length_tail64)
  then have l: "64 \<le> length (tail64 msg @ x)" and p: "length (tail64 msg) + part = 64" using assms by simp_all
  note e = assms(1)[symmetric]
  show "blocks64 (msg @ x) = blocks64 msg @ (tail64 msg @ take part x) # blocks64 (drop part x)"
    using p by (simp add: blocks64_append[of msg] blocks64_long[OF l] e)
  show "tail64 (msg @ x) = tail64 (drop part x)"
    using p by (simp add: tail64_append[of msg] tail64_long[OF l] e)
qed

lemma mod_of_tail: "length (tail64 msg) < 64 \<Longrightarrow> length (msg @ x) mod 64 = (length (tail64 msg) + length x) mod 64"
  by (simp add: length_tail64 mod_add_left_eq)

definition counted :: "nat \<Rightarrow> md5_context \<Rightarrow> md5_context" where
  "counted l ctx = ctx\<lparr>md5_count0 := of_nat (8 * l), md5_count1 := of_nat (8 * l div 2 ^ 32)\<rparr>"

lemma counted_simps [simp]:
  "md5_buffer (counted l ctx) = md5_buffer ctx" "md5_state (counted l ctx) = md5_state ctx"
  by (simp_all add: counted_def)

lemma update_start:
  assumes h: "md5_holds msg ctx" and n: "n + 64 \<le> 2 ^ 32" and j: "j = length msg mod 64"
  shows "buffer_index (md5_count0 ctx) = of_nat j" "add_bits (of_nat n) ctx = counted (length msg + n) ctx"
    "64 - of_nat j = (of_nat (64 - j) :: 32 word)" "(of_nat (64 - j) \<le> (of_nat n :: 32 word)) = (64 - j \<le> n)"
proof -
  show "buffer_index (md5_count0 ctx) = of_nat j"
    using h index_of_count[of "length msg"] by (simp add: md5_holds_def j)
  show "add_bits (of_nat n) ctx = counted (length msg + n) ctx"
    unfolding counted_def using h n by (intro add_bits_counts) (simp_all add: md5_holds_def)
  have "j < 64" by (simp add: j)
  then show "64 - of_nat j = (of_nat (64 - j) :: 32 word)" by simp
  have "unat (of_nat (64 - j) :: 32 word) = 64 - j" by (intro unat_small) simp
  moreover have "unat (of_nat n :: 32 word) = n" using n by (intro unat_small) simp
  ultimately show "(of_nat (64 - j) \<le> (of_nat n :: 32 word)) = (64 - j \<le> n)"
    by (simp only: word_le_nat_alt)
qed

lemma update_short:
  assumes h: "md5_holds msg ctx" and n: "n + 64 \<le> 2 ^ 32" and l: "n \<le> length inp" and s: "length msg mod 64 + n < 64"
  shows "\<exists>ctx'. md5_update inp (of_nat n) ctx = Some ctx' \<and> md5_holds (msg @ take n inp) ctx'"
proof -
  define j where "j = length msg mod 64"
  define x where "x = take n inp"
  define ctx' where "ctx' = counted (length msg + n) ctx\<lparr>md5_buffer := memcpy_at j x (md5_buffer ctx)\<rparr>"
  have x: "length x = n" using l by (simp add: x_def)
  have c: "length (md5_buffer ctx) = 64" "take j (md5_buffer ctx) = tail64 msg"
    using h by (simp_all add: md5_holds_def j_def)
  have nf: "\<not> 64 - j \<le> n" using s by (simp add: j_def)
  have "md5_update inp (of_nat n) ctx = Some ctx'"
    using buffer_rest_copies[of n 0 j inp "counted (length msg + n) ctx"] n l c s
    by (simp add: md5_update_def Let_def update_start[OF h n j_def] nf x_def ctx'_def) (simp add: j_def)
  moreover have "length (tail64 msg) + length x < 64" using s x by (simp add: length_tail64)
  note append_short[OF this]
  moreover have "length (msg @ x) mod 64 = j + n" using s x mod_of_tail[of msg x] by (simp add: length_tail64 j_def)
  moreover have "take (j + n) (memcpy_at j x (md5_buffer ctx)) = tail64 msg @ x"
    using take_memcpy_at[of j "md5_buffer ctx" x] c x s by (simp add: j_def)
  ultimately have "md5_holds (msg @ x) ctx'"
    using h c s x by (simp add: md5_holds_def ctx'_def counted_def length_memcpy_at j_def)
  with \<open>md5_update inp (of_nat n) ctx = Some ctx'\<close> show ?thesis by (auto simp: x_def)
qed


lemma take_memcpy_0: "take (length src) (memcpy_at 0 src dst) = src"
  using take_memcpy_at[of 0 dst src] by simp

lemma update_long:
  assumes h: "md5_holds msg ctx" and n: "n + 64 \<le> 2 ^ 32" and l: "n \<le> length inp" and s: "64 \<le> length msg mod 64 + n"
  shows "\<exists>ctx'. md5_update inp (of_nat n) ctx = Some ctx' \<and> md5_holds (msg @ take n inp) ctx'"
proof -
  define j where "j = length msg mod 64"
  define part where "part = 64 - j"
  define x where "x = take n inp"
  define r where "r = foldl ref_block ref_start (blocks64 msg)"
  define buf where "buf = tail64 msg @ take part x"
  define k where "k = part + 64 * ((n - part) div 64)"
  define st where "st = regs_list (foldl ref_block (ref_block r buf) (blocks64 (drop part x)))"
  define ctx1 where "ctx1 = counted (length msg + n) ctx\<lparr>md5_state := st, md5_buffer := buf\<rparr>"
  have x: "length x = n" using l by (simp add: x_def)
  have tl: "length (tail64 msg) = j" by (simp add: length_tail64 j_def)
  have j: "j < 64" and part: "part \<le> n" "0 < part" "j + part = 64" using s by (simp_all add: j_def part_def)
  have c: "length (md5_buffer ctx) = 64" "md5_state ctx = regs_list r" "take j (md5_buffer ctx) = tail64 msg"
    using h by (simp_all add: md5_holds_def j_def r_def)
  have lb: "length buf = 64" using part x tl by (simp add: buf_def)
  have mb: "memcpy_at j (take part inp) (md5_buffer ctx) = buf"
    using part c l by (simp add: memcpy_at_def buf_def x_def min_absorb1)
  have kn: "k \<le> n" "n - k = (n - part) mod 64"
    using part by (simp_all add: k_def minus_mult_div_eq_mod[symmetric])
  have run: "transform_loop inp (of_nat n) (of_nat part) (md5_transform (regs_list r) buf) = Some (st, of_nat k)"
    using transform_loop_runs[OF n l part(1), of "ref_block r buf"] by (simp add: transform_ref[OF lb] st_def k_def x_def)
  have rest: "md5_buffer_rest inp (of_nat n) (of_nat k) 0 ctx1 = Some (ctx1\<lparr>md5_buffer := memcpy_at 0 (drop k x) buf\<rparr>)"
    using buffer_rest_copies[of n k 0 inp ctx1] n l kn lb by (simp add: ctx1_def x_def)
  have up: "unat (of_nat part :: 32 word) = part" "unat (of_nat j :: 32 word) = j"
    using part j by (simp_all add: unat_small)
  note start = update_start[OF h n j_def, folded part_def]
  have "md5_update inp (of_nat n) ctx = Some (ctx1\<lparr>md5_buffer := memcpy_at 0 (drop k x) buf\<rparr>)"
    using part l by (simp add: md5_update_def Let_def start up mb c run rest[unfolded ctx1_def] ctx1_def)
  moreover have "md5_holds (msg @ x) (ctx1\<lparr>md5_buffer := memcpy_at 0 (drop k x) buf\<rparr>)"
  proof -
    have p: "part = 64 - length (tail64 msg)" "part \<le> length x" using part tl x by simp_all
    have t: "tail64 (drop part x) = drop k x" using x by (simp add: tail64_def k_def add.commute)
    have m: "(j + n) mod 64 = length (drop k x)"
    proof -
      have "j + n = 64 + (n - part)" using part by simp
      then show ?thesis using kn x by simp
    qed
    have "length (msg @ x) mod 64 = length (drop k x)"
      using mod_of_tail[of msg x] j tl x m by simp
    moreover have "length (drop k x) \<le> length buf" using kn x lb by simp
    ultimately show ?thesis
      using x lb take_memcpy_0[of "drop k x" buf]
      by (simp add: md5_holds_def ctx1_def counted_def st_def length_memcpy_at append_long[OF p] t buf_def[symmetric] r_def)
  qed
  ultimately show ?thesis by (auto simp: x_def)
qed

lemma update_holds:
  assumes "md5_holds msg ctx" "n + 64 \<le> 2 ^ 32" "n \<le> length inp"
  shows "\<exists>ctx'. md5_update inp (of_nat n) ctx = Some ctx' \<and> md5_holds (msg @ take n inp) ctx'"
  using update_short[OF assms] update_long[OF assms] by (cases "length msg mod 64 + n < 64") auto


section \<open>Finishing\<close>

lemma byte_of_mod: "k + 8 \<le> 32 \<Longrightarrow> (of_nat (n mod 2 ^ 32 div 2 ^ k) :: 8 word) = of_nat (n div 2 ^ k)"
proof -
  assume k: "k + 8 \<le> 32"
  have "n mod 2 ^ 32 div 2 ^ k mod 2 ^ 8 = n div 2 ^ k mod 2 ^ (32 - k) mod 2 ^ 8"
    using drop_bit_take_bit[of k 32 n] by (simp add: take_bit_eq_mod drop_bit_eq_div)
  also have "\<dots> = n div 2 ^ k mod 2 ^ 8"
    using k by (intro mod_mod_cancel le_imp_power_dvd) simp
  finally show ?thesis by (simp add: word_unat_eq_iff unat_of_nat)
qed

lemma length_bytes:
  assumes "c0 = of_nat n" "c1 = of_nat (n div 2 ^ 32)"
  shows "md5_encode [c0, c1] 8 = le_bytes 8 n"
proof -
  have u: "unat c0 = n mod 2 ^ 32" "unat c1 = n div 2 ^ 32 mod 2 ^ 32" using assms by (simp_all add: unat_of_nat)
  have l4: "le_bytes 4 m = [of_nat m, of_nat (m div 2 ^ 8), of_nat (m div 2 ^ 16), of_nat (m div 2 ^ 24)]" for m
    by (simp add: le_bytes_def upt_rec)
  have l8: "le_bytes 8 n = le_bytes 4 n @ le_bytes 4 (n div 2 ^ 32)"
    by (simp add: le_bytes_def upt_rec div_mult2_eq[symmetric])
  have m: "le_bytes 4 (m mod 4294967296) = le_bytes 4 m" for m
    unfolding l4 using byte_of_mod[of 0 m] byte_of_mod[of 8 m] byte_of_mod[of 16 m] byte_of_mod[of 24 m] by simp
  show ?thesis using encode_words[of "[c0, c1]"] by (simp add: u m l8 del: md5_encode.simps)
qed

lemma pad_bytes:
  assumes j: "j < 64" and pl: "pl = (if j < 56 then 56 - j else 120 - j)"
  shows "pl \<le> 64" "take pl md5_padding = 0x80 # replicate ((119 - j) mod 64) 0"
proof -
  have m: "(119 - j) mod 64 = pl - 1"
  proof (cases "j < 56")
    case True
    then show ?thesis using le_mod_geq[of 64 "119 - j"] by (simp add: pl)
  qed (use j pl in simp)
  show l: "pl \<le> 64" using j unfolding pl by (cases "j < 56") simp_all
  have "0 < pl" using j by (simp add: pl)
  then show "take pl md5_padding = 0x80 # replicate ((119 - j) mod 64) 0"
    using l unfolding m md5_padding_def by (cases pl) (simp_all add: min_def)
qed

lemma final_holds:
  assumes h: "md5_holds msg (md5_ctx m)"
  shows "md5_final m = Some \<lparr>md5_ctx = zero_context, digest_raw = ref_md5 msg, digest_chars = write_to_string (ref_md5 msg)\<rparr>"
proof -
  define j where "j = length msg mod 64"
  define pl where "pl = (if j < 56 then 56 - j else 120 - j)"
  let ?ctx = "md5_ctx m" and ?bits = "le_bytes 8 (8 * length msg)"
  have j: "j < 64" by (simp add: j_def)
  note pad = pad_bytes[OF j pl_def]
  have c: "md5_count0 ?ctx = of_nat (8 * length msg)" "md5_count1 ?ctx = of_nat (8 * length msg div 2 ^ 32)"
    using h by (simp_all add: md5_holds_def)
  have i: "buffer_index (md5_count0 ?ctx) = of_nat j" unfolding c index_of_count j_def ..
  have jl: "(of_nat j < (56 :: 32 word)) = (j < 56)"
    using unat_small[of j] j by (simp add: word_less_nat_alt)
  have p: "(if of_nat j < (56 :: 32 word) then 56 - of_nat j else 120 - of_nat j) = (of_nat pl :: 32 word)"
    unfolding jl pl_def using j by simp
  have bits: "md5_encode [md5_count0 ?ctx, md5_count1 ?ctx] 8 = ?bits" by (rule length_bytes[OF c])
  obtain ctx1 where u1: "md5_update md5_padding (of_nat pl) ?ctx = Some ctx1" and h1: "md5_holds (msg @ take pl md5_padding) ctx1"
    using update_holds[OF h, of pl md5_padding] pad(1) by (auto simp: md5_padding_def)
  have lb: "length ?bits = 8" by (simp add: le_bytes_def)
  obtain ctx2 where u2: "md5_update ?bits 8 ctx1 = Some ctx2" and h2: "md5_holds ((msg @ take pl md5_padding) @ ?bits) ctx2"
    using update_holds[OF h1, of 8 ?bits] lb by auto
  have "(msg @ take pl md5_padding) @ ?bits = ref_pad msg" by (simp add: pad(2) ref_pad_def j_def)
  then have st: "md5_state ctx2 = regs_list (foldl ref_block ref_start (blocks64 (ref_pad msg)))"
    using h2 by (simp add: md5_holds_def)
  have "md5_encode (md5_state ctx2) 16 = ref_md5 msg"
  proof (cases "foldl ref_block ref_start (blocks64 (ref_pad msg))")
    case (fields a b c d)
    then show ?thesis using encode_words[of "[a, b, c, d]"] st by (simp add: ref_md5_def regs_list_def del: md5_encode.simps)
  qed
  then show ?thesis unfolding md5_final_def Let_def i p bits by (simp add: u1 u2)
qed

lemma update_file_holds: "md5_holds msg ctx \<Longrightarrow> \<exists>ctx'. update_file bs ctx = Some ctx' \<and> md5_holds (msg @ bs) ctx'"
proof (induction bs ctx arbitrary: msg rule: update_file.induct)
  case (1 bs ctx)
  show ?case
  proof (cases "bs = []")
    case False
    have l: "length (take 1024 bs) + 64 \<le> 2 ^ 32"
      by (rule order.trans[of _ "1024 + 64"]) simp_all
    have "\<exists>ctx1. md5_update (take 1024 bs) (of_nat (length (take 1024 bs))) ctx = Some ctx1 \<and> md5_holds (msg @ take 1024 bs) ctx1"
      using update_holds[OF "1.prems" l order.refl] by (simp only: take_all[OF order.refl])
    then obtain ctx1 where u: "md5_update (take 1024 bs) (of_nat (length (take 1024 bs))) ctx = Some ctx1"
      and h: "md5_holds (msg @ take 1024 bs) ctx1" by (elim exE conjE)
    show ?thesis using "1.IH"[OF False u h] False u by (simp add: update_file.simps[of bs ctx])
  qed (use "1.prems" in \<open>simp add: update_file.simps\<close>)
qed

section \<open>The digests\<close>

lemma digest_of_ref:
  assumes "length (md5_buffer (md5_ctx m)) = 64" "n + 64 \<le> 2 ^ 32" "n \<le> length inp"
  shows "digest_of inp (of_nat n) m = Some \<lparr>md5_ctx = zero_context, digest_raw = ref_md5 (take n inp),
    digest_chars = write_to_string (ref_md5 (take n inp))\<rparr>"
  using update_holds[OF init_holds[OF assms(1)] assms(2,3)] final_holds by (auto simp: digest_of_def)

text \<open>
  C23. The digest of a string is the digest RFC 1321 defines: the bytes of the string, padded and cut into blocks,
  each put through the sixty-four steps; written as thirty-two lower-case digits.  The string must be shorter than
  2^32 - 64 bytes, or the subscripts of \<open>Update\<close> wrap.
\<close>
theorem md5_string_reference:
  assumes "length (md5_buffer (md5_ctx m)) = 64" "length (c_string s) + 64 \<le> 2 ^ 32"
  shows "md5_string m (Some s) = Some (True, write_to_string (ref_md5 (c_string s)))"
  using digest_of_ref[of "new_md5 m" "length (c_string s)" "c_string s"] assms
  by (simp add: md5_string_def digest_string_def answer_or_empty_def new_md5_def md5_init_def)

text \<open>
  A file of any length, read in pieces of 1024 bytes, has the digest of its bytes.
\<close>
theorem md5_file_reference:
  assumes "length (md5_buffer (md5_ctx m)) = 64" "f \<noteq> []" "files f = Some bs"
  shows "md5_file files m (Some f) = Some (True, write_to_string (ref_md5 bs))"
proof -
  have "length (md5_buffer (md5_init (md5_ctx m))) = 64" using assms(1) by (simp add: md5_init_def)
  then obtain ctx where "update_file bs (md5_init (md5_init (md5_ctx m))) = Some ctx" "md5_holds bs ctx"
    using update_file_holds[OF init_holds, of "md5_init (md5_ctx m)" bs] by auto
  then show ?thesis
    using assms final_holds[of bs "m\<lparr>md5_ctx := ctx\<rparr>"]
    by (simp add: md5_file_def digest_file_def Let_def new_md5_def answer_or_empty_def)
qed

section \<open>The test vectors of RFC 1321\<close>

definition no_md5 :: md5 where
  "no_md5 = \<lparr>md5_ctx = zero_context, digest_raw = [], digest_chars = []\<rparr>"

lemma macro_step: "macro_steps F x ((k, s, ac) # ks) (a, b, c, d) = macro_steps F x ks (d, F a b c d (x ! k) s ac, b, c)"
  by simp

lemma ref_rounds:
  "ref_steps x [0..<64] r =
    macro_steps II x (map schedule [48..<64]) (macro_steps HH x (map schedule [32..<48])
      (macro_steps GG x (map schedule [16..<32]) (macro_steps FF x (map schedule [0..<16]) r)))"
proof -
  have u: "[0..<64] = [0..<16] @ [16..<32] @ [32..<48] @ [48..<64 :: nat]"
    using upt_add_eq_append[of 0 16 48] upt_add_eq_append[of 16 32 16] upt_add_eq_append[of 32 48 16] upt_add_eq_append[of 16 32 32] by simp
  have r: "ref_steps x [0..<16] = macro_steps FF x (map schedule [0..<16])" "ref_steps x [16..<32] = macro_steps GG x (map schedule [16..<32])"
    "ref_steps x [32..<48] = macro_steps HH x (map schedule [32..<48])" "ref_steps x [48..<64] = macro_steps II x (map schedule [48..<64])"
    by (intro ext ref_macro_steps; erule upt_split; intro ref_step_FF ref_step_GG ref_step_HH ref_step_II; assumption)+
  show ?thesis unfolding u ref_steps_append r ..
qed

lemma abc_words: "le_words (ref_pad (c_string ''abc'')) = [0x80636261, 0, 0, 0, 0, 0, 0, 0, 0, 0, 0, 0, 0, 0, 24, 0]"
proof -
  have s: "c_string ''abc'' = [0x61, 0x62, 0x63]" by (simp add: c_string_def byte8_def code_def)
  have "ref_pad (c_string ''abc'') = [0x61, 0x62, 0x63, 0x80] @ replicate 52 0 @ [24, 0, 0, 0, 0, 0, 0, 0]"
    by (simp add: s ref_pad_def le_bytes_def upt_rec)
  moreover have "((*) 256 ^^ n) (0 :: nat) = 0" for n by (induction n) simp_all
  ultimately show ?thesis by (simp add: le_words_def le_number_def upt_rec)
qed

text \<open>The third test vector of the RFC, evaluated.\<close>

lemma abc_state: "foldl ref_block ref_start (blocks64 (ref_pad (c_string ''abc''))) = (0x98500190, 0xb04fd23c, 0x7d3f96d6, 0x727fe128)"
proof -
  have "length (ref_pad (c_string ''abc'')) = 64" by (simp add: ref_pad_def c_string_def le_bytes_def)
  then have "blocks64 (ref_pad (c_string ''abc'')) = [ref_pad (c_string ''abc'')]"
    by (simp add: blocks64_long blocks64_short)
  then show ?thesis
    by (simp only: foldl.simps ref_block_def abc_words ref_start_def ref_rounds schedule1 schedule2 schedule3 schedule4)
      (simp add: macro_step macro_defs rotate_left_def del: macro_steps.simps(2))
qed

theorem md5_string_reference_witness:
  "md5_string no_md5 (Some ''abc'') = Some (True, ''900150983cd24fb0d6963f7d28e17f72'')"
proof -
  have "ref_md5 (c_string ''abc'') =
    [0x90, 0x01, 0x50, 0x98, 0x3c, 0xd2, 0x4f, 0xb0, 0xd6, 0x96, 0x3f, 0x7d, 0x28, 0xe1, 0x7f, 0x72]"
    by (simp add: ref_md5_def abc_state le_bytes_def upt_rec)
  then have "write_to_string (ref_md5 (c_string ''abc'')) = ''900150983cd24fb0d6963f7d28e17f72''"
    by (simp add: write_to_string_def hex_digit_def char_of_def bit_Suc_0_iff)
  moreover have "length (md5_buffer (md5_ctx no_md5)) = 64" by (simp add: no_md5_def zero_context_def)
  ultimately show ?thesis
    using md5_string_reference[of no_md5 "''abc''"] by (simp add: c_string_def)
qed

theorem md5_file_reference_witness:
  "md5_file (\<lambda>f. if f = ''a'' then Some (c_string ''abc'') else None) no_md5 (Some ''a'') =
    Some (True, write_to_string (ref_md5 (c_string ''abc'')))"
  by (rule md5_file_reference) (simp_all add: no_md5_def zero_context_def)

end
