(* ===== verification/HmmFile.thy ===== *)
theory HmmFile
  imports Hmm StrUtil IniConf
begin

text \<open>
  Reading the model of the decoder from its file (\<open>src/utils/cppjieba/HMMModel.hpp\<close>): one line of start
  probabilities, four of transitions, and four of emissions, with blank lines and comments between them.
  \<open>atof\<close> on doubles is a parameter.  A failed check ends the program: \<open>None\<close>.
\<close>

section \<open>The reader\<close>

text \<open>\<open>GetLine\<close>: the next line that is neither blank nor a comment, and the lines after it.\<close>

fun get_line :: "string list \<Rightarrow> (string \<times> string list) option" where
  "get_line [] = None"
| "get_line (l # ls) =
     (let line = trim l in
      if line = [] then get_line ls else if starts_with line ''#'' then get_line ls else Some (line, ls))"

text \<open>The loop of \<open>LoadEmitProb\<close> over the entries; what it stored before an illegal entry stays.\<close>

fun emit_entries :: "(string \<Rightarrow> 'w) \<Rightarrow> string list \<Rightarrow> (rune \<rightharpoonup> 'w) \<Rightarrow> (rune \<rightharpoonup> 'w) \<times> bool" where
  "emit_entries atof [] mp = (mp, True)"
| "emit_entries atof (t # ts) mp =
     (let tmp2 = split_str t '':'' None in
      if length tmp2 \<noteq> 2 then (mp, False)
      else case decode_unicode (tmp2 ! 0) of (unicode, ok) \<Rightarrow>
        if \<not> ok \<or> length unicode \<noteq> 1 then (mp, False)
        else emit_entries atof ts (mp(unicode ! 0 \<mapsto> atof (tmp2 ! 1))))"

definition load_emit_prob :: "(string \<Rightarrow> 'w) \<Rightarrow> string \<Rightarrow> (rune \<rightharpoonup> 'w) \<Rightarrow> (rune \<rightharpoonup> 'w) \<times> bool" where
  "load_emit_prob atof line mp = (if line = [] then (mp, False) else emit_entries atof (split_str line '','' None) mp)"

definition read_probs :: "(string \<Rightarrow> 'w) \<Rightarrow> string list \<Rightarrow> ('w list \<times> string list) option" where
  "read_probs atof ls =
     (case get_line ls of None \<Rightarrow> None
      | Some (line, ls) \<Rightarrow>
          let tmp = split_str line '' '' None in if length tmp = STATUS_SUM then Some (map atof tmp, ls) else None)"

fun read_rows :: "(string \<Rightarrow> 'w) \<Rightarrow> nat \<Rightarrow> string list \<Rightarrow> ('w list list \<times> string list) option" where
  "read_rows atof 0 ls = Some ([], ls)"
| "read_rows atof (Suc n) ls =
     (case read_probs atof ls of None \<Rightarrow> None
      | Some (row, ls) \<Rightarrow> map_option (\<lambda>(rows, ls). (row # rows, ls)) (read_rows atof n ls))"

fun read_emits :: "(string \<Rightarrow> 'w) \<Rightarrow> nat \<Rightarrow> string list \<Rightarrow> ((rune \<rightharpoonup> 'w) list \<times> string list) option" where
  "read_emits atof 0 ls = Some ([], ls)"
| "read_emits atof (Suc n) ls =
     (case get_line ls of None \<Rightarrow> None
      | Some (line, ls) \<Rightarrow>
          (case load_emit_prob atof line Map.empty of
             (mp, False) \<Rightarrow> None
           | (mp, True) \<Rightarrow> map_option (\<lambda>(mps, ls). (mp # mps, ls)) (read_emits atof n ls)))"

definition load_lines_model :: "(string \<Rightarrow> 'w) \<Rightarrow> string list \<Rightarrow> 'w hmm_model option" where
  "load_lines_model atof ls =
     (case read_probs atof ls of None \<Rightarrow> None | Some (start, ls) \<Rightarrow>
      case read_rows atof STATUS_SUM ls of None \<Rightarrow> None | Some (rows, ls) \<Rightarrow>
      case read_emits atof STATUS_SUM ls of None \<Rightarrow> None | Some (emits, ls) \<Rightarrow>
      Some \<lparr>start_prob = start, trans_prob = rows, emit_prob = emits\<rparr>)"

definition load_model :: "(string \<Rightarrow> 'w) \<Rightarrow> (string \<Rightarrow> string option) \<Rightarrow> string \<Rightarrow> 'w hmm_model option" where
  "load_model atof files path =
     (case files path of None \<Rightarrow> None | Some content \<Rightarrow> load_lines_model atof (split_lines content 0))"

section \<open>The shape of a model\<close>

definition model_shape :: "'w hmm_model \<Rightarrow> bool" where
  "model_shape m \<longleftrightarrow> length (start_prob m) = STATUS_SUM \<and> length (trans_prob m) = STATUS_SUM \<and>
     (\<forall>row \<in> set (trans_prob m). length row = STATUS_SUM) \<and> length (emit_prob m) = STATUS_SUM"

lemma read_probs_length: "read_probs atof ls = Some (row, ls') \<Longrightarrow> length row = STATUS_SUM"
  by (auto simp: read_probs_def Let_def split: option.splits if_splits)

lemma read_rows_shape:
  "read_rows atof n ls = Some (rows, ls') \<Longrightarrow> length rows = n \<and> (\<forall>row \<in> set rows. length row = STATUS_SUM)"
  by (induction n arbitrary: ls rows ls') (auto dest: read_probs_length split: option.splits)

lemma read_emits_length: "read_emits atof n ls = Some (mps, ls') \<Longrightarrow> length mps = n"
  by (induction n arbitrary: ls mps ls') (auto split: option.splits prod.splits bool.splits)

text \<open>
  C31. A model that is loaded has the shape the decoder relies on: four start probabilities, four rows of four
  transitions and four maps of emissions, so that no subscript of \<open>Viterbi\<close> leaves its array.
\<close>

theorem load_model_shape: "load_model atof files path = Some m \<Longrightarrow> model_shape m"
proof -
  assume "load_model atof files path = Some m"
  then obtain ls start ls1 rows ls2 emits ls3 where
    "read_probs atof ls = Some (start, ls1)" "read_rows atof STATUS_SUM ls1 = Some (rows, ls2)"
    "read_emits atof STATUS_SUM ls2 = Some (emits, ls3)" "m = \<lparr>start_prob = start, trans_prob = rows, emit_prob = emits\<rparr>"
    by (auto simp: load_model_def load_lines_model_def split: option.splits)
  then show ?thesis
    using read_probs_length read_rows_shape read_emits_length by (fastforce simp: model_shape_def)
qed

section \<open>Writing a model and reading it back\<close>

text \<open>What a writer of the file must keep: numbers without white space, commas, colons and hash marks.\<close>

definition plain_text :: "string \<Rightarrow> bool" where
  "plain_text t \<longleftrightarrow> t \<noteq> [] \<and> set t \<inter> {CHR '' '', CHR '','', CHR '':'', CHR ''#''} = {}"

definition row_text :: "('w \<Rightarrow> string) \<Rightarrow> 'w list \<Rightarrow> string" where
  "row_text shown ws = join_str (map shown ws) '' ''"

definition entry_text :: "('w \<Rightarrow> string) \<Rightarrow> nat \<times> 'w \<Rightarrow> string" where
  "entry_text shown = (\<lambda>(n, w). join_str [utf8 n, shown w] '':'')"

definition emit_text :: "('w \<Rightarrow> string) \<Rightarrow> (nat \<times> 'w) list \<Rightarrow> string" where
  "emit_text shown es = join_str (map (entry_text shown) es) '',''"

definition emit_map :: "(nat \<times> 'w) list \<Rightarrow> (rune \<rightharpoonup> 'w)" where
  "emit_map es = map_of (rev (map (\<lambda>(n, w). (of_nat n, w)) es))"

text \<open>The lines \<open>GetLine\<close> gives.\<close>

definition useful :: "string list \<Rightarrow> string list" where
  "useful ls = filter (\<lambda>l. l \<noteq> [] \<and> \<not> starts_with l ''#'') (map trim ls)"

lemma get_line_useful: "useful ls = l # rest \<Longrightarrow> \<exists>ls'. get_line ls = Some (l, ls') \<and> useful ls' = rest"
  by (induction ls) (auto simp: useful_def Let_def split: if_splits)

lemma split_join_pieces:
  assumes "\<forall>x \<in> set xs. d \<notin> set x" "xs \<noteq> []" "last xs \<noteq> []"
  shows "split_str (join_str xs [d]) [d] None = xs"
  using assms pieces_join[of xs "\<lambda>c. c \<in> set [d]" d] by (auto simp: split_str_def split_loop_pieces)

lemma high_char: "128 \<le> k \<Longrightarrow> k < 256 \<Longrightarrow> 128 \<le> code (char_of (k :: nat))"
  by (simp add: code_def)

lemma cont_char: "128 \<le> code (char_of (128 + k mod 64 :: nat))"
  by (rule high_char) (simp, use mod_less_divisor[of 64 k] in linarith)

lemma lead_char: "k < m \<Longrightarrow> 128 \<le> a \<Longrightarrow> a + m \<le> 256 \<Longrightarrow> 128 \<le> code (char_of (a + k :: nat))"
  by (rule high_char) simp_all

lemma utf8_high:
  assumes "128 \<le> n" "n < 2 ^ 21"
  shows "\<forall>c \<in> set (utf8 n). 128 \<le> code c"
proof -
  consider "n < 0x800" | "\<not> n < 0x800" "n < 0x10000" | "\<not> n < 0x800" "\<not> n < 0x10000" by blast
  then show ?thesis
  proof cases
    case 1
    then have "n div 64 < 32" by (simp add: div_less_iff_less_mult)
    from lead_char[OF this, of "0xc0"] cont_char[of n] show ?thesis using 1 assms(1) by (simp add: utf8_def)
  next
    case 2
    then have "n div 4096 < 16" by (simp add: div_less_iff_less_mult)
    from lead_char[OF this, of "0xe0"] cont_char[of n] cont_char[of "n div 64"] show ?thesis
      using 2 assms(1) by (simp add: utf8_def)
  next
    case 3
    have "n div 262144 < 8" using assms(2) by (simp add: div_less_iff_less_mult)
    from lead_char[OF this, of "0xf0"] cont_char[of n] cont_char[of "n div 64"] cont_char[of "n div 4096"] show ?thesis
      using 3 assms(1) by (simp add: utf8_def)
  qed
qed

lemma utf8_plain: "128 \<le> n \<Longrightarrow> n < 2 ^ 21 \<Longrightarrow> plain_text (utf8 n)"
proof -
  assume n: "128 \<le> n" "n < 2 ^ 21"
  have "utf8 n \<noteq> []" by (simp add: utf8_def)
  moreover have "c \<notin> set (utf8 n)" if "code c < 128" for c using utf8_high[OF n] that by (auto simp: not_less[symmetric])
  ultimately show ?thesis by (simp add: plain_text_def code_def)
qed

definition entries_ok :: "('w \<Rightarrow> string) \<Rightarrow> (nat \<times> 'w) list \<Rightarrow> bool" where
  "entries_ok shown es \<longleftrightarrow> es \<noteq> [] \<and> (\<forall>(n, w) \<in> set es. 128 \<le> n \<and> n < 2 ^ 21 \<and> plain_text (shown w))"

lemma read_row:
  assumes "\<forall>w \<in> set ws. plain_text (shown w) \<and> atof (shown w) = w" "length ws = STATUS_SUM" "useful ls = row_text shown ws # rest"
  shows "\<exists>ls'. read_probs atof ls = Some (ws, ls') \<and> useful ls' = rest"
proof -
  obtain ls' where ls': "get_line ls = Some (row_text shown ws, ls')" "useful ls' = rest"
    using get_line_useful[OF assms(3)] by blast
  have ne: "ws \<noteq> []" using assms(2) by (auto simp: STATUS_SUM_def)
  have "split_str (row_text shown ws) '' '' None = map shown ws"
    unfolding row_text_def using assms(1) ne
    by (intro split_join_pieces) (auto simp: plain_text_def last_map)
  moreover have "map atof (map shown ws) = ws" using assms(1) by (simp add: map_idI)
  ultimately show ?thesis using ls' assms(2) by (simp add: read_probs_def)
qed

lemma read_all_rows:
  "\<forall>ws \<in> set rows. length ws = STATUS_SUM \<and> (\<forall>w \<in> set ws. plain_text (shown w) \<and> atof (shown w) = w) \<Longrightarrow>
    useful ls = map (row_text shown) rows @ rest \<Longrightarrow>
    \<exists>ls'. read_rows atof (length rows) ls = Some (rows, ls') \<and> useful ls' = rest"
proof (induction rows arbitrary: ls)
  case (Cons ws rows)
  obtain ls1 where "read_probs atof ls = Some (ws, ls1)" "useful ls1 = map (row_text shown) rows @ rest"
    using read_row[of ws shown atof ls "map (row_text shown) rows @ rest"] Cons.prems by auto
  then show ?case using Cons.IH[of ls1] Cons.prems(1) by auto
qed simp

lemma decode_one: "n < 2 ^ 21 \<Longrightarrow> decode_unicode (utf8 n) = ([of_nat n], True)"
  using decode_from_utf8[of "[n]" "[]" 0]
  by (auto simp: decode_unicode_def decode_runes_def split: option.splits)

lemma emit_entries_text:
  "\<forall>(n, w) \<in> set es. 128 \<le> n \<and> n < 2 ^ 21 \<and> plain_text (shown w) \<and> atof (shown w) = w \<Longrightarrow>
    emit_entries atof (map (entry_text shown) es) mp = (mp ++ emit_map es, True)"
proof (induction es arbitrary: mp)
  case (Cons e es)
  obtain n w where e: "e = (n, w)" by fastforce
  have n: "128 \<le> n" "n < 2 ^ 21" "plain_text (shown w)" "atof (shown w) = w" using Cons.prems by (auto simp: e)
  have "split_str (entry_text shown e) '':'' None = [utf8 n, shown w]"
    unfolding e entry_text_def prod.case using utf8_plain[OF n(1,2)] n(3)
    by (intro split_join_pieces) (auto simp: plain_text_def)
  moreover have "(mp(of_nat n \<mapsto> w)) ++ emit_map es = mp ++ emit_map (e # es)"
    by (simp add: e emit_map_def map_add_def fun_eq_iff split: option.split)
  moreover have "emit_entries atof (map (entry_text shown) es) (mp(of_nat n \<mapsto> w)) = ((mp(of_nat n \<mapsto> w)) ++ emit_map es, True)"
    by (rule Cons.IH) (use Cons.prems in simp)
  ultimately show ?case using decode_one[OF n(2)] n(4) by (simp del: fun_upd_apply)
qed (simp add: emit_map_def)

lemma comma_free:
  assumes "128 \<le> n" "n < 2 ^ 21" "plain_text (shown w)"
  shows "CHR '','' \<notin> set (entry_text shown (n, w))" "entry_text shown (n, w) \<noteq> []"
  using utf8_plain[OF assms(1,2)] assms(3) by (auto simp: entry_text_def plain_text_def)

lemma load_emit_text:
  assumes "entries_ok shown es" "\<forall>(n, w) \<in> set es. atof (shown w) = w"
  shows "load_emit_prob atof (emit_text shown es) Map.empty = (emit_map es, True)"
proof -
  have ok: "\<forall>(n, w) \<in> set es. 128 \<le> n \<and> n < 2 ^ 21 \<and> plain_text (shown w) \<and> atof (shown w) = w" "es \<noteq> []"
    using assms by (auto simp: entries_ok_def)
  have free: "\<forall>x \<in> set (map (entry_text shown) es). CHR '','' \<notin> set x" using ok comma_free by (fastforce simp: split_beta)
  have lst: "last (map (entry_text shown) es) \<noteq> []"
    using ok comma_free(2)[of "fst (last es)" shown "snd (last es)"] by (auto simp: last_map split_beta dest!: last_in_set)
  have "split_str (emit_text shown es) '','' None = map (entry_text shown) es"
    unfolding emit_text_def using free lst ok(2) by (intro split_join_pieces) auto
  moreover have "emit_text shown es \<noteq> []"
    using ok comma_free(2)[of "fst (hd es)" shown "snd (hd es)"] by (cases es) (auto simp: emit_text_def)
  ultimately show ?thesis using emit_entries_text[OF ok(1), of Map.empty] by (simp add: load_emit_prob_def)
qed

lemma read_all_emits:
  "\<forall>es \<in> set ess. entries_ok shown es \<and> (\<forall>(n, w) \<in> set es. atof (shown w) = w) \<Longrightarrow>
    useful ls = map (emit_text shown) ess @ rest \<Longrightarrow>
    \<exists>ls'. read_emits atof (length ess) ls = Some (map emit_map ess, ls') \<and> useful ls' = rest"
proof (induction ess arbitrary: ls)
  case (Cons es ess)
  obtain ls1 where ls1: "get_line ls = Some (emit_text shown es, ls1)" "useful ls1 = map (emit_text shown) ess @ rest"
    using get_line_useful[of ls "emit_text shown es"] Cons.prems(2) by auto
  moreover have "load_emit_prob atof (emit_text shown es) Map.empty = (emit_map es, True)"
    using Cons.prems(1) by (intro load_emit_text) auto
  moreover obtain ls2 where "read_emits atof (length ess) ls1 = Some (map emit_map ess, ls2)" "useful ls2 = rest"
    using Cons.IH[OF _ ls1(2)] Cons.prems(1) by auto
  ultimately show ?case by simp
qed simp

lemma load_model_written:
  assumes "\<forall>ws \<in> set (start # rows). length ws = STATUS_SUM \<and> (\<forall>w \<in> set ws. plain_text (shown w) \<and> atof (shown w) = w)"
    and "\<forall>es \<in> set ess. entries_ok shown es \<and> (\<forall>(n, w) \<in> set es. atof (shown w) = w)"
    and "length rows = STATUS_SUM" "length ess = STATUS_SUM"
    and "files path = Some content"
    and "useful (split_lines content 0) = row_text shown start # map (row_text shown) rows @ map (emit_text shown) ess"
  shows "load_model atof files path = Some \<lparr>start_prob = start, trans_prob = rows, emit_prob = map emit_map ess\<rparr>"
proof -
  obtain ls1 where ls1: "read_probs atof (split_lines content 0) = Some (start, ls1)"
    "useful ls1 = map (row_text shown) rows @ map (emit_text shown) ess"
    using read_row[of start shown atof "split_lines content 0", OF _ _ assms(6)] assms(1) by auto
  obtain ls2 where ls2: "read_rows atof STATUS_SUM ls1 = Some (rows, ls2)" "useful ls2 = map (emit_text shown) ess @ []"
    using read_all_rows[of rows shown atof ls1 "map (emit_text shown) ess"] ls1(2) assms(1,3) by auto
  obtain ls3 where "read_emits atof STATUS_SUM ls2 = Some (map emit_map ess, ls3)"
    using read_all_emits[OF assms(2), of ls2 "[]"] ls2(2) assms(4) by auto
  then show ?thesis using ls1(1) ls2(1) assms(5) by (simp add: load_model_def load_lines_model_def)
qed

text \<open>
  C30. A model written as the file has it, with any blank lines, comments and white space around its lines, is
  read back: the start probabilities, the transitions, and for every state the map of its emissions, where a later
  entry for a rune replaces an earlier one.
\<close>

theorem load_model_roundtrip:
  assumes "\<forall>ws \<in> set (start # rows). length ws = STATUS_SUM \<and> (\<forall>w \<in> set ws. plain_text (shown w) \<and> atof (shown w) = w)"
    and "\<forall>es \<in> set ess. entries_ok shown es \<and> (\<forall>(n, w) \<in> set es. atof (shown w) = w)"
    and "length rows = STATUS_SUM" "length ess = STATUS_SUM"
    and "files path = Some content"
    and "useful (split_lines content 0) = row_text shown start # map (row_text shown) rows @ map (emit_text shown) ess"
  shows "load_model atof files path = Some \<lparr>start_prob = start, trans_prob = rows, emit_prob = map emit_map ess\<rparr>"
  using assms by (rule load_model_written)

section \<open>A concrete model file\<close>

definition ones_lines :: "string list" where
  "ones_lines = [''# start'', '' 1 1 1 1'', [], ''1 1 1 1'', ''1 1 1 1'', ''1 1 1 1'', ''1 1 1 1'', ''#emit'',
     utf8 0x4e2d @ '':1'', utf8 0x4e2d @ '':1'', utf8 0x4e2d @ '':1'', utf8 0x4e2d @ '':1'']"

definition ones_file :: "string \<Rightarrow> string option" where
  "ones_file f = (if f = ''hmm'' then Some (unlines ones_lines) else None)"

lemma utf8_sample: "utf8 0x4e2d = [CHR 0xE4, CHR 0xB8, CHR 0xAD]"
  by (simp add: utf8_def char_of_def bit_iff_odd drop_bit_eq_div numeral_2_eq_2[symmetric]) 

lemma ones_useful:
  "useful (split_lines (unlines ones_lines) 0) = ''1 1 1 1'' # [''1 1 1 1'', ''1 1 1 1'', ''1 1 1 1'', ''1 1 1 1''] @
     [utf8 0x4e2d @ '':1'', utf8 0x4e2d @ '':1'', utf8 0x4e2d @ '':1'', utf8 0x4e2d @ '':1'']"
proof -
  have "split_lines (unlines ones_lines) 0 = ones_lines"
    by (rule split_unlines) (simp add: ones_lines_def utf8_sample)
  moreover have "trim ''# start'' = ''# start''" "trim '' 1 1 1 1'' = ''1 1 1 1''" "trim [] = []" "trim ''1 1 1 1'' = ''1 1 1 1''"
    "trim ''#emit'' = ''#emit''" "trim (utf8 0x4e2d @ '':1'') = utf8 0x4e2d @ '':1''"
    by (simp_all add: utf8_sample trim_def ltrim_def rtrim_def space_arg_char is_space_def code_def)
  ultimately show ?thesis
    by (simp add: useful_def starts_with_def substr_def ones_lines_def utf8_sample)
qed

lemma ones_text:
  "row_text (\<lambda>_. ''1'') [1, 1, 1, 1 :: nat] = ''1 1 1 1''" "emit_text (\<lambda>_. ''1'') [(0x4e2d, 1 :: nat)] = utf8 0x4e2d @ '':1''"
  by (simp_all add: row_text_def emit_text_def entry_text_def)

definition ones_model :: "nat hmm_model" where
  "ones_model = \<lparr>start_prob = [1, 1, 1, 1], trans_prob = [[1, 1, 1, 1], [1, 1, 1, 1], [1, 1, 1, 1], [1, 1, 1, 1]],
     emit_prob = map emit_map [[(0x4e2d, 1)], [(0x4e2d, 1)], [(0x4e2d, 1)], [(0x4e2d, 1)]]\<rparr>"

theorem load_model_roundtrip_witness: "load_model (\<lambda>_. 1 :: nat) ones_file ''hmm'' = Some ones_model"
  unfolding ones_model_def
  by (rule load_model_roundtrip[where shown = "\<lambda>_. ''1''" and content = "unlines ones_lines"])
    (simp_all add: ones_file_def ones_useful ones_text[unfolded One_nat_def] STATUS_SUM_def plain_text_def entries_ok_def)

lemma ones_loads: "load_model (\<lambda>_. 1 :: nat) ones_file ''hmm'' = Some ones_model"
  unfolding ones_model_def
  by (rule load_model_written[where shown = "\<lambda>_. ''1''" and content = "unlines ones_lines"])
    (simp_all add: ones_file_def ones_useful ones_text[unfolded One_nat_def] STATUS_SUM_def plain_text_def entries_ok_def)

theorem load_model_shape_witness: "model_shape ones_model"
  by (rule load_model_shape[OF ones_loads])

end
