(* ===== verification/Settings.thy ===== *)
theory Settings
  imports DictTrie HmmFile
begin

text \<open>
  The two readers of settings in \<open>src/utils/cppjieba/limonp\<close>: \<open>Config.hpp\<close>, a file of lines \<open>key = value\<close>, and
  \<open>ArgvContext.hpp\<close>, the arguments of a program.  The assertions of \<open>Config\<close>, which are compiled in, are \<open>None\<close>.
\<close>

section \<open>The file\<close>

text \<open>\<open>map::insert\<close> of a key that is there does nothing and says so.\<close>

fun config_lines :: "string list \<Rightarrow> (string \<rightharpoonup> string) \<Rightarrow> (string \<rightharpoonup> string) option" where
  "config_lines [] m = Some m"
| "config_lines (l # ls) m =
     (let line = trim l in
      if line = [] \<or> starts_with line ''#'' then config_lines ls m
      else let buf = split_str line ''='' None in
        if length buf \<noteq> 2 then None
        else let key = trim (buf ! 0); val = trim (buf ! 1) in
          case m key of None \<Rightarrow> config_lines ls (m(key \<mapsto> val)) | Some _ \<Rightarrow> None)"

definition load_config :: "(string \<Rightarrow> string option) \<Rightarrow> string \<Rightarrow> (string \<rightharpoonup> string) option" where
  "load_config files path = (case files path of None \<Rightarrow> None | Some t \<Rightarrow> config_lines (split_lines t 0) Map.empty)"

definition config_get :: "(string \<rightharpoonup> string) \<Rightarrow> string \<Rightarrow> string \<Rightarrow> string" where
  "config_get m key dflt = (case m key of Some v \<Rightarrow> v | None \<Rightarrow> dflt)"

definition config_get_int :: "(string \<rightharpoonup> string) \<Rightarrow> string \<Rightarrow> int \<Rightarrow> int" where
  "config_get_int m key dflt = (let str = config_get m key [] in if str = [] then dflt else atoi str)"

definition config_at :: "(string \<rightharpoonup> string) \<Rightarrow> string option \<Rightarrow> string option" where
  "config_at m key = (case key of None \<Rightarrow> None | Some k \<Rightarrow> m k)"

section \<open>The arguments\<close>

record argv_context =
  argv_args :: "string list"
  argv_values :: "string \<rightharpoonup> string"
  argv_flags :: "string set"

definition dash :: "string \<Rightarrow> bool" where
  "dash s \<longleftrightarrow> starts_with s ''-''"

fun argv_loop :: "string list \<Rightarrow> argv_context \<Rightarrow> argv_context" where
  "argv_loop [] c = c"
| "argv_loop (a # as) c =
     (if dash a
      then (case as of
          b # bs \<Rightarrow>
            if \<not> dash b then argv_loop bs (c\<lparr>argv_values := (argv_values c)(a \<mapsto> b)\<rparr>)
            else argv_loop as (c\<lparr>argv_flags := insert a (argv_flags c)\<rparr>)
        | [] \<Rightarrow> argv_loop as (c\<lparr>argv_flags := insert a (argv_flags c)\<rparr>))
      else argv_loop as (c\<lparr>argv_args := argv_args c @ [a]\<rparr>))"

definition new_argv_context :: "string list \<Rightarrow> argv_context" where
  "new_argv_context argv = argv_loop argv \<lparr>argv_args = [], argv_values = Map.empty, argv_flags = {}\<rparr>"

definition argv_at :: "argv_context \<Rightarrow> nat \<Rightarrow> string" where
  "argv_at c i = (if i < length (argv_args c) then argv_args c ! i else [])"

definition argv_value :: "argv_context \<Rightarrow> string \<Rightarrow> string" where
  "argv_value c key = (case argv_values c key of Some v \<Rightarrow> v | None \<Rightarrow> [])"

definition argv_has_key :: "argv_context \<Rightarrow> string \<Rightarrow> bool" where
  "argv_has_key c key \<longleftrightarrow> argv_values c key \<noteq> None \<or> key \<in> argv_flags c"

section \<open>Reading arguments\<close>

text \<open>The arguments that are neither options nor the values of options.\<close>

fun positional :: "string list \<Rightarrow> string list" where
  "positional [] = []"
| "positional [a] = (if dash a then [] else [a])"
| "positional (a # b # bs) = (if dash a then (if dash b then positional (b # bs) else positional bs) else a # positional (b # bs))"

text \<open>The value of the last occurrence of an option that has one.\<close>

fun option_value :: "string list \<Rightarrow> string \<rightharpoonup> string" where
  "option_value [] k = None"
| "option_value [a] k = None"
| "option_value (a # b # bs) k =
     (case option_value (b # bs) k of Some v \<Rightarrow> Some v | None \<Rightarrow> if a = k \<and> dash a \<and> \<not> dash b then Some b else None)"

lemma option_value_plain: "\<not> dash b \<Longrightarrow> option_value (b # bs) = option_value bs"
  by (rule ext, cases bs) (auto split: option.splits)

lemma argv_loop_args: "argv_args (argv_loop as c) = argv_args c @ positional as"
proof (induction as c rule: argv_loop.induct)
  case (2 a as c)
  then show ?case by (cases as) auto
qed simp

lemma argv_loop_values: "argv_values (argv_loop as c) k = (case option_value as k of Some v \<Rightarrow> Some v | None \<Rightarrow> argv_values c k)"
proof (induction as c rule: argv_loop.induct)
  case (2 a as c)
  show ?case
  proof (cases as)
    case (Cons b bs)
    then show ?thesis
      using 2 by (cases "dash a"; cases "dash b") (auto simp: option_value_plain split: option.splits)
  qed (use 2 in auto)
qed simp

lemma argv_loop_keys: "argv_has_key (argv_loop as c) k \<longleftrightarrow> argv_has_key c k \<or> k \<in> set as \<and> dash k"
proof (induction as c rule: argv_loop.induct)
  case (2 a as c)
  have v: "argv_has_key (c\<lparr>argv_values := (argv_values c)(a \<mapsto> b)\<rparr>) k = (argv_has_key c k \<or> k = a)" for b
    by (simp add: argv_has_key_def)
  have f: "argv_has_key (c\<lparr>argv_flags := insert a (argv_flags c)\<rparr>) k = (argv_has_key c k \<or> k = a)"
    by (auto simp: argv_has_key_def)
  have g: "argv_has_key (c\<lparr>argv_args := argv_args c @ [a]\<rparr>) k = argv_has_key c k"
    by (simp add: argv_has_key_def)
  show ?case
  proof (cases as)
    case (Cons b bs)
    then show ?thesis using 2 v f g by (cases "dash a"; cases "dash b") auto
  qed (use 2 f g in auto)
qed simp

text \<open>
  Every argument is used once: those that start with a dash are the keys, an argument behind an option is the
  value of the option, and the rest are the positional arguments in their order.  An option given twice has the
  value it was given last.
\<close>
theorem argv_partition:
  "argv_has_key (new_argv_context argv) k = (k \<in> set argv \<and> dash k) \<and>
   argv_args (new_argv_context argv) = positional argv \<and>
   argv_value (new_argv_context argv) k = (case option_value argv k of Some v \<Rightarrow> v | None \<Rightarrow> [])"
  unfolding new_argv_context_def argv_value_def argv_loop_keys argv_loop_values
  by (simp add: argv_loop_args argv_has_key_def split: option.split)

section \<open>Reading a file\<close>

lemma trim_pad:
  assumes "\<forall>c \<in> set a \<union> set b. is_space c" "t \<noteq> []" "\<not> is_space (hd t)" "\<not> is_space (last t)"
  shows "trim (a @ t @ b) = t"
proof -
  have sp: "(\<lambda>c. space_arg (as_unsigned c)) = is_space" by (simp add: fun_eq_iff space_arg_char)
  have "dropWhile is_space (rev b @ rev t @ rev a) = dropWhile is_space (rev t @ rev a)"
    using assms(1) by (intro dropWhile_append2) simp
  also have "\<dots> = rev t @ rev a" using assms(2,4) by (cases t rule: rev_cases) simp_all
  finally have "dropWhile is_space (rev b @ rev t @ rev a) = rev t @ rev a" .
  then have "rtrim (a @ t @ b) = a @ t" by (simp add: rtrim_def sp space_arg_char)
  moreover have "dropWhile is_space (a @ t) = t" using assms by (cases t) (simp_all add: dropWhile_append2)
  ultimately show ?thesis by (simp add: trim_def ltrim_def sp space_arg_char)
qed

definition setting_text :: "string \<Rightarrow> bool" where
  "setting_text t \<longleftrightarrow> t \<noteq> [] \<and> (\<forall>c \<in> set t. \<not> is_space c \<and> c \<noteq> CHR ''='' \<and> c \<noteq> CHR ''#'')"

lemma trim_setting: "setting_text t \<Longrightarrow> trim ('' '' @ t) = t \<and> trim (t @ '' '') = t \<and> trim t = t"
  using trim_pad[of "'' ''" "[]" t] trim_pad[of "[]" "'' ''" t] trim_pad[of "[]" "[]" t]
  by (auto simp: setting_text_def is_space_def)

definition setting_line :: "string \<times> string \<Rightarrow> string" where
  "setting_line = (\<lambda>(k, v). k @ '' = '' @ v)"

lemma config_lines_read:
  "useful ls = map setting_line es \<Longrightarrow> \<forall>(k, v) \<in> set es. setting_text k \<and> setting_text v \<Longrightarrow> distinct (map fst es) \<Longrightarrow>
     fst ` set es \<inter> dom m = {} \<Longrightarrow> config_lines ls m = Some (m ++ map_of es)"
proof (induction ls arbitrary: es m)
  case Nil
  then show ?case by (simp add: useful_def)
next
  case (Cons l ls)
  show ?case
  proof (cases "trim l = [] \<or> starts_with (trim l) ''#''")
    case True
    then have "useful (l # ls) = useful ls" by (auto simp: useful_def)
    then show ?thesis using Cons True by (simp add: Let_def)
  next
    case False
    then have "useful (l # ls) = trim l # useful ls" by (simp add: useful_def)
    then obtain k v es' where es: "es = (k, v) # es'" "trim l = setting_line (k, v)" "useful ls = map setting_line es'"
      using Cons.prems(1) by (cases es) auto
    have kv: "setting_text k" "setting_text v" using Cons.prems(2) by (simp_all add: es)
    have "split_str (join_str [k @ '' '', '' '' @ v] ''='') ''='' None = [k @ '' '', '' '' @ v]"
      using kv by (intro split_join_pieces) (auto simp: setting_text_def)
    then have "split_str (trim l) ''='' None = [k @ '' '', '' '' @ v]" by (simp add: es(2) setting_line_def)
    moreover have "m k = None" using Cons.prems(4) by (auto simp: es)
    ultimately have "config_lines (l # ls) m = config_lines ls (m(k \<mapsto> v))"
      using False trim_setting[OF kv(1)] trim_setting[OF kv(2)] by (simp add: Let_def)
    also have "\<dots> = Some (m(k \<mapsto> v) ++ map_of es')"
    proof (rule Cons.IH[OF es(3)])
      show "fst ` set es' \<inter> dom (m(k \<mapsto> v)) = {}" using Cons.prems(3,4) unfolding es(1) by (auto simp del: fun_upd_apply)
    qed (use Cons.prems(2,3) in \<open>simp_all add: es(1)\<close>)
    also have "m(k \<mapsto> v) ++ map_of es' = m ++ map_of es"
      using Cons.prems(3) by (auto simp: es(1) map_add_def fun_eq_iff map_of_eq_None_iff[symmetric] split: option.split)
    finally show ?thesis .
  qed
qed

text \<open>
  A file of settings, with blank lines, comments and white space as one likes, gives exactly its settings.
\<close>
theorem config_roundtrip:
  assumes "files path = Some t" "useful (split_lines t 0) = map setting_line es"
    "\<forall>(k, v) \<in> set es. setting_text k \<and> setting_text v" "distinct (map fst es)"
  shows "load_config files path = Some (map_of es)"
  using config_lines_read[OF assms(2-4), of Map.empty] assms(1) by (simp add: load_config_def)

text \<open>
  A setting without a value, or with an equals sign in its value, ends the program.
\<close>
theorem config_values_abort:
  assumes "setting_text k" "setting_text v" "setting_text w"
  shows "config_lines ((k @ ''='') # ls) m = None \<and> config_lines ((k @ ''='' @ v @ ''='' @ w) # ls) m = None"
proof -
  have tr: "trim (k @ ''='') = k @ ''=''" "trim (k @ ''='' @ v @ ''='' @ w) = k @ ''='' @ v @ ''='' @ w"
  proof -
    have "\<not> is_space (hd k)" "k \<noteq> []" "\<not> is_space (last w)" "w \<noteq> []" using assms by (simp_all add: setting_text_def)
    moreover have "\<not> is_space (CHR ''='')" by (simp add: is_space_def code_def)
    ultimately show "trim (k @ ''='') = k @ ''=''" "trim (k @ ''='' @ v @ ''='' @ w) = k @ ''='' @ v @ ''='' @ w"
      using trim_pad[of "[]" "[]" "k @ ''=''"] trim_pad[of "[]" "[]" "k @ ''='' @ v @ ''='' @ w"] by simp_all
  qed
  have nc: "\<not> starts_with (k @ s) ''#''" for s
    using assms(1) by (cases k) (auto simp: setting_text_def starts_with_def substr_def)
  have "split_str (join_str [k, []] ''='') ''='' None = [k]"
    using pieces_join_empty[of "[k]" "\<lambda>c. c \<in> set ''=''" "CHR ''=''"] assms(1)
    by (auto simp: setting_text_def split_str_def split_loop_pieces)
  moreover have "split_str (join_str [k, v, w] ''='') ''='' None = [k, v, w]"
    using assms by (intro split_join_pieces) (auto simp: setting_text_def)
  ultimately show ?thesis using tr nc by (simp add: Let_def)
qed

section \<open>Concrete settings\<close>

theorem config_roundtrip_witness:
  "\<exists>files. load_config files ''amigao.conf'' = Some [''host'' \<mapsto> ''db1'', ''port'' \<mapsto> ''3306''] \<and>
     (\<forall>m. load_config files ''amigao.conf'' = Some m \<longrightarrow> config_get_int m ''port'' 80 = 3306)"
proof -
  define t where "t = ''# db'' @ [NL, NL] @ ''  host = db1'' @ [NL] @ ''port = 3306''"
  have "useful (split_lines t 0) = map setting_line [(''host'', ''db1''), (''port'', ''3306'')]"
    unfolding t_def by code_simp
  moreover have "setting_text ''host'' \<and> setting_text ''db1'' \<and> setting_text ''port'' \<and> setting_text ''3306''" by code_simp
  ultimately have "load_config (\<lambda>f. Some t) ''amigao.conf'' = Some (map_of [(''host'', ''db1''), (''port'', ''3306'')])"
    by (intro config_roundtrip[OF refl]) simp_all
  moreover have "atoi ''3306'' = 3306" by code_simp
  ultimately show ?thesis by (intro exI[of _ "\<lambda>f. Some t"]) (auto simp: config_get_int_def config_get_def)
qed

theorem config_values_abort_witness: "config_lines [''password=''] Map.empty = None \<and> config_lines [''query=a=b''] Map.empty = None"
proof -
  have "setting_text ''password'' \<and> setting_text ''query'' \<and> setting_text ''a'' \<and> setting_text ''b''" by code_simp
  then show ?thesis
    using config_values_abort[of "''password''" "''a''" "''b''" "[]"] config_values_abort[of "''query''" "''a''" "''b''" "[]"] by simp
qed

end
