(* ===== verification/BoundedQueue.thy ===== *)
theory BoundedQueue
  imports Main
begin

text \<open>
  The circular buffer of \<open>src/utils/cppjieba/limonp/BoundedQueue.hpp\<close>: a vector of fixed size with a head, a tail
  and a count.  The assertions of the code are \<open>None\<close>.  The locale \<open>bounded_fifo\<close> is what its clients rely on,
  a list with a bound on its length.
\<close>

section \<open>The queue\<close>

record 'a bounded_queue =
  bq_head :: nat
  bq_tail :: nat
  bq_size :: nat
  bq_capacity :: nat
  circular_buffer :: "'a list"

text \<open>\<open>z\<close> is the value a vector fills its elements with.\<close>

definition new_bounded_queue :: "'a \<Rightarrow> nat \<Rightarrow> 'a bounded_queue option" where
  "new_bounded_queue z capacity =
     (if capacity = 0 then None
      else Some \<lparr>bq_head = 0, bq_tail = 0, bq_size = 0, bq_capacity = capacity, circular_buffer = replicate capacity z\<rparr>)"

definition bq_clear :: "'a bounded_queue \<Rightarrow> 'a bounded_queue" where
  "bq_clear q = q\<lparr>bq_head := 0, bq_tail := 0, bq_size := 0\<rparr>"

definition bq_empty :: "'a bounded_queue \<Rightarrow> bool" where
  "bq_empty q \<longleftrightarrow> bq_size q = 0"

definition bq_full :: "'a bounded_queue \<Rightarrow> bool" where
  "bq_full q \<longleftrightarrow> bq_capacity q = bq_size q"

definition bq_push :: "'a \<Rightarrow> 'a bounded_queue \<Rightarrow> 'a bounded_queue option" where
  "bq_push t q =
     (if bq_full q then None
      else Some (q\<lparr>circular_buffer := (circular_buffer q)[bq_tail q := t], bq_tail := (bq_tail q + 1) mod bq_capacity q,
        bq_size := bq_size q + 1\<rparr>))"

definition bq_pop :: "'a bounded_queue \<Rightarrow> ('a \<times> 'a bounded_queue) option" where
  "bq_pop q =
     (if bq_empty q then None
      else Some (circular_buffer q ! bq_head q, q\<lparr>bq_head := (bq_head q + 1) mod bq_capacity q, bq_size := bq_size q - 1\<rparr>))"

section \<open>The contract\<close>

locale bounded_fifo =
  fixes ok :: "'q \<Rightarrow> bool" and contents :: "'q \<Rightarrow> 'a list" and capacity :: "'q \<Rightarrow> nat"
    and empty full :: "'q \<Rightarrow> bool" and push :: "'a \<Rightarrow> 'q \<Rightarrow> 'q option" and pop :: "'q \<Rightarrow> ('a \<times> 'q) option"
  assumes bound: "ok q \<Longrightarrow> 0 < capacity q \<and> length (contents q) \<le> capacity q"
    and empty_iff: "ok q \<Longrightarrow> empty q \<longleftrightarrow> contents q = []"
    and full_iff: "ok q \<Longrightarrow> full q \<longleftrightarrow> length (contents q) = capacity q"
    and push_law: "ok q \<Longrightarrow> \<not> full q \<Longrightarrow>
      \<exists>q'. push x q = Some q' \<and> ok q' \<and> contents q' = contents q @ [x] \<and> capacity q' = capacity q"
    and pop_law: "ok q \<Longrightarrow> \<not> empty q \<Longrightarrow>
      \<exists>q'. pop q = Some (hd (contents q), q') \<and> ok q' \<and> contents q' = tl (contents q) \<and> capacity q' = capacity q"
begin

lemma pushed:
  "ok q \<Longrightarrow> \<not> full q \<Longrightarrow> push x q = Some q' \<Longrightarrow> ok q' \<and> contents q' = contents q @ [x] \<and> capacity q' = capacity q"
  using push_law[of q x] by auto

lemma popped:
  "ok q \<Longrightarrow> \<not> empty q \<Longrightarrow> pop q = Some (x, q') \<Longrightarrow> ok q' \<and> contents q = x # contents q' \<and> capacity q' = capacity q"
  using pop_law[of q] empty_iff[of q] by (cases "contents q") auto

lemma full_not_empty: "ok q \<Longrightarrow> full q \<Longrightarrow> contents q \<noteq> []"
  using bound[of q] full_iff[of q] by auto

fun put_all :: "'a list \<Rightarrow> 'q \<Rightarrow> 'q option" where
  "put_all [] q = Some q"
| "put_all (x # xs) q = (case push x q of None \<Rightarrow> None | Some q \<Rightarrow> put_all xs q)"

lemma put_all_fits:
  "ok q \<Longrightarrow> length (contents q) + length xs \<le> capacity q \<Longrightarrow> \<exists>q'. put_all xs q = Some q' \<and> ok q' \<and> contents q' = contents q @ xs"
proof (induction xs arbitrary: q)
  case (Cons x xs)
  then have "\<not> full q" using full_iff[of q] by auto
  then obtain q' where "push x q = Some q'" "ok q'" "contents q' = contents q @ [x]" "capacity q' = capacity q"
    using push_law[OF Cons.prems(1)] by blast
  then show ?case using Cons.IH[of q'] Cons.prems(2) by simp
qed simp

end

section \<open>The circular buffer keeps it\<close>

definition bq_ok :: "'a bounded_queue \<Rightarrow> bool" where
  "bq_ok q \<longleftrightarrow> 0 < bq_capacity q \<and> length (circular_buffer q) = bq_capacity q \<and> bq_head q < bq_capacity q \<and>
     bq_size q \<le> bq_capacity q \<and> bq_tail q = (bq_head q + bq_size q) mod bq_capacity q"

definition bq_list :: "'a bounded_queue \<Rightarrow> 'a list" where
  "bq_list q = map (\<lambda>i. circular_buffer q ! ((bq_head q + i) mod bq_capacity q)) [0..<bq_size q]"

lemma other_cell: "i < n \<Longrightarrow> n < c \<Longrightarrow> (h + i) mod c \<noteq> (h + n) mod (c :: nat)"
proof
  assume "i < n" "n < c" "(h + i) mod c = (h + n) mod c"
  then have "c dvd n - i" using mod_eq_dvd_iff_nat[of "h + i" "h + n" c] by simp
  then show False using \<open>i < n\<close> \<open>n < c\<close> by (auto dest!: dvd_imp_le)
qed

lemma bq_push_law:
  assumes "bq_ok q" "\<not> bq_full q"
  shows "\<exists>q'. bq_push x q = Some q' \<and> bq_ok q' \<and> bq_list q' = bq_list q @ [x] \<and> bq_capacity q' = bq_capacity q"
proof -
  let ?q = "q\<lparr>circular_buffer := (circular_buffer q)[bq_tail q := x], bq_tail := (bq_tail q + 1) mod bq_capacity q, bq_size := bq_size q + 1\<rparr>"
  have s: "bq_size q < bq_capacity q" using assms by (auto simp: bq_ok_def bq_full_def)
  have "bq_ok ?q" using assms(1) s by (auto simp: bq_ok_def mod_Suc_eq)
  moreover have "bq_list ?q = bq_list q @ [x]"
  proof -
    have "(bq_head q + bq_size q) mod bq_capacity q \<noteq> (bq_head q + i) mod bq_capacity q" if "i < bq_size q" for i
      using other_cell[OF that s, of "bq_head q"] by simp
    then show ?thesis using assms(1) s by (auto simp: bq_ok_def bq_list_def)
  qed
  ultimately show ?thesis using assms(2) by (simp add: bq_push_def)
qed

lemma bq_pop_law:
  assumes "bq_ok q" "\<not> bq_empty q"
  shows "\<exists>q'. bq_pop q = Some (hd (bq_list q), q') \<and> bq_ok q' \<and> bq_list q' = tl (bq_list q) \<and> bq_capacity q' = bq_capacity q"
proof -
  let ?q = "q\<lparr>bq_head := (bq_head q + 1) mod bq_capacity q, bq_size := bq_size q - 1\<rparr>"
  obtain n where n: "bq_size q = Suc n" using assms(2) by (cases "bq_size q") (auto simp: bq_empty_def)
  have "bq_ok ?q" using assms(1) n by (auto simp: bq_ok_def mod_add_left_eq)
  moreover have "bq_list q = circular_buffer q ! bq_head q # bq_list ?q"
    using assms(1) n by (auto simp: bq_ok_def bq_list_def upt_conv_Cons map_Suc_upt[symmetric] mod_add_left_eq simp del: upt_Suc)
  ultimately show ?thesis using assms(2) by (simp add: bq_pop_def)
qed

interpretation bq: bounded_fifo bq_ok bq_list bq_capacity bq_empty bq_full bq_push bq_pop
proof unfold_locales
  fix q :: "'a bounded_queue"
  show "bq_ok q \<Longrightarrow> 0 < bq_capacity q \<and> length (bq_list q) \<le> bq_capacity q" by (simp add: bq_ok_def bq_list_def)
  show "bq_ok q \<Longrightarrow> bq_empty q \<longleftrightarrow> bq_list q = []" by (simp add: bq_empty_def bq_list_def)
  show "bq_ok q \<Longrightarrow> bq_full q \<longleftrightarrow> length (bq_list q) = bq_capacity q" by (auto simp: bq_full_def bq_list_def)
qed (blast intro: bq_push_law bq_pop_law)+

lemma new_bounded_queue_ok: "new_bounded_queue z n = Some q \<Longrightarrow> bq_ok q \<and> bq_list q = [] \<and> bq_capacity q = n"
  by (auto simp: new_bounded_queue_def bq_ok_def bq_list_def split: if_splits)

lemma clear_ok: "bq_ok q \<Longrightarrow> bq_ok (bq_clear q) \<and> bq_list (bq_clear q) = [] \<and> bq_capacity (bq_clear q) = bq_capacity q"
  by (simp add: bq_ok_def bq_list_def bq_clear_def)

end
