(* ===== verification/TaskPool.thy ===== *)
theory TaskPool
  imports BoundedQueue "HOL-Library.Multiset"
begin

text \<open>
  The thread pool of \<open>src/utils/cppjieba/limonp\<close> (\<open>ThreadPool.hpp\<close>, \<open>BoundedBlockingQueue.hpp\<close>, \<open>Thread.hpp\<close>,
  \<open>Condition.hpp\<close>): one owner that starts the threads, adds tasks and stops the pool, and the worker threads.
  Every operation of the blocking queue runs under its mutex and gives it up only where it waits, so what a thread
  does between two such points is one turn.  A thread that waits on a condition is woken by \<open>Notify\<close>, one at a
  time, or for no reason (\<open>pool_wakeup\<close>), and then looks at the queue again.
\<close>

section \<open>The pool\<close>

datatype 'task worker_pc = W_New | W_Pop | W_Wait | W_Run 'task | W_Exited

text \<open>The owner calls \<open>Start\<close>, \<open>Add\<close> for each of its tasks and \<open>Stop\<close>, which pushes and then joins.\<close>

datatype 'task owner_pc = Starting nat "'task list" | Adding "'task list" | Stopping nat | Joining nat | Stopped

record 'task task_pool =
  workers :: "'task worker_pc list"
  task_queue :: "'task option bounded_queue"
  owner :: "'task owner_pc"
  owner_waits :: bool
  ran :: "'task list"

definition new_task_pool :: "nat \<Rightarrow> 'task list \<Rightarrow> 'task task_pool option" where
  "new_task_pool thread_num tasks =
     (case new_bounded_queue None thread_num of
        None \<Rightarrow> None
      | Some q \<Rightarrow> Some \<lparr>workers = replicate thread_num W_New, task_queue = q, owner = Starting 0 tasks, owner_waits = False, ran = []\<rparr>)"

text \<open>What the owner pushes next, if it is at a push, and where it is afterwards.\<close>

fun next_push :: "nat \<Rightarrow> 'task owner_pc \<Rightarrow> ('task option \<times> 'task owner_pc) option" where
  "next_push n (Adding (t # ts)) = Some (Some t, Adding ts)"
| "next_push n (Stopping k) = (if k < n then Some (None, Stopping (k + 1)) else None)"
| "next_push n pc = None"

text \<open>The other turns of the owner; joining a thread that runs is no turn.\<close>

fun owner_move :: "'task worker_pc list \<Rightarrow> 'task owner_pc \<Rightarrow> ('task worker_pc list \<times> 'task owner_pc) option" where
  "owner_move ws (Starting i ts) =
     (if i < length ws then Some (ws[i := W_Pop], Starting (i + 1) ts) else Some (ws, Adding ts))"
| "owner_move ws (Adding ts) = (if ts = [] then Some (ws, Stopping 0) else None)"
| "owner_move ws (Stopping k) = (if k < length ws then None else Some (ws, Joining 0))"
| "owner_move ws (Joining i) =
     (if i < length ws then (case ws ! i of W_Exited \<Rightarrow> Some (ws, Joining (i + 1)) | _ \<Rightarrow> None) else Some (ws, Stopped))"
| "owner_move ws Stopped = None"

text \<open>\<open>Notify\<close> wakes one of the threads that wait, if there is one.\<close>

inductive notified :: "'task worker_pc list \<Rightarrow> 'task worker_pc list \<Rightarrow> bool" where
  nobody: "W_Wait \<notin> set ws \<Longrightarrow> notified ws ws"
| somebody: "i < length ws \<Longrightarrow> ws ! i = W_Wait \<Longrightarrow> notified ws (ws[i := W_Pop])"

definition taken_by :: "'task option \<Rightarrow> 'task worker_pc" where
  "taken_by x = (case x of None \<Rightarrow> W_Exited | Some t \<Rightarrow> W_Run t)"

inductive pool_turn :: "'task task_pool \<Rightarrow> 'task task_pool \<Rightarrow> bool" where
  owner_moves: "owner_move (workers \<sigma>) (owner \<sigma>) = Some (ws, pc) \<Longrightarrow> pool_turn \<sigma> (\<sigma>\<lparr>workers := ws, owner := pc\<rparr>)"
| owner_pushes: "\<not> owner_waits \<sigma> \<Longrightarrow> next_push (length (workers \<sigma>)) (owner \<sigma>) = Some (x, pc) \<Longrightarrow> \<not> bq_full (task_queue \<sigma>) \<Longrightarrow>
    bq_push x (task_queue \<sigma>) = Some q \<Longrightarrow> notified (workers \<sigma>) ws \<Longrightarrow>
    pool_turn \<sigma> (\<sigma>\<lparr>workers := ws, task_queue := q, owner := pc\<rparr>)"
| owner_blocks: "\<not> owner_waits \<sigma> \<Longrightarrow> next_push (length (workers \<sigma>)) (owner \<sigma>) \<noteq> None \<Longrightarrow> bq_full (task_queue \<sigma>) \<Longrightarrow>
    pool_turn \<sigma> (\<sigma>\<lparr>owner_waits := True\<rparr>)"
| worker_pops: "i < length (workers \<sigma>) \<Longrightarrow> workers \<sigma> ! i = W_Pop \<Longrightarrow> \<not> bq_empty (task_queue \<sigma>) \<Longrightarrow>
    bq_pop (task_queue \<sigma>) = Some (x, q) \<Longrightarrow>
    pool_turn \<sigma> (\<sigma>\<lparr>workers := (workers \<sigma>)[i := taken_by x], task_queue := q, owner_waits := False\<rparr>)"
| worker_blocks: "i < length (workers \<sigma>) \<Longrightarrow> workers \<sigma> ! i = W_Pop \<Longrightarrow> bq_empty (task_queue \<sigma>) \<Longrightarrow>
    pool_turn \<sigma> (\<sigma>\<lparr>workers := (workers \<sigma>)[i := W_Wait]\<rparr>)"
| worker_runs: "i < length (workers \<sigma>) \<Longrightarrow> workers \<sigma> ! i = W_Run t \<Longrightarrow>
    pool_turn \<sigma> (\<sigma>\<lparr>workers := (workers \<sigma>)[i := W_Pop], ran := ran \<sigma> @ [t]\<rparr>)"

inductive pool_wakeup :: "'task task_pool \<Rightarrow> 'task task_pool \<Rightarrow> bool" where
  worker_wakes: "i < length (workers \<sigma>) \<Longrightarrow> workers \<sigma> ! i = W_Wait \<Longrightarrow> pool_wakeup \<sigma> (\<sigma>\<lparr>workers := (workers \<sigma>)[i := W_Pop]\<rparr>)"
| owner_wakes: "owner_waits \<sigma> \<Longrightarrow> pool_wakeup \<sigma> (\<sigma>\<lparr>owner_waits := False\<rparr>)"

inductive pool_reaches :: "'task task_pool \<Rightarrow> 'task task_pool \<Rightarrow> bool" for \<sigma>0 where
  at_once: "pool_reaches \<sigma>0 \<sigma>0"
| by_turn: "pool_reaches \<sigma>0 \<sigma> \<Longrightarrow> pool_turn \<sigma> \<sigma>' \<Longrightarrow> pool_reaches \<sigma>0 \<sigma>'"
| by_wakeup: "pool_reaches \<sigma>0 \<sigma> \<Longrightarrow> pool_wakeup \<sigma> \<sigma>' \<Longrightarrow> pool_reaches \<sigma>0 \<sigma>'"

section \<open>Sums over the workers\<close>

definition total :: "('a \<Rightarrow> 'b::comm_monoid_add) \<Rightarrow> 'a list \<Rightarrow> 'b" where
  "total f xs = sum_list (map f xs)"

lemma total_simps [simp]: "total f [] = 0" "total f (x # xs) = f x + total f xs" "total f (xs @ ys) = total f xs + total f ys"
  by (simp_all add: total_def)

lemma total_update: "i < length xs \<Longrightarrow> total f (xs[i := x]) + f (xs ! i) = total f xs + f x"
proof (induction xs arbitrary: i)
  case (Cons y ys)
  then show ?case by (cases i) (simp_all add: ac_simps)
qed simp

lemma total_replicate: "total f (replicate n x) = (\<Sum>i<n. f x)"
  by (induction n) (simp_all add: add.commute)

lemma total_zero: "(\<And>x. x \<in> set xs \<Longrightarrow> f x = 0) \<Longrightarrow> total f xs = 0"
  by (induction xs) simp_all

lemma total_pos: "x \<in> set xs \<Longrightarrow> 0 < f x \<Longrightarrow> 0 < total f xs" for f :: "'a \<Rightarrow> nat"
  by (induction xs) auto

lemma total_pos_ex: "0 < total f xs \<Longrightarrow> \<exists>x \<in> set xs. 0 < f x" for f :: "'a \<Rightarrow> nat"
  by (induction xs) auto

fun runs :: "'task worker_pc \<Rightarrow> 'task multiset" where
  "runs (W_Run t) = {#t#}"
| "runs w = {#}"

definition at_pop :: "'task worker_pc \<Rightarrow> nat" where
  "at_pop w = (if w = W_Pop then 1 else 0)"

definition exited :: "'task worker_pc \<Rightarrow> nat" where
  "exited w = (if w = W_Exited then 1 else 0)"

fun item_tasks :: "'task option \<Rightarrow> 'task multiset" where
  "item_tasks None = {#}"
| "item_tasks (Some t) = {#t#}"

definition item_ends :: "'task option \<Rightarrow> nat" where
  "item_ends x = (if x = None then 1 else 0)"


section \<open>The invariant\<close>

fun todo :: "nat \<Rightarrow> 'task owner_pc \<Rightarrow> 'task option list" where
  "todo n (Starting i ts) = map Some ts @ replicate n None"
| "todo n (Adding ts) = map Some ts @ replicate n None"
| "todo n (Stopping k) = replicate (n - k) None"
| "todo n (Joining i) = []"
| "todo n Stopped = []"

definition phase_ok :: "'task worker_pc list \<Rightarrow> 'task owner_pc \<Rightarrow> bool" where
  "phase_ok ws pc \<longleftrightarrow>
     (case pc of
        Starting i ts \<Rightarrow> i \<le> length ws \<and> (\<forall>j < length ws. ws ! j = W_New \<longleftrightarrow> i \<le> j)
      | Adding ts \<Rightarrow> W_New \<notin> set ws
      | Stopping k \<Rightarrow> W_New \<notin> set ws \<and> k \<le> length ws
      | Joining i \<Rightarrow> W_New \<notin> set ws \<and> i \<le> length ws \<and> (\<forall>j < i. ws ! j = W_Exited)
      | Stopped \<Rightarrow> set ws \<subseteq> {W_Exited})"

definition conserved :: "'task option list \<Rightarrow> 'task task_pool \<Rightarrow> bool" where
  "conserved items \<sigma> \<longleftrightarrow> (\<exists>taken.
     taken @ bq_list (task_queue \<sigma>) @ todo (length (workers \<sigma>)) (owner \<sigma>) = items \<and>
     mset (ran \<sigma>) + total runs (workers \<sigma>) = total item_tasks taken \<and>
     total exited (workers \<sigma>) = total item_ends taken)"

definition no_lost_wakeup :: "'task task_pool \<Rightarrow> bool" where
  "no_lost_wakeup \<sigma> \<longleftrightarrow>
     (owner_waits \<sigma> \<longrightarrow> bq_full (task_queue \<sigma>) \<and> next_push (length (workers \<sigma>)) (owner \<sigma>) \<noteq> None) \<and>
     (W_Wait \<in> set (workers \<sigma>) \<longrightarrow> length (bq_list (task_queue \<sigma>)) \<le> total at_pop (workers \<sigma>))"

definition pool_ok :: "nat \<Rightarrow> 'task list \<Rightarrow> 'task task_pool \<Rightarrow> bool" where
  "pool_ok n tasks \<sigma> \<longleftrightarrow>
     0 < n \<and> length (workers \<sigma>) = n \<and> bq_ok (task_queue \<sigma>) \<and> bq_capacity (task_queue \<sigma>) = n \<and>
     phase_ok (workers \<sigma>) (owner \<sigma>) \<and> conserved (map Some tasks @ replicate n None) \<sigma> \<and> no_lost_wakeup \<sigma>"

lemma new_pool_ok: "new_task_pool n tasks = Some \<sigma> \<Longrightarrow> pool_ok n tasks \<sigma>"
  using new_bounded_queue_ok[of None n]
  by (auto simp: new_task_pool_def pool_ok_def phase_ok_def conserved_def no_lost_wakeup_def total_replicate exited_def
      new_bounded_queue_def split: option.splits if_splits)

lemma phase_update:
  "phase_ok ws pc \<Longrightarrow> i < length ws \<Longrightarrow> ws ! i \<noteq> W_New \<Longrightarrow> ws ! i \<noteq> W_Exited \<Longrightarrow> w \<noteq> W_New \<Longrightarrow> phase_ok (ws[i := w]) pc"
  by (cases pc) (auto simp: phase_ok_def nth_list_update in_set_conv_nth subset_iff split: if_splits)

lemma notified_changes:
  assumes "notified ws ws'"
  shows "length ws' = length ws \<and> total runs ws' = total runs ws \<and> total exited ws' = total exited ws \<and>
    (phase_ok ws pc \<longrightarrow> phase_ok ws' pc) \<and>
    (W_Wait \<in> set ws \<longrightarrow> total at_pop ws' = total at_pop ws + 1) \<and> (W_Wait \<notin> set ws \<longrightarrow> ws' = ws)"
  using assms
proof cases
  case (somebody i)
  then have "W_Wait \<in> set ws" by (metis nth_mem)
  then show ?thesis
    using somebody total_update[of i ws runs W_Pop] total_update[of i ws exited W_Pop] total_update[of i ws at_pop W_Pop] phase_update[of ws pc i W_Pop]
    by (simp add: exited_def at_pop_def)
qed simp

lemma push_todo: "next_push n pc = Some (x, pc') \<Longrightarrow> todo n pc = x # todo n pc'"
  by (cases "(n, pc)" rule: next_push.cases) (auto simp: Suc_diff_Suc[symmetric] split: if_splits)

lemma push_phase: "next_push (length ws) pc = Some (x, pc') \<Longrightarrow> phase_ok ws pc \<Longrightarrow> phase_ok ws pc'"
  by (cases "(length ws, pc)" rule: next_push.cases) (auto simp: phase_ok_def split: if_splits)

lemma move_keeps:
  assumes "owner_move ws pc = Some (ws', pc')" "phase_ok ws pc"
  shows "length ws' = length ws \<and> phase_ok ws' pc' \<and> todo (length ws) pc' = todo (length ws) pc \<and> total runs ws' = total runs ws \<and>
    total exited ws' = total exited ws \<and> next_push (length ws) pc = None \<and> (W_Wait \<in> set ws' \<longrightarrow> W_Wait \<in> set ws) \<and> total at_pop ws \<le> total at_pop ws'"
proof (cases pc)
  case (Starting i ts)
  show ?thesis
  proof (cases "i < length ws")
    case True
    then have "ws ! i = W_New" using assms(2) by (simp add: phase_ok_def Starting)
    then show ?thesis
      using assms True total_update[of i ws runs W_Pop] total_update[of i ws exited W_Pop] total_update[of i ws at_pop W_Pop]
        set_update_subset_insert[of ws i W_Pop]
      by (auto simp: Starting phase_ok_def exited_def at_pop_def nth_list_update)
  next
    case False
    then show ?thesis using assms by (auto simp: Starting phase_ok_def in_set_conv_nth)
  qed
next
  case (Joining i)
  then show ?thesis
    using assms by (auto simp: phase_ok_def in_set_conv_nth less_Suc_eq split: if_splits worker_pc.splits)
qed (use assms in \<open>auto simp: phase_ok_def split: if_splits\<close>)


lemma worker_update:
  assumes "i < length ws" "ws ! i = w"
  shows "total runs (ws[i := w']) + runs w = total runs ws + runs w'" "total exited (ws[i := w']) + exited w = total exited ws + exited w'"
    "total at_pop (ws[i := w']) + at_pop w = total at_pop ws + at_pop w'"
  using total_update[of i ws runs w'] total_update[of i ws exited w'] total_update[of i ws at_pop w'] assms by simp_all

lemma still_waits: "W_Wait \<in> set (ws[i := w]) \<Longrightarrow> w \<noteq> W_Wait \<Longrightarrow> W_Wait \<in> set ws"
  using set_update_subset_insert[of ws i w] by auto

lemma conserved_cong:
  "conserved items \<sigma> \<Longrightarrow> task_queue \<sigma>' = task_queue \<sigma> \<Longrightarrow> owner \<sigma>' = owner \<sigma> \<Longrightarrow> length (workers \<sigma>') = length (workers \<sigma>) \<Longrightarrow>
     mset (ran \<sigma>') + total runs (workers \<sigma>') = mset (ran \<sigma>) + total runs (workers \<sigma>) \<Longrightarrow>
     total exited (workers \<sigma>') = total exited (workers \<sigma>) \<Longrightarrow> conserved items \<sigma>'"
  by (simp add: conserved_def)

lemma turn_keeps_ok:
  assumes "pool_turn \<sigma> \<sigma>'" "pool_ok n tasks \<sigma>"
  shows "pool_ok n tasks \<sigma>'"
  using assms(1)
proof cases
  case (owner_moves ws pc)
  show ?thesis
    using assms(2) move_keeps[OF owner_moves(2)] unfolding owner_moves(1)
    by (auto simp: pool_ok_def conserved_def no_lost_wakeup_def intro: order.trans)
next
  case (owner_pushes x pc q ws)
  let ?q = "task_queue \<sigma>"
  have ok: "bq_ok ?q" "length (workers \<sigma>) = n" using assms(2) by (simp_all add: pool_ok_def)
  note q = bq.pushed[OF ok(1) owner_pushes(4,5)]
  note w = notified_changes[OF owner_pushes(6), of "owner \<sigma>"]
  note t = push_todo[OF owner_pushes(3), unfolded ok(2)]
  have "phase_ok ws pc" using w push_phase[of ws "owner \<sigma>" x pc] owner_pushes(3) assms(2) by (simp add: pool_ok_def)
  moreover have "conserved (map Some tasks @ replicate n None) \<sigma>'"
    using assms(2) q w t unfolding owner_pushes(1) by (auto simp: pool_ok_def conserved_def)
  moreover have "no_lost_wakeup \<sigma>'"
    using assms(2) q w owner_pushes(2) unfolding owner_pushes(1)
    by (cases "W_Wait \<in> set (workers \<sigma>)") (simp_all add: pool_ok_def no_lost_wakeup_def)
  ultimately show ?thesis
    using assms(2) q w unfolding owner_pushes(1) by (simp add: pool_ok_def)
next
  case owner_blocks
  then show ?thesis using assms(2) by (auto simp: pool_ok_def conserved_def no_lost_wakeup_def)
next
  case (worker_pops i x q)
  let ?q = "task_queue \<sigma>" and ?ws = "(workers \<sigma>)[i := taken_by x]"
  have ok: "bq_ok ?q" using assms(2) by (simp add: pool_ok_def)
  note q = bq.popped[OF ok worker_pops(4,5)]
  note w = worker_update[OF worker_pops(2,3), of "taken_by x"]
  have x: "taken_by x \<noteq> W_New" "taken_by x \<noteq> W_Wait" "runs (taken_by x) = item_tasks x" "exited (taken_by x) = item_ends x" "at_pop (taken_by x) = 0"
    by (cases x; simp add: taken_by_def exited_def item_ends_def at_pop_def)+
  have "phase_ok ?ws (owner \<sigma>)"
    using assms(2) worker_pops(2,3) x by (intro phase_update) (simp_all add: pool_ok_def)
  moreover have "conserved (map Some tasks @ replicate n None) \<sigma>'"
  proof -
    obtain taken where t: "taken @ bq_list ?q @ todo (length (workers \<sigma>)) (owner \<sigma>) = map Some tasks @ replicate n None"
      "mset (ran \<sigma>) + total runs (workers \<sigma>) = total item_tasks taken" "total exited (workers \<sigma>) = total item_ends taken"
      using assms(2) by (auto simp: pool_ok_def conserved_def)
    show ?thesis
      unfolding conserved_def worker_pops(1)
      by (rule exI[of _ "taken @ [x]"]) (use t q w x in \<open>simp add: exited_def[of W_Pop] flip: add.assoc\<close>)
  qed
  moreover have "no_lost_wakeup \<sigma>'"
    using assms(2) q w x still_waits[of "workers \<sigma>" i "taken_by x"] unfolding worker_pops(1)
    by (auto simp: pool_ok_def no_lost_wakeup_def at_pop_def[of W_Pop])
  ultimately show ?thesis
    using assms(2) q unfolding worker_pops(1) by (simp add: pool_ok_def)
next
  case (worker_blocks i)
  have "bq_list (task_queue \<sigma>) = []" using assms(2) worker_blocks(4) bq.empty_iff by (auto simp: pool_ok_def)
  then show ?thesis
    using assms(2) worker_update[OF worker_blocks(2,3), of W_Wait] phase_update[of "workers \<sigma>" "owner \<sigma>" i W_Wait] worker_blocks(2,3)
    unfolding worker_blocks(1) by (auto simp: pool_ok_def conserved_def no_lost_wakeup_def exited_def)
next
  case (worker_runs i t)
  let ?ws = "(workers \<sigma>)[i := W_Pop]"
  note w = worker_update[OF worker_runs(2,3), of W_Pop]
  have "mset (ran \<sigma> @ [t]) + total runs ?ws = mset (ran \<sigma>) + total runs (workers \<sigma>)" "total exited ?ws = total exited (workers \<sigma>)"
    "total at_pop (workers \<sigma>) \<le> total at_pop ?ws"
    using w by (simp_all add: exited_def at_pop_def)
  note w' = this
  have "conserved (map Some tasks @ replicate n None) \<sigma>'"
    by (rule conserved_cong[of _ \<sigma>]) (use assms(2) w' in \<open>simp_all add: worker_runs(1) pool_ok_def\<close>)
  moreover have "no_lost_wakeup \<sigma>'"
    using assms(2) w' still_waits[of "workers \<sigma>" i W_Pop] unfolding worker_runs(1)
    by (auto simp: pool_ok_def no_lost_wakeup_def)
  ultimately show ?thesis
    using assms(2) phase_update[of "workers \<sigma>" "owner \<sigma>" i W_Pop] worker_runs by (simp add: pool_ok_def)
qed

lemma spurious_keeps_ok:
  assumes "pool_wakeup \<sigma> \<sigma>'" "pool_ok n tasks \<sigma>"
  shows "pool_ok n tasks \<sigma>'"
  using assms(1)
proof cases
  case (worker_wakes i)
  then show ?thesis
    using assms(2) worker_update[OF worker_wakes(2,3), of W_Pop] phase_update[of "workers \<sigma>" "owner \<sigma>" i W_Pop]
      still_waits[of "workers \<sigma>" i W_Pop]
    by (auto simp: pool_ok_def conserved_def no_lost_wakeup_def exited_def at_pop_def)
next
  case owner_wakes
  then show ?thesis using assms(2) by (auto simp: pool_ok_def conserved_def no_lost_wakeup_def)
qed

lemma reached_ok: "pool_reaches \<sigma>0 \<sigma> \<Longrightarrow> pool_ok n tasks \<sigma>0 \<Longrightarrow> pool_ok n tasks \<sigma>"
  by (induction rule: pool_reaches.induct) (auto intro: turn_keeps_ok spurious_keeps_ok)


section \<open>Every task is run once\<close>

lemma items_total: "total item_tasks (map Some tasks @ replicate n None) = mset tasks" "total item_ends (map Some tasks @ replicate n None) = n"
proof -
  have "total item_tasks (map Some tasks) = mset tasks" "total item_ends (map Some tasks) = 0"
    by (induction tasks) (simp_all add: item_ends_def)
  then show "total item_tasks (map Some tasks @ replicate n None) = mset tasks" "total item_ends (map Some tasks @ replicate n None) = n"
    by (simp_all add: total_replicate item_ends_def)
qed

lemma ran_tasks: "pool_ok n tasks \<sigma> \<Longrightarrow> mset (ran \<sigma>) + total runs (workers \<sigma>) \<subseteq># mset tasks"
proof -
  assume "pool_ok n tasks \<sigma>"
  then obtain taken rest where "taken @ rest = map Some tasks @ replicate n None" "mset (ran \<sigma>) + total runs (workers \<sigma>) = total item_tasks taken"
    by (auto simp: pool_ok_def conserved_def)
  then show ?thesis using items_total(1)[of tasks n] by (metis mset_subset_eq_add_left total_simps(3))
qed

lemma all_exited: "pool_ok n tasks \<sigma> \<Longrightarrow> total exited (workers \<sigma>) = n \<Longrightarrow>
  bq_list (task_queue \<sigma>) = [] \<and> todo n (owner \<sigma>) = [] \<and> mset (ran \<sigma>) + total runs (workers \<sigma>) = mset tasks"
proof -
  assume ok: "pool_ok n tasks \<sigma>" and ex: "total exited (workers \<sigma>) = n"
  let ?rest = "bq_list (task_queue \<sigma>) @ todo n (owner \<sigma>)"
  obtain taken where t: "taken @ ?rest = map Some tasks @ replicate n None"
    "mset (ran \<sigma>) + total runs (workers \<sigma>) = total item_tasks taken" "total item_ends taken = n"
    using ok ex by (auto simp: pool_ok_def conserved_def)
  have "?rest = []"
  proof (rule ccontr)
    assume ne: "?rest \<noteq> []"
    have "last (taken @ ?rest) = None" unfolding t(1) using ok by (simp add: pool_ok_def)
    then have "None \<in> set ?rest" using ne by (metis last_appendR last_in_set)
    then have "0 < total item_ends ?rest" by (intro total_pos) (auto simp: item_ends_def)
    moreover have "total item_ends taken + total item_ends ?rest = n"
      using items_total(2)[of tasks n] t(1) by (metis total_simps(3))
    ultimately show False using t(3) by linarith
  qed
  then show ?thesis using t items_total(1)[of tasks n] by simp
qed

lemma exited_less: "i < length ws \<Longrightarrow> ws ! i \<noteq> W_Exited \<Longrightarrow> total exited ws < length ws"
proof -
  have le: "total exited us \<le> length us" for us :: "'a worker_pc list" by (induction us) (auto simp: exited_def)
  show "i < length ws \<Longrightarrow> ws ! i \<noteq> W_Exited \<Longrightarrow> total exited ws < length ws"
  proof (induction ws arbitrary: i)
    case (Cons w ws)
    then show ?case using le[of ws] by (cases i) (auto simp: exited_def[of w] le_imp_less_Suc)
  qed simp
qed

lemma queue_moves:
  assumes ok: "pool_ok n tasks \<sigma>" and new: "W_New \<notin> set (workers \<sigma>)" and ex: "total exited (workers \<sigma>) < n"
    and q: "bq_list (task_queue \<sigma>) \<noteq> []"
  shows "\<exists>\<sigma>'. pool_turn \<sigma> \<sigma>'"
proof -
  have bq: "bq_ok (task_queue \<sigma>)" "length (workers \<sigma>) = n" using ok by (simp_all add: pool_ok_def)
  have "\<exists>w \<in> set (workers \<sigma>). w \<noteq> W_Exited"
  proof (rule ccontr)
    assume "\<not> ?thesis"
    then have "workers \<sigma> = replicate n W_Exited" using bq(2) by (auto intro: replicate_eqI)
    then show False using ex by (simp add: total_replicate exited_def)
  qed
  then obtain w where w: "w \<in> set (workers \<sigma>)" "w \<noteq> W_Exited" by blast
  have "W_Pop \<in> set (workers \<sigma>) \<or> (\<exists>t. W_Run t \<in> set (workers \<sigma>))"
  proof (cases w)
    case W_Wait
    then have "length (bq_list (task_queue \<sigma>)) \<le> total at_pop (workers \<sigma>)" using ok w by (simp add: pool_ok_def no_lost_wakeup_def)
    then have "0 < total at_pop (workers \<sigma>)" using q by (cases "bq_list (task_queue \<sigma>)") auto
    then show ?thesis using total_pos_ex[of at_pop "workers \<sigma>"] by (auto simp: at_pop_def split: if_splits)
  qed (use w new in auto)
  then show ?thesis
  proof (elim disjE exE)
    assume "W_Pop \<in> set (workers \<sigma>)"
    then obtain i where "i < length (workers \<sigma>)" "workers \<sigma> ! i = W_Pop" by (auto simp: in_set_conv_nth)
    moreover have ne: "\<not> bq_empty (task_queue \<sigma>)" using bq.empty_iff[OF bq(1)] q by simp
    moreover obtain x q' where "bq_pop (task_queue \<sigma>) = Some (x, q')" using bq.pop_law[OF bq(1) ne] by blast
    ultimately show ?thesis by (blast intro: pool_turn.worker_pops)
  next
    fix t
    assume "W_Run t \<in> set (workers \<sigma>)"
    then show ?thesis by (auto simp: in_set_conv_nth intro: pool_turn.worker_runs)
  qed
qed

lemma pool_moves:
  assumes ok: "pool_ok n tasks \<sigma>" and live: "owner \<sigma> \<noteq> Stopped"
  shows "\<exists>\<sigma>'. pool_turn \<sigma> \<sigma>'"
proof (cases "next_push n (owner \<sigma>)")
  case None
  then show ?thesis
  proof (cases "owner_move (workers \<sigma>) (owner \<sigma>)")
    case (Some p)
    then show ?thesis by (cases p) (auto intro: pool_turn.owner_moves)
  next
    case mv: None
    have n: "length (workers \<sigma>) = n" and ph: "phase_ok (workers \<sigma>) (owner \<sigma>)" using ok by (simp_all add: pool_ok_def)
    obtain i where i: "owner \<sigma> = Joining i" "i < n" "workers \<sigma> ! i \<noteq> W_Exited"
    proof (cases "owner \<sigma>")
      case (Joining i)
      then show ?thesis using mv n that by (auto split: if_splits worker_pc.splits)
    next
      case (Adding ts)
      then show ?thesis using mv None by (cases ts) auto
    qed (use mv None n live in \<open>auto split: if_splits\<close>)
    have less: "total exited (workers \<sigma>) < n" using exited_less[of i "workers \<sigma>"] i n by simp
    obtain taken where t: "taken @ bq_list (task_queue \<sigma>) = map Some tasks @ replicate n None" "total item_ends taken < n"
      using ok less n by (auto simp: pool_ok_def conserved_def i(1))
    have "bq_list (task_queue \<sigma>) \<noteq> []" using t items_total(2)[of tasks n] by auto
    moreover have "W_New \<notin> set (workers \<sigma>)" using ph by (simp add: phase_ok_def i(1))
    ultimately show ?thesis using queue_moves[OF ok _ less] by blast
  qed
next
  case (Some xp)
  obtain x pc where xp: "next_push n (owner \<sigma>) = Some (x, pc)" using Some by (cases xp) auto
  have n: "length (workers \<sigma>) = n" and q: "bq_ok (task_queue \<sigma>)" and ph: "phase_ok (workers \<sigma>) (owner \<sigma>)"
    using ok by (simp_all add: pool_ok_def)
  have new: "W_New \<notin> set (workers \<sigma>)"
    using xp ph by (cases "(n, owner \<sigma>)" rule: next_push.cases) (auto simp: phase_ok_def)
  have "total exited (workers \<sigma>) \<noteq> n"
    using all_exited[OF ok] push_todo[OF xp] by auto
  moreover have "total exited us \<le> length us" for us :: "'a worker_pc list" by (induction us) (auto simp: exited_def)
  ultimately have less: "total exited (workers \<sigma>) < n" using n by (metis le_neq_implies_less)
  show ?thesis
  proof (cases "bq_full (task_queue \<sigma>)")
    case True
    then show ?thesis using queue_moves[OF ok new less] bq.full_not_empty[OF q] by blast
  next
    case False
    obtain q' where q': "bq_push x (task_queue \<sigma>) = Some q'" using bq.push_law[OF q False] by blast
    have w: "\<not> owner_waits \<sigma>" using ok False by (auto simp: pool_ok_def no_lost_wakeup_def)
    have "\<exists>ws. notified (workers \<sigma>) ws"
    proof (cases "W_Wait \<in> set (workers \<sigma>)")
      case True
      then show ?thesis by (auto simp: in_set_conv_nth intro: notified.somebody)
    qed (blast intro: notified.nobody)
    then show ?thesis using pool_turn.owner_pushes[OF w _ False q'] xp n by blast
  qed
qed

section \<open>The pool comes to its end\<close>

fun worker_fuel :: "'task worker_pc \<Rightarrow> nat" where
  "worker_fuel W_Pop = 1"
| "worker_fuel (W_Run t) = 2"
| "worker_fuel w = 0"

fun owner_fuel :: "nat \<Rightarrow> 'task owner_pc \<Rightarrow> nat" where
  "owner_fuel n (Starting i ts) = 2 * (n - i) + n + 4"
| "owner_fuel n (Adding ts) = n + 3"
| "owner_fuel n (Stopping k) = n + 2"
| "owner_fuel n (Joining i) = n - i + 1"
| "owner_fuel n Stopped = 0"

definition pool_fuel :: "'task task_pool \<Rightarrow> nat" where
  "pool_fuel \<sigma> = 5 * length (todo (length (workers \<sigma>)) (owner \<sigma>)) + 3 * length (bq_list (task_queue \<sigma>)) +
     total worker_fuel (workers \<sigma>) + (if owner_waits \<sigma> then 0 else 1) + owner_fuel (length (workers \<sigma>)) (owner \<sigma>)"

lemma notified_fuel: "notified ws ws' \<Longrightarrow> total worker_fuel ws' \<le> total worker_fuel ws + 1"
proof (induction rule: notified.induct)
  case (somebody i ws)
  then show ?case using total_update[of i ws worker_fuel W_Pop] by simp
qed simp

lemma push_fuel: "next_push n pc = Some (x, pc') \<Longrightarrow> owner_fuel n pc' = owner_fuel n pc"
  by (cases "(n, pc)" rule: next_push.cases) (auto split: if_splits)

lemma move_fuel:
  assumes "owner_move ws pc = Some (ws', pc')" "phase_ok ws pc"
  shows "total worker_fuel ws' + owner_fuel (length ws) pc' < total worker_fuel ws + owner_fuel (length ws) pc"
proof (cases pc)
  case (Starting i ts)
  then show ?thesis
    using assms total_update[of i ws worker_fuel W_Pop] by (auto simp: phase_ok_def split: if_splits)
qed (use assms in \<open>auto split: if_splits worker_pc.splits\<close>)

lemma turn_uses_fuel:
  assumes "pool_turn \<sigma> \<sigma>'" "pool_ok n tasks \<sigma>"
  shows "pool_fuel \<sigma>' < pool_fuel \<sigma>"
  using assms(1)
proof cases
  case (owner_moves ws pc)
  then show ?thesis
    using move_keeps[OF owner_moves(2)] move_fuel[OF owner_moves(2)] assms(2) by (auto simp: pool_fuel_def pool_ok_def)
next
  case (owner_pushes x pc q ws)
  have ok: "bq_ok (task_queue \<sigma>)" using assms(2) by (simp add: pool_ok_def)
  show ?thesis
    using bq.pushed[OF ok owner_pushes(4,5)] notified_changes[OF owner_pushes(6), of pc] notified_fuel[OF owner_pushes(6)]
      push_todo[OF owner_pushes(3)] push_fuel[OF owner_pushes(3)]
    unfolding owner_pushes(1) by (simp add: pool_fuel_def)
next
  case (worker_pops i x q)
  have ok: "bq_ok (task_queue \<sigma>)" using assms(2) by (simp add: pool_ok_def)
  have "worker_fuel (taken_by x) \<le> 2" by (cases x) (simp_all add: taken_by_def)
  then show ?thesis
    using bq.popped[OF ok worker_pops(4,5)] total_update[OF worker_pops(2), of worker_fuel "taken_by x"] worker_pops(3)
    unfolding worker_pops(1) by (auto simp: pool_fuel_def)
next
  case (worker_blocks i)
  then show ?thesis using total_update[OF worker_blocks(2), of worker_fuel W_Wait] by (simp add: pool_fuel_def)
next
  case (worker_runs i t)
  then show ?thesis using total_update[OF worker_runs(2), of worker_fuel W_Pop] by (simp add: pool_fuel_def)
qed (simp add: pool_fuel_def)

lemma pool_stopped:
  assumes "pool_ok n tasks \<sigma>" "owner \<sigma> = Stopped"
  shows "mset (ran \<sigma>) = mset tasks \<and> set (workers \<sigma>) \<subseteq> {W_Exited} \<and> bq_list (task_queue \<sigma>) = []"
proof -
  have n: "length (workers \<sigma>) = n" and ex: "set (workers \<sigma>) \<subseteq> {W_Exited}" using assms by (simp_all add: pool_ok_def phase_ok_def)
  then have "workers \<sigma> = replicate n W_Exited" by (auto intro: replicate_eqI)
  then have "total exited (workers \<sigma>) = n" "total runs (workers \<sigma>) = {#}"
    by (simp_all add: total_replicate exited_def)
  then show ?thesis using all_exited[OF assms(1)] ex by simp
qed

text \<open>
  C5. In every interleaving of the owner and the workers, spurious wakeups included, no task is run more often than
  it was added, some thread can always go on until the owner has stopped the pool, and then every task has been run
  exactly once, all threads have ended and the queue is empty.
\<close>
theorem task_pool_runs_all:
  assumes "new_task_pool n tasks = Some \<sigma>0" "pool_reaches \<sigma>0 \<sigma>"
  shows "mset (ran \<sigma>) \<subseteq># mset tasks \<and> (owner \<sigma> \<noteq> Stopped \<longrightarrow> (\<exists>\<sigma>'. pool_turn \<sigma> \<sigma>')) \<and>
    (owner \<sigma> = Stopped \<longrightarrow> mset (ran \<sigma>) = mset tasks \<and> set (workers \<sigma>) \<subseteq> {W_Exited} \<and> bq_list (task_queue \<sigma>) = [])"
proof -
  have ok: "pool_ok n tasks \<sigma>" by (rule reached_ok[OF assms(2) new_pool_ok[OF assms(1)]])
  have "mset (ran \<sigma>) \<subseteq># mset tasks" using ran_tasks[OF ok] by (metis mset_subset_eq_add_left subset_mset.order_trans)
  moreover have "owner \<sigma> \<noteq> Stopped \<longrightarrow> (\<exists>\<sigma>'. pool_turn \<sigma> \<sigma>')" using pool_moves[OF ok] by blast
  ultimately show ?thesis using pool_stopped[OF ok] by blast
qed

text \<open>
  C6. Without spurious wakeups the pool comes to its end: from every state it can reach, no run has more turns than
  the fuel of the state, and one that goes on as long as it can ends with the pool stopped.
\<close>
theorem task_pool_ends:
  assumes "new_task_pool n tasks = Some \<sigma>0" "pool_reaches \<sigma>0 \<sigma>" "(pool_turn ^^ k) \<sigma> \<sigma>'"
  shows "k \<le> pool_fuel \<sigma> \<and> ((\<exists>\<sigma>''. pool_turn \<sigma>' \<sigma>'') \<or> owner \<sigma>' = Stopped)"
proof -
  have "pool_ok n tasks \<sigma>" by (rule reached_ok[OF assms(2) new_pool_ok[OF assms(1)]])
  with assms(3) have "pool_ok n tasks \<sigma>' \<and> k + pool_fuel \<sigma>' \<le> pool_fuel \<sigma>"
  proof (induction k arbitrary: \<sigma>')
    case (Suc k)
    then obtain \<tau> where "(pool_turn ^^ k) \<sigma> \<tau>" "pool_turn \<tau> \<sigma>'" by auto
    then show ?case using Suc.IH[of \<tau>] Suc.prems(2) turn_keeps_ok[of \<tau> \<sigma>' n tasks] turn_uses_fuel[of \<tau> \<sigma>' n tasks] by fastforce
  qed simp
  then show ?thesis using pool_moves[of n tasks \<sigma>'] by auto
qed

theorem task_pool_runs_all_witness:
  "\<exists>\<sigma>0. new_task_pool 2 ''abc'' = Some \<sigma>0 \<and> mset (ran \<sigma>0) \<subseteq># mset ''abc'' \<and> (\<exists>\<sigma>'. pool_turn \<sigma>0 \<sigma>')"
proof -
  obtain \<sigma>0 where n: "new_task_pool 2 ''abc'' = Some \<sigma>0" by (auto simp: new_task_pool_def new_bounded_queue_def)
  then have "owner \<sigma>0 \<noteq> Stopped" by (auto simp: new_task_pool_def new_bounded_queue_def)
  then show ?thesis using n task_pool_runs_all[OF n pool_reaches.at_once] by blast
qed

theorem task_pool_ends_witness:
  "\<exists>\<sigma>0. new_task_pool 2 ''abc'' = Some \<sigma>0 \<and> pool_fuel \<sigma>0 = 36 \<and> (\<forall>k \<sigma>'. (pool_turn ^^ k) \<sigma>0 \<sigma>' \<longrightarrow> k \<le> 36)"
proof -
  obtain \<sigma>0 where n: "new_task_pool 2 ''abc'' = Some \<sigma>0" by (auto simp: new_task_pool_def new_bounded_queue_def)
  then have "pool_fuel \<sigma>0 = 36" by (auto simp: new_task_pool_def new_bounded_queue_def pool_fuel_def bq_list_def total_replicate)
  then show ?thesis using n task_pool_ends[OF n pool_reaches.at_once] by (intro exI[of _ \<sigma>0]) auto
qed

text \<open>Tasks added before \<open>Start\<close>: more of them than threads block the owner for ever.\<close>

definition not_started :: "nat \<Rightarrow> 'task list \<Rightarrow> 'task task_pool option" where
  "not_started n tasks = map_option (\<lambda>\<sigma>. \<sigma>\<lparr>owner := Adding tasks\<rparr>) (new_task_pool n [])"

text \<open>
  A pool of \<open>n\<close> threads that is given more than \<open>n\<close> tasks before it is started blocks its owner in \<open>Add\<close>: whatever
  happens, no task is ever run and the owner never gets to \<open>Start\<close> or \<open>Stop\<close>.
\<close>
theorem add_before_start_blocks:
  assumes "not_started n tasks = Some \<sigma>0" "n < length tasks" "pool_reaches \<sigma>0 \<sigma>"
  shows "ran \<sigma> = [] \<and> (\<exists>ts. owner \<sigma> = Adding ts \<and> ts \<noteq> [])"
proof -
  define stuck where "stuck \<sigma> \<longleftrightarrow> workers \<sigma> = replicate n W_New \<and> bq_ok (task_queue \<sigma>) \<and> bq_capacity (task_queue \<sigma>) = n \<and> ran \<sigma> = [] \<and>
    (\<exists>ts. owner \<sigma> = Adding ts \<and> length (bq_list (task_queue \<sigma>)) + length ts = length tasks)" for \<sigma> :: "'a task_pool"
  have ne: "ts \<noteq> []" if "stuck \<sigma>" "owner \<sigma> = Adding ts" for \<sigma> :: "'a task_pool" and ts
    using that assms(2) bq.bound[of "task_queue \<sigma>"] by (auto simp: stuck_def)
  have step: "stuck \<tau>'" if tn: "pool_turn \<tau> \<tau>'" and s: "stuck \<tau>" for \<tau> \<tau>'
    using tn
  proof cases
    case (owner_moves ws pc)
    then show ?thesis using s ne[OF s] by (auto simp: stuck_def split: if_splits)
  next
    case (owner_pushes x pc q ws)
    have ok: "bq_ok (task_queue \<tau>)" using s by (simp add: stuck_def)
    obtain ts where ts: "owner \<tau> = Adding ts" "length (bq_list (task_queue \<tau>)) + length ts = length tasks"
      using s by (auto simp: stuck_def)
    obtain t ts' where "ts = t # ts'" "pc = Adding ts'" using owner_pushes(3) ts(1) by (cases ts) auto
    moreover have "ws = workers \<tau>" using owner_pushes(6) s by (cases rule: notified.cases) (auto simp: stuck_def)
    ultimately show ?thesis
      using s bq.pushed[OF ok owner_pushes(4,5)] ts(2) unfolding owner_pushes(1) by (auto simp: stuck_def)
  qed (use s in \<open>auto simp: stuck_def\<close>)
  have wake: "stuck \<tau>'" if "pool_wakeup \<tau> \<tau>'" "stuck \<tau>" for \<tau> \<tau>'
    using that(1) by cases (use that(2) in \<open>auto simp: stuck_def\<close>)
  have "stuck \<sigma>0"
    using assms(1) by (auto simp: not_started_def new_task_pool_def stuck_def dest: new_bounded_queue_ok split: option.splits)
  with assms(3) have "stuck \<sigma>" by (induction rule: pool_reaches.induct) (auto intro: step wake)
  then show ?thesis using ne[of \<sigma>] by (auto simp: stuck_def)
qed

theorem add_before_start_blocks_witness:
  "\<forall>\<sigma>0 \<sigma>. not_started 2 ''abc'' = Some \<sigma>0 \<longrightarrow> pool_reaches \<sigma>0 \<sigma> \<longrightarrow> ran \<sigma> = []"
proof (intro allI impI)
  fix \<sigma>0 \<sigma> :: "char task_pool"
  assume "not_started 2 ''abc'' = Some \<sigma>0" "pool_reaches \<sigma>0 \<sigma>"
  then show "ran \<sigma> = []" using add_before_start_blocks[of 2 "''abc''" \<sigma>0 \<sigma>] by simp
qed

end
