(* ===== verification/Closure.thy ===== *)
theory Closure
  imports TaskPool
begin

text \<open>
  The tasks of the thread pool: \<open>src/utils/cppjieba/limonp/Closure.hpp\<close>, and what \<open>ThreadPool::Worker::Run\<close> does with
  one.  A closure keeps a function, or an object's address and a member function, with copies of up to three
  arguments.  A call works on the memory of the program and may throw; that the bodies of two closures
  are not interleaved is what the caller has to see to.
\<close>

section \<open>Closures\<close>

datatype thrown = No_Throw | Std_Exception string | Other_Throw

type_synonym 's effect = "'s \<Rightarrow> 's \<times> thrown"

datatype ('s, 'v, 'o) closure =
    Closure0 "'s effect"
  | Closure1 "'v \<Rightarrow> 's effect" 'v
  | Closure2 "'v \<Rightarrow> 'v \<Rightarrow> 's effect" 'v 'v
  | Closure3 "'v \<Rightarrow> 'v \<Rightarrow> 'v \<Rightarrow> 's effect" 'v 'v 'v
  | ObjClosure0 'o "'o \<Rightarrow> 's effect"
  | ObjClosure1 'o "'o \<Rightarrow> 'v \<Rightarrow> 's effect" 'v
  | ObjClosure2 'o "'o \<Rightarrow> 'v \<Rightarrow> 'v \<Rightarrow> 's effect" 'v 'v
  | ObjClosure3 'o "'o \<Rightarrow> 'v \<Rightarrow> 'v \<Rightarrow> 'v \<Rightarrow> 's effect" 'v 'v 'v

fun run_closure :: "('s, 'v, 'o) closure \<Rightarrow> 's effect" where
  "run_closure (Closure0 f) = f"
| "run_closure (Closure1 f a) = f a"
| "run_closure (Closure2 f a b) = f a b"
| "run_closure (Closure3 f a b c) = f a b c"
| "run_closure (ObjClosure0 p f) = f p"
| "run_closure (ObjClosure1 p f a) = f p a"
| "run_closure (ObjClosure2 p f a b) = f p a b"
| "run_closure (ObjClosure3 p f a b c) = f p a b c"

text \<open>The overloads of \<open>NewClosure\<close>: the compiler picks one by what is called.\<close>

datatype ('s, 'v, 'o) callee =
    Fun0 "'s effect"
  | Fun1 "'v \<Rightarrow> 's effect"
  | Fun2 "'v \<Rightarrow> 'v \<Rightarrow> 's effect"
  | Fun3 "'v \<Rightarrow> 'v \<Rightarrow> 'v \<Rightarrow> 's effect"
  | Member0 "'o \<Rightarrow> 's effect"
  | Member1 "'o \<Rightarrow> 'v \<Rightarrow> 's effect"
  | Member2 "'o \<Rightarrow> 'v \<Rightarrow> 'v \<Rightarrow> 's effect"
  | Member3 "'o \<Rightarrow> 'v \<Rightarrow> 'v \<Rightarrow> 'v \<Rightarrow> 's effect"

fun new_closure :: "('s, 'v, 'o) callee \<Rightarrow> 'o option \<Rightarrow> 'v list \<Rightarrow> ('s, 'v, 'o) closure option" where
  "new_closure (Fun0 f) obj args = (case (obj, args) of (None, []) \<Rightarrow> Some (Closure0 f) | _ \<Rightarrow> None)"
| "new_closure (Fun1 f) obj args = (case (obj, args) of (None, [a]) \<Rightarrow> Some (Closure1 f a) | _ \<Rightarrow> None)"
| "new_closure (Fun2 f) obj args = (case (obj, args) of (None, [a, b]) \<Rightarrow> Some (Closure2 f a b) | _ \<Rightarrow> None)"
| "new_closure (Fun3 f) obj args = (case (obj, args) of (None, [a, b, c]) \<Rightarrow> Some (Closure3 f a b c) | _ \<Rightarrow> None)"
| "new_closure (Member0 f) obj args = (case (obj, args) of (Some p, []) \<Rightarrow> Some (ObjClosure0 p f) | _ \<Rightarrow> None)"
| "new_closure (Member1 f) obj args = (case (obj, args) of (Some p, [a]) \<Rightarrow> Some (ObjClosure1 p f a) | _ \<Rightarrow> None)"
| "new_closure (Member2 f) obj args = (case (obj, args) of (Some p, [a, b]) \<Rightarrow> Some (ObjClosure2 p f a b) | _ \<Rightarrow> None)"
| "new_closure (Member3 f) obj args = (case (obj, args) of (Some p, [a, b, c]) \<Rightarrow> Some (ObjClosure3 p f a b c) | _ \<Rightarrow> None)"

section \<open>In the pool\<close>

text \<open>The body of the worker's loop; the second component is the text that goes to the log.\<close>

definition run_task :: "('s, 'v, 'o) closure \<Rightarrow> 's \<times> string list \<Rightarrow> 's \<times> string list" where
  "run_task c = (\<lambda>(s, log).
     (case run_closure c s of
        (s', No_Throw) \<Rightarrow> (s', log)
      | (s', Std_Exception what) \<Rightarrow> (s', log @ [what])
      | (s', Other_Throw) \<Rightarrow> (s', log @ ['' unknown exception.''])))"

definition memory_after :: "('s, 'v, 'o) closure list \<Rightarrow> 's \<Rightarrow> 's" where
  "memory_after cs s = fst (fold run_task cs (s, []))"

text \<open>Two closures that commute: either order leaves the same memory.\<close>

definition independent :: "('s, 'v, 'o) closure set \<Rightarrow> bool" where
  "independent C \<longleftrightarrow> (\<forall>c \<in> C. \<forall>d \<in> C. \<forall>s. fst (run_closure c (fst (run_closure d s))) = fst (run_closure d (fst (run_closure c s))))"

lemma run_task_memory: "fst (run_task c m) = fst (run_closure c (fst m))"
  by (cases m; cases "run_closure c (fst m)"; cases "snd (run_closure c (fst m))") (simp_all add: run_task_def)

lemma fold_task_memory: "fst (fold run_task cs m) = fold (\<lambda>c s. fst (run_closure c s)) cs (fst m)"
  by (induction cs arbitrary: m) (simp_all add: run_task_memory)

lemma memory_permuted: "independent (set cs) \<Longrightarrow> mset cs = mset ds \<Longrightarrow> memory_after cs s = memory_after ds s"
proof -
  assume i: "independent (set cs)" and m: "mset cs = mset ds"
  have "fold (\<lambda>c s. fst (run_closure c s)) cs = fold (\<lambda>c s. fst (run_closure c s)) ds"
    by (rule fold_multiset_equiv[OF _ m]) (use i in \<open>auto simp: independent_def fun_eq_iff\<close>)
  then show ?thesis by (simp add: memory_after_def fold_task_memory)
qed

text \<open>
  Independent closures can be given to a pool of any size: once it has stopped, the memory is what running them
  one after the other, in the order they were added, leaves, whatever the threads did and whichever closures threw.
\<close>

theorem pool_runs_closures:
  assumes "new_task_pool n tasks = Some \<sigma>0" "pool_reaches \<sigma>0 \<sigma>" "owner \<sigma> = Stopped" "independent (set tasks)"
  shows "memory_after (ran \<sigma>) s = memory_after tasks s"
  using memory_permuted[OF assms(4), of "ran \<sigma>" s]
    pool_stopped[OF reached_ok[OF assms(2) new_pool_ok[OF assms(1)]] assms(3)] by simp

lemma pool_can_stop: "pool_ok n tasks \<sigma> \<Longrightarrow> \<exists>\<sigma>'. pool_turn\<^sup>*\<^sup>* \<sigma> \<sigma>' \<and> owner \<sigma>' = Stopped"
proof (induction "pool_fuel \<sigma>" arbitrary: \<sigma> rule: less_induct)
  case less
  show ?case
  proof (cases "owner \<sigma> = Stopped")
    case False
    then obtain \<tau> where t: "pool_turn \<sigma> \<tau>" using pool_moves[OF less.prems] by blast
    have "pool_fuel \<tau> < pool_fuel \<sigma>" using turn_uses_fuel[OF t less.prems] by simp
    from less.hyps[OF this turn_keeps_ok[OF t less.prems]] show ?thesis
      using converse_rtranclp_into_rtranclp[of pool_turn, OF t] by blast
  qed blast
qed

lemma turns_reach: "pool_turn\<^sup>*\<^sup>* \<sigma> \<sigma>' \<Longrightarrow> pool_reaches \<sigma>0 \<sigma> \<Longrightarrow> pool_reaches \<sigma>0 \<sigma>'"
  by (induction rule: rtranclp_induct) (auto intro: pool_reaches.by_turn)

text \<open>Two closures that add to a counter, and one that throws.\<close>

definition count_up :: "nat \<Rightarrow> nat effect" where
  "count_up k = (\<lambda>s. (s + k, No_Throw))"

definition throws :: "nat effect" where
  "throws = (\<lambda>s. (s, Std_Exception ''no''))"

definition three_tasks :: "(nat, nat, unit) closure list" where
  "three_tasks = [Closure1 count_up 2, Closure0 throws, Closure1 count_up 5]"

theorem pool_runs_closures_witness:
  "\<exists>\<sigma>0 \<sigma>. new_task_pool 2 three_tasks = Some \<sigma>0 \<and> pool_reaches \<sigma>0 \<sigma> \<and> owner \<sigma> = Stopped \<and> memory_after (ran \<sigma>) 0 = 7"
proof -
  obtain \<sigma>0 where n: "new_task_pool 2 three_tasks = Some \<sigma>0" by (auto simp: new_task_pool_def new_bounded_queue_def)
  obtain \<sigma> where \<sigma>: "pool_reaches \<sigma>0 \<sigma>" "owner \<sigma> = Stopped"
    using pool_can_stop[OF new_pool_ok[OF n]] turns_reach[OF _ pool_reaches.at_once] by blast
  have "independent (set three_tasks)"
    by (simp add: three_tasks_def independent_def count_up_def throws_def)
  from pool_runs_closures[OF n \<sigma> this, of 0] have "memory_after (ran \<sigma>) 0 = 7"
    by (simp add: memory_after_def three_tasks_def run_task_def count_up_def throws_def)
  then show ?thesis using n \<sigma> by blast
qed

end
