(* ===== verification/BlockingQueue.thy ===== *)
theory BlockingQueue
  imports TaskPool
begin

text \<open>
  \<open>src/utils/cppjieba/limonp/BlockingQueue.hpp\<close>: a queue without bound under a mutex and a condition.  As in the
  pool, what a thread does between taking the mutex and giving it up is one turn; the states of a thread that
  calls \<open>Pop\<close> again and again are those of the pool's workers, and \<open>W_Run x\<close> is one that has been given \<open>x\<close>.
\<close>

record 'a blocking_queue =
  poppers :: "'a worker_pc list"
  items :: "'a list"

definition open_size :: "'a blocking_queue \<Rightarrow> nat" where
  "open_size q = length (items q)"

definition open_empty :: "'a blocking_queue \<Rightarrow> bool" where
  "open_empty q \<longleftrightarrow> open_size q = 0"

inductive open_turn :: "'a blocking_queue \<Rightarrow> 'a list \<Rightarrow> 'a list \<Rightarrow> 'a blocking_queue \<Rightarrow> bool" where
  push: "notified (poppers q) ws \<Longrightarrow> open_turn q [x] [] (q\<lparr>items := items q @ [x], poppers := ws\<rparr>)"
| pop: "i < length (poppers q) \<Longrightarrow> poppers q ! i = W_Pop \<Longrightarrow> items q = x # xs \<Longrightarrow>
    open_turn q [] [x] (q\<lparr>items := xs, poppers := (poppers q)[i := W_Run x]\<rparr>)"
| wait: "i < length (poppers q) \<Longrightarrow> poppers q ! i = W_Pop \<Longrightarrow> items q = [] \<Longrightarrow>
    open_turn q [] [] (q\<lparr>poppers := (poppers q)[i := W_Wait]\<rparr>)"
| wake: "i < length (poppers q) \<Longrightarrow> poppers q ! i = W_Wait \<Longrightarrow> open_turn q [] [] (q\<lparr>poppers := (poppers q)[i := W_Pop]\<rparr>)"
| again: "i < length (poppers q) \<Longrightarrow> poppers q ! i = W_Run x \<Longrightarrow> open_turn q [] [] (q\<lparr>poppers := (poppers q)[i := W_Pop]\<rparr>)"

text \<open>A run from a fresh queue: what was pushed and what was popped, in order.\<close>

inductive open_run :: "nat \<Rightarrow> 'a list \<Rightarrow> 'a list \<Rightarrow> 'a blocking_queue \<Rightarrow> bool" for n where
  fresh: "open_run n [] [] \<lparr>poppers = replicate n W_Pop, items = []\<rparr>"
| turn: "open_run n pushed popped q \<Longrightarrow> open_turn q ins outs q' \<Longrightarrow> open_run n (pushed @ ins) (popped @ outs) q'"

definition awake_for_all :: "'a blocking_queue \<Rightarrow> bool" where
  "awake_for_all q \<longleftrightarrow> (W_Wait \<in> set (poppers q) \<longrightarrow> length (items q) \<le> total at_pop (poppers q))"

lemma one_more_awake: "i < length ws \<Longrightarrow> ws ! i \<noteq> W_Pop \<Longrightarrow> total at_pop (ws[i := W_Pop]) = total at_pop ws + 1"
  using total_update[of i ws at_pop W_Pop] by (simp add: at_pop_def)

lemma wait_before: "W_Wait \<in> set (ws[i := w]) \<Longrightarrow> w \<noteq> W_Wait \<Longrightarrow> W_Wait \<in> set ws"
  using set_update_subset_insert[of ws i w] by auto

lemma awake_turn: "open_turn q ins outs q' \<Longrightarrow> awake_for_all q \<Longrightarrow> awake_for_all q'"
proof (induction rule: open_turn.induct)
  case (push q ws x)
  from push(1) show ?case
  proof cases
    case (somebody i)
    then have "W_Wait \<in> set (poppers q)" by (metis nth_mem)
    then show ?thesis using push(2) somebody by (simp add: awake_for_all_def one_more_awake)
  qed (simp add: awake_for_all_def)
next
  case (pop i q x xs)
  then show ?case
    using total_update[OF pop(1), of at_pop "W_Run x"] by (auto simp: awake_for_all_def at_pop_def dest: wait_before)
qed (auto simp: awake_for_all_def one_more_awake dest: wait_before)

text \<open>
  Whatever the threads do, elements come out in the order they went in, each once, and no wakeup is lost:
  while there are elements, threads that sleep on the condition are not alone, one that will look is awake.
\<close>

theorem blocking_queue_fifo:
  assumes "open_run n pushed popped q"
  shows "popped @ items q = pushed \<and> (\<not> open_empty q \<and> W_Wait \<in> set (poppers q) \<longrightarrow> W_Pop \<in> set (poppers q))"
proof -
  have order: "popped @ items q = pushed" using assms
    by (induction rule: open_run.induct) (auto elim!: open_turn.cases)
  have "awake_for_all q" using assms
    by (induction rule: open_run.induct) (simp add: awake_for_all_def, blast intro: awake_turn)
  moreover have "W_Pop \<in> set ws" if "0 < total at_pop ws" for ws :: "'a worker_pc list"
    using total_pos_ex[OF that] by (auto simp: at_pop_def split: if_splits)
  ultimately have "W_Pop \<in> set (poppers q)" if "items q \<noteq> []" "W_Wait \<in> set (poppers q)"
    using that by (metis awake_for_all_def length_greater_0_conv less_le_trans)
  then show ?thesis using order by (simp add: open_empty_def open_size_def)
qed

theorem blocking_queue_fifo_witness:
  "\<exists>q. open_run 1 ''ab'' ''a'' q \<and> items q = ''b''"
proof -
  let ?q0 = "\<lparr>poppers = [W_Pop], items = []\<rparr>"
  have "open_run 1 [] [] ?q0" using open_run.fresh[of 1] by simp
  then have "open_run 1 ([] @ []) ([] @ []) (?q0\<lparr>poppers := [W_Wait]\<rparr>)"
    by (rule open_run.turn) (use open_turn.wait[of 0 ?q0] in simp)
  then have "open_run 1 (([] @ []) @ ''a'') (([] @ []) @ []) \<lparr>poppers = [W_Pop], items = ''a''\<rparr>"
    by (rule open_run.turn) (use open_turn.push[of "?q0\<lparr>poppers := [W_Wait]\<rparr>" "[W_Pop]" "CHR ''a''"] notified.somebody[of 0 "[W_Wait]"] in simp)
  then have "open_run 1 ((([] @ []) @ ''a'') @ ''b'') ((([] @ []) @ []) @ []) \<lparr>poppers = [W_Pop], items = ''ab''\<rparr>"
    by (rule open_run.turn) (use open_turn.push[of "\<lparr>poppers = [W_Pop], items = ''a''\<rparr>" "[W_Pop]" "CHR ''b''"] notified.nobody[of "[W_Pop]"] in simp)
  then have "open_run 1 (((([] @ []) @ ''a'') @ ''b'') @ []) (((([] @ []) @ []) @ []) @ ''a'') \<lparr>poppers = [W_Run CHR ''a''], items = ''b''\<rparr>"
    by (rule open_run.turn) (use open_turn.pop[of 0 "\<lparr>poppers = [W_Pop], items = ''ab''\<rparr>" "CHR ''a''" "''b''"] in simp)
  then have r: "open_run 1 ''ab'' ''a'' \<lparr>poppers = [W_Run CHR ''a''], items = ''b''\<rparr>" by simp
  show ?thesis using blocking_queue_fifo[OF r] r by auto
qed

end
