(* ===== verification/FileLock.thy ===== *)
theory FileLock
  imports Main
begin

text \<open>
  \<open>src/utils/cppjieba/limonp/FileLock.hpp\<close>: a lock on a file, held through a descriptor.  The object is followed with the
  system calls it makes; \<open>answer\<close> gives the result of the next one and the text of \<open>errno\<close> from the calls made so
  far.  A failed assertion is \<open>None\<close>.
\<close>

datatype lock_call = Sys_Open string | Sys_Close int | Sys_Setlk int bool

record file_lock =
  fl_fd :: int
  fl_ok :: bool
  fl_err :: string
  fl_calls :: "(lock_call \<times> int) list"

type_synonym answerer = "(lock_call \<times> int) list \<Rightarrow> lock_call \<Rightarrow> int \<times> string"

definition new_file_lock :: file_lock where
  "new_file_lock = \<lparr>fl_fd = -1, fl_ok = True, fl_err = [], fl_calls = []\<rparr>"

text \<open>Making a call, and noting that one failed.\<close>

definition make_call :: "answerer \<Rightarrow> lock_call \<Rightarrow> file_lock \<Rightarrow> int \<times> string \<times> file_lock" where
  "make_call answer c l = (let (r, e) = answer (fl_calls l) c in (r, e, l\<lparr>fl_calls := fl_calls l @ [(c, r)]\<rparr>))"

definition note_failure :: "int \<times> string \<times> file_lock \<Rightarrow> file_lock" where
  "note_failure = (\<lambda>(r, e, l). if r < 0 then l\<lparr>fl_ok := False, fl_err := e\<rparr> else l)"

definition fl_open :: "answerer \<Rightarrow> string \<Rightarrow> file_lock \<Rightarrow> file_lock option" where
  "fl_open answer fname l =
     (if fl_fd l \<noteq> -1 then None
      else let (r, e, l) = make_call answer (Sys_Open fname) l in Some (note_failure (r, e, l\<lparr>fl_fd := r\<rparr>)))"

definition fl_close :: "answerer \<Rightarrow> file_lock \<Rightarrow> file_lock" where
  "fl_close answer l = snd (snd (make_call answer (Sys_Close (fl_fd l)) l))"

definition lock_or_unlock :: "answerer \<Rightarrow> bool \<Rightarrow> file_lock \<Rightarrow> file_lock" where
  "lock_or_unlock answer lock l = note_failure (make_call answer (Sys_Setlk (fl_fd l) lock) l)"

definition fl_destroy :: "answerer \<Rightarrow> file_lock \<Rightarrow> file_lock" where
  "fl_destroy answer l = (if 0 < fl_fd l then fl_close answer l else l)"

datatype lock_op = Op_Open string | Op_Close | Op_Lock | Op_UnLock

fun lock_ops :: "answerer \<Rightarrow> lock_op list \<Rightarrow> file_lock \<Rightarrow> file_lock option" where
  "lock_ops answer [] l = Some l"
| "lock_ops answer (Op_Open f # ops) l = (case fl_open answer f l of None \<Rightarrow> None | Some l \<Rightarrow> lock_ops answer ops l)"
| "lock_ops answer (Op_Close # ops) l = lock_ops answer ops (fl_close answer l)"
| "lock_ops answer (Op_Lock # ops) l = lock_ops answer ops (lock_or_unlock answer True l)"
| "lock_ops answer (Op_UnLock # ops) l = lock_ops answer ops (lock_or_unlock answer False l)"

text \<open>The calls \<open>Ok\<close> speaks of: all but those of \<open>close\<close>.\<close>

fun noted :: "lock_call \<times> int \<Rightarrow> bool" where
  "noted (Sys_Close fd, r) \<longleftrightarrow> False"
| "noted (c, r) \<longleftrightarrow> r < 0"

definition lock_ok :: "file_lock \<Rightarrow> bool" where
  "lock_ok l \<longleftrightarrow> (fl_ok l \<longleftrightarrow> (\<forall>cr \<in> set (fl_calls l). \<not> noted cr)) \<and>
     (fl_fd l \<noteq> -1 \<longrightarrow> (\<exists>f. (Sys_Open f, fl_fd l) \<in> set (fl_calls l)))"

lemmas lock_defs = make_call_def note_failure_def fl_open_def fl_close_def lock_or_unlock_def Let_def case_prod_unfold

lemma lock_ok_ops: "lock_ok l \<Longrightarrow> lock_ops answer ops l = Some l' \<Longrightarrow> lock_ok l'"
proof (induction answer ops l rule: lock_ops.induct)
  case (2 answer f ops l)
  then show ?case by (auto simp: lock_ok_def lock_defs split: if_splits)
qed (auto simp: lock_ok_def lock_defs split: if_splits)

text \<open>
  \<open>Ok\<close> tells whether every open, lock and unlock so far has succeeded: a failure is never forgotten, and the
  descriptor is one that an open has given.
\<close>

theorem file_lock_ok:
  assumes "lock_ops answer ops new_file_lock = Some l"
  shows "(fl_ok l \<longleftrightarrow> (\<forall>cr \<in> set (fl_calls l). \<not> noted cr)) \<and>
    (fl_fd l \<noteq> -1 \<longrightarrow> (\<exists>f. (Sys_Open f, fl_fd l) \<in> set (fl_calls l)))"
  using lock_ok_ops[OF _ assms] by (simp add: lock_ok_def new_file_lock_def)

text \<open>
  \<open>Close\<close> keeps the number of the descriptor: the destructor closes it again, when it may be another file's, and
  another \<open>Open\<close> fails the assertion.
\<close>

theorem file_lock_closes_twice:
  assumes "0 < fl_fd l"
  shows "\<exists>r r'. fl_calls (fl_destroy answer (fl_close answer l)) = fl_calls l @ [(Sys_Close (fl_fd l), r), (Sys_Close (fl_fd l), r')] \<and>
    fl_open answer f (fl_close answer l) = None"
  using assms by (simp add: fl_destroy_def lock_defs)

end
