(* ===== verification/StreamOut.thy ===== *)
theory StreamOut
  imports StrUtil
begin

text \<open>
  \<open>src/utils/cppjieba/limonp/StdExtension.hpp\<close>: how containers are written to a stream, and back to strings.  \<open>p\<close> is
  what \<open><<\<close> writes for an element; a map and a set are given in the order of their iterators.
\<close>

text \<open>The loops over the elements behind the first one, with what goes between them.\<close>

fun rest_out :: "string \<Rightarrow> ('a \<Rightarrow> string) \<Rightarrow> 'a list \<Rightarrow> string \<Rightarrow> string" where
  "rest_out sep p [] os = os"
| "rest_out sep p (x # xs) os = rest_out sep p xs (os @ sep @ p x)"

abbreviation DQUOTE :: string where "DQUOTE \<equiv> [CHR 0x22]"

definition vector_out :: "('a \<Rightarrow> string) \<Rightarrow> string \<Rightarrow> 'a list \<Rightarrow> string" where
  "vector_out p os v =
     (case v of [] \<Rightarrow> os @ ''[]'' | x # xs \<Rightarrow> rest_out '', '' p xs (os @ ''['' @ p x) @ '']'')"

text \<open>Vectors of strings, and all deques, put their elements in quotes.\<close>

definition quoted_out :: "('a \<Rightarrow> string) \<Rightarrow> string \<Rightarrow> 'a list \<Rightarrow> string" where
  "quoted_out p os v =
     (case v of [] \<Rightarrow> os @ ''[]''
      | x # xs \<Rightarrow> rest_out (DQUOTE @ '', '' @ DQUOTE) p xs (os @ ''['' @ DQUOTE @ p x) @ DQUOTE @ '']'')"

definition string_vector_out :: "string \<Rightarrow> string list \<Rightarrow> string" where
  "string_vector_out os v = quoted_out (\<lambda>s. s) os v"

definition deque_out :: "('a \<Rightarrow> string) \<Rightarrow> string \<Rightarrow> 'a list \<Rightarrow> string" where
  "deque_out p os dq = quoted_out p os dq"

definition pair_out :: "('a \<Rightarrow> string) \<Rightarrow> ('b \<Rightarrow> string) \<Rightarrow> 'a \<times> 'b \<Rightarrow> string" where
  "pair_out p q pr = p (fst pr) @ '':'' @ q (snd pr)"

definition braces_out :: "('a \<Rightarrow> string) \<Rightarrow> string \<Rightarrow> 'a list \<Rightarrow> string" where
  "braces_out p os st =
     (case st of [] \<Rightarrow> os @ ''{}'' | x # xs \<Rightarrow> rest_out '', '' p xs (os @ ''{'' @ p x) @ ''}'')"

definition map_out :: "('a \<Rightarrow> string) \<Rightarrow> ('b \<Rightarrow> string) \<Rightarrow> string \<Rightarrow> ('a \<times> 'b) list \<Rightarrow> string" where
  "map_out p q os mp = braces_out (pair_out p q) os mp"

definition is_in :: "('k \<rightharpoonup> 'v) \<Rightarrow> 'k \<Rightarrow> bool" where
  "is_in contain key \<longleftrightarrow> contain key \<noteq> None"

text \<open>A string is set to what is written for a value, or to the whole rest of a file; a file gets a string at its end.\<close>

definition string_from :: "('a \<Rightarrow> string) \<Rightarrow> 'a \<Rightarrow> string" where
  "string_from p x = p x"

definition read_whole :: "string \<Rightarrow> nat \<Rightarrow> string" where
  "read_whole file pos = drop pos file"

definition write_whole :: "string \<Rightarrow> string \<Rightarrow> string" where
  "write_whole file s = file @ s"

section \<open>What is written\<close>

lemma rest_out_join: "rest_out sep p xs (os @ p x) = os @ join_str (map p (x # xs)) sep"
proof (induction xs arbitrary: os x)
  case (Cons y ys)
  from Cons[of "os @ p x @ sep" y] show ?case by simp
qed simp

lemma containers_join:
  "xs \<noteq> [] \<Longrightarrow> vector_out p os xs = os @ ''['' @ join_str (map p xs) '', '' @ '']''"
  "xs \<noteq> [] \<Longrightarrow> quoted_out p os xs = os @ ''['' @ DQUOTE @ join_str (map p xs) (DQUOTE @ '', '' @ DQUOTE) @ DQUOTE @ '']''"
  "xs \<noteq> [] \<Longrightarrow> braces_out p os xs = os @ ''{'' @ join_str (map p xs) '', '' @ ''}''"
  using rest_out_join[of "'', ''" p _ "os @ ''[''"] rest_out_join[of "DQUOTE @ '', '' @ DQUOTE" p _ "os @ ''['' @ DQUOTE"]
    rest_out_join[of "'', ''" p _ "os @ ''{''"]
  by (cases xs; simp add: vector_out_def quoted_out_def braces_out_def)+

lemma pieces_skip:
  "\<forall>d \<in> set sep. P d \<Longrightarrow> filter (\<lambda>w. w \<noteq> []) (pieces P (sep @ s)) = filter (\<lambda>w. w \<noteq> []) (pieces P s)"
proof (induction sep)
  case (Cons d sep)
  then show ?case by (subst append_Cons, subst pieces.simps) simp
qed simp

lemma pieces_of_join:
  "\<forall>x \<in> set xs. x \<noteq> [] \<and> (\<forall>c \<in> set x. \<not> P c) \<Longrightarrow> \<forall>d \<in> set sep. P d \<Longrightarrow> sep \<noteq> [] \<Longrightarrow>
     filter (\<lambda>w. w \<noteq> []) (pieces P (join_str xs sep)) = xs"
proof (induction xs)
  case (Cons x xs)
  show ?case
  proof (cases xs)
    case Nil
    then show ?thesis using Cons.prems by (simp add: pieces_last)
  next
    case (Cons y ys)
    have j: "join_str (x # xs) sep = x @ hd sep # tl sep @ join_str xs sep" using Cons.prems(3) by (simp add: Cons)
    have "pieces P (join_str (x # xs) sep) = x # pieces P (tl sep @ join_str xs sep)"
      unfolding j using Cons.prems by (intro pieces_Cons) auto
    moreover have "\<forall>d \<in> set (tl sep). P d" using Cons.prems(2,3) by (auto dest: list.set_sel(2))
    ultimately show ?thesis using Cons.prems Cons.IH by (simp add: pieces_skip)
  qed
qed (simp add: pieces.simps)

text \<open>
  What is written of a vector can be read back, by taking off the brackets and splitting at commas and blanks, when
  no element is empty or contains one of them.  The quotes around strings do not help where they do, because they are
  not escaped.
\<close>

theorem vector_out_splits:
  assumes "xs \<noteq> []" "\<forall>x \<in> set xs. p x \<noteq> [] \<and> CHR '','' \<notin> set (p x) \<and> CHR '' '' \<notin> set (p x)"
  shows "\<exists>t. vector_out p [] xs = ''['' @ t @ '']'' \<and> filter (\<lambda>w. w \<noteq> []) (split_str t '', '' None) = map p xs"
proof -
  have "filter (\<lambda>w. w \<noteq> []) (pieces (\<lambda>c. c \<in> set '', '') (join_str (map p xs) '', '')) = map p xs"
    using assms(2) by (intro pieces_of_join) auto
  then show ?thesis using containers_join(1)[OF assms(1), of p "[]"] by (simp add: split_str_def split_loop_pieces)
qed

theorem vector_out_splits_witness: "vector_out nat_str [] [10, 7] = ''[10, 7]'' \<and>
  (\<exists>t. ''[10, 7]'' = ''['' @ t @ '']'' \<and> filter (\<lambda>w. w \<noteq> []) (split_str t '', '' None) = map nat_str [10, 7])"
proof -
  have "vector_out nat_str [] [10, 7] = ''[10, 7]''" by code_simp
  moreover have "\<forall>x \<in> set [10, 7]. nat_str x \<noteq> [] \<and> CHR '','' \<notin> set (nat_str x) \<and> CHR '' '' \<notin> set (nat_str x)"
    by (auto dest: nat_str_digits simp: is_digit_code code_def)
  ultimately show ?thesis using vector_out_splits[of "[10, 7]" nat_str] by simp
qed

lemma quotes_ambiguous: "string_vector_out os [''a'', ''b''] = string_vector_out os [''a'' @ DQUOTE @ '', '' @ DQUOTE @ ''b'']"
  by (simp add: string_vector_out_def quoted_out_def)

end
