(* ===== verification/Redis.thy ===== *)
theory Redis
  imports IniConf SharedRing
begin

text \<open>
  The Redis client (\<open>src/utils/op_redis.hpp\<close>).  The server is a function from its state and the words of a command to
  a reply, \<open>None\<close> for the null pointer hiredis returns on an error of the connection.  The client passes keys and
  values as C strings.  \<open>set_string\<close> and \<open>set_list\<close> are declared to return a number and do not, which is
  undefined in C++ once they get to their end (\<open>Fell_Off\<close>).
\<close>

section \<open>The client\<close>

record redis_reply =
  reply_str :: "string option"
  reply_len :: nat
  reply_integer :: int
  reply_element :: "string list"

type_synonym 'd redis_server = "'d \<Rightarrow> string list \<Rightarrow> redis_reply option \<times> 'd"

datatype 'a redis_end = Redis_Exit | Null_Reply | Past_End | Fell_Off | Redis_Value 'a

text \<open>\<open>Redis::connect\<close>; \<open>reachable\<close> says where \<open>redisConnect\<close> succeeds.  The password is not sent.\<close>

definition redis_connect :: "(string \<Rightarrow> int \<Rightarrow> bool) \<Rightarrow> string \<Rightarrow> int \<Rightarrow> string \<Rightarrow> (string \<times> int) redis_end" where
  "redis_connect reachable host port passwd =
     (if reachable (c_str host) port then Redis_Value (c_str host, port) else Redis_Exit)"

definition redis_start :: "(string \<Rightarrow> string option) \<Rightarrow> (string \<Rightarrow> int \<Rightarrow> bool) \<Rightarrow> string \<Rightarrow> (string \<times> int) redis_end" where
  "redis_start files reachable redis_conf_path =
     (let p = init_from_file empty_parser redis_conf_path files;
          (host, p) = get_value p ''HOST''; (port, p) = get_value p ''PORT''; (passwd, p) = get_value p ''PASSWD'' in
      redis_connect reachable host (atoi (c_str port)) passwd)"

definition set_string :: "'d redis_server \<Rightarrow> string \<Rightarrow> string \<Rightarrow> 'd \<Rightarrow> int redis_end \<times> 'd" where
  "set_string srv key s d =
     (case srv d [''SET'', c_str key, c_str s] of (None, d) \<Rightarrow> (Redis_Exit, d) | (Some _, d) \<Rightarrow> (Fell_Off, d))"

definition get_string :: "'d redis_server \<Rightarrow> string \<Rightarrow> 'd \<Rightarrow> string redis_end \<times> 'd" where
  "get_string srv key d =
     (case srv d [''GET'', c_str key] of
        (None, d) \<Rightarrow> (Redis_Exit, d)
      | (Some r, d) \<Rightarrow> if reply_len r = 0 then (Redis_Exit, d)
          else (case reply_str r of None \<Rightarrow> (Null_Reply, d) | Some s \<Rightarrow> (Redis_Value (c_str s), d)))"

fun set_list :: "'d redis_server \<Rightarrow> string \<Rightarrow> int list \<Rightarrow> 'd \<Rightarrow> int redis_end \<times> 'd" where
  "set_list srv key [] d = (Fell_Off, d)"
| "set_list srv key (v # vs) d =
     (case srv d [''RPUSH'', c_str key, int_str v] of (None, d) \<Rightarrow> (Redis_Exit, d) | (Some _, d) \<Rightarrow> set_list srv key vs d)"

text \<open>A \<open>size_t\<close> of 64 bits, and what \<open>%d\<close> makes of one.\<close>

definition to_size :: "int \<Rightarrow> nat" where
  "to_size i = nat (i mod 2 ^ 64)"

definition as_int32 :: "int \<Rightarrow> int" where
  "as_int32 i = (i + 2 ^ 31) mod 2 ^ 32 - 2 ^ 31"

definition get_list :: "'d redis_server \<Rightarrow> string \<Rightarrow> 'd \<Rightarrow> int list redis_end \<times> 'd" where
  "get_list srv key d =
     (case srv d [''LLEN'', c_str key] of
        (None, d) \<Rightarrow> (Null_Reply, d)
      | (Some r, d) \<Rightarrow>
          let n = to_size (reply_integer r) in
          (case srv d [''LRANGE'', c_str key, int_str 0, int_str (as_int32 (int n - 1))] of
             (None, d) \<Rightarrow> (Null_Reply, d)
           | (Some r, d) \<Rightarrow> if length (reply_element r) < n then (Past_End, d)
               else (Redis_Value (map (\<lambda>s. atoi (c_str s)) (take n (reply_element r))), d)))"

section \<open>What a server does\<close>

text \<open>
  The documented behaviour of the three commands on the lists a state of the server holds.
\<close>

definition keeps_lists :: "'d redis_server \<Rightarrow> ('d \<Rightarrow> string \<Rightarrow> string list) \<Rightarrow> bool" where
  "keeps_lists srv held \<longleftrightarrow> (\<forall>d k.
     (\<forall>v. \<exists>r d'. srv d [''RPUSH'', k, v] = (Some r, d') \<and> held d' = (held d)(k := held d k @ [v])) \<and>
     (\<exists>r d'. srv d [''LLEN'', k] = (Some r, d') \<and> reply_integer r = int (length (held d k)) \<and> held d' = held d) \<and>
     (\<forall>m. -1 \<le> m \<longrightarrow> (\<exists>r d'. srv d [''LRANGE'', k, int_str 0, int_str m] = (Some r, d') \<and>
       reply_element r = (if m = -1 then held d k else take (nat m + 1) (held d k)) \<and> held d' = held d)))"

lemma set_list_appends:
  "keeps_lists srv held \<Longrightarrow>
     \<exists>d'. set_list srv key vs d = (Fell_Off, d') \<and> held d' = (held d)(c_str key := held d (c_str key) @ map int_str vs)"
proof (induction vs arbitrary: d)
  case (Cons v vs)
  obtain r d1 where d1: "srv d [''RPUSH'', c_str key, int_str v] = (Some r, d1)"
    "held d1 = (held d)(c_str key := held d (c_str key) @ [int_str v])"
    using Cons.prems unfolding keeps_lists_def by blast
  show ?case using Cons.IH[OF Cons.prems, of d1] d1 by (auto simp del: fun_upd_apply simp: fun_upd_same)
qed simp

lemma int_str_no_NUL: "NUL \<notin> set (int_str i)"
  by (auto simp: int_str_def dest!: nat_str_digits simp: is_digit_code codes)

text \<open>
  \<open>set_list\<close> adds to the list that is there, it does not set it: afterwards \<open>get_list\<close> gives the numbers of the
  old list and then the new ones, in order, and changes nothing.  Only for a new key is that what was set.  \<open>set_list\<close>
  itself never returns.
\<close>

theorem redis_list_roundtrip:
  assumes "keeps_lists srv held" "held d (c_str key) = map int_str us" "length us + length vs < 2 ^ 31"
  shows "\<exists>d' d''. set_list srv key vs d = (Fell_Off, d') \<and> get_list srv key d' = (Redis_Value (us @ vs), d'') \<and>
    held d'' = (held d)(c_str key := map int_str (us @ vs))"
proof -
  let ?k = "c_str key" and ?l = "map int_str (us @ vs)"
  obtain d1 where d1: "set_list srv key vs d = (Fell_Off, d1)" "held d1 = (held d)(?k := ?l)"
    using set_list_appends[OF assms(1), of key vs d] assms(2) by auto
  obtain r d2 where d2: "srv d1 [''LLEN'', ?k] = (Some r, d2)" "reply_integer r = int (length ?l)" "held d2 = held d1"
    using assms(1) d1(2) unfolding keeps_lists_def by (metis fun_upd_same)
  have n: "to_size (reply_integer r) = length ?l" using assms(3) by (simp add: d2(2) to_size_def)
  have m: "as_int32 (int (length ?l) - 1) = int (length ?l) - 1" using assms(3) by (simp add: as_int32_def)
  have "-1 \<le> int (length ?l) - 1" by simp
  then obtain r' d3 where d3: "srv d2 [''LRANGE'', ?k, int_str 0, int_str (int (length ?l) - 1)] = (Some r', d3)"
    "reply_element r' = (if int (length ?l) - 1 = -1 then held d2 ?k else take (nat (int (length ?l) - 1) + 1) (held d2 ?k))"
    "held d3 = held d2"
    using assms(1) unfolding keeps_lists_def by blast
  have e: "reply_element r' = ?l" using d3(2) d2(3) d1(2) by (auto simp: nat_diff_distrib)
  have "get_list srv key d1 = (Redis_Value (map (\<lambda>s. atoi (c_str s)) ?l), d3)"
    unfolding get_list_def d2(1) by (simp only: prod.case option.case Let_def n m d3(1) e) simp
  moreover have "map (\<lambda>s. atoi (c_str s)) ?l = us @ vs" by (simp add: comp_def c_str_id int_str_no_NUL)
  ultimately show ?thesis using d1 d2(3) d3(3) by simp
qed

text \<open>A server that does so.\<close>

definition small_redis :: "(string \<Rightarrow> string list) redis_server" where
  "small_redis d cmd =
     (let empty = \<lparr>reply_str = None, reply_len = 0, reply_integer = 0, reply_element = []\<rparr> in
      case cmd of
        [c, k] \<Rightarrow> (Some (empty\<lparr>reply_integer := int (length (d k))\<rparr>), d)
      | [c, k, v] \<Rightarrow> (Some empty, d(k := d k @ [v]))
      | [c, k, a, b] \<Rightarrow> (Some (empty\<lparr>reply_element := (if atoi b = -1 then d k else take (nat (atoi b) + 1) (d k))\<rparr>), d)
      | _ \<Rightarrow> (None, d))"

theorem redis_list_roundtrip_witness:
  "\<exists>d' d''. set_list small_redis ''k'' [5, -7] (\<lambda>_. [''1'']) = (Fell_Off, d') \<and>
    get_list small_redis ''k'' d' = (Redis_Value [1, 5, -7], d'')"
proof -
  have "keeps_lists small_redis (\<lambda>d. d)" by (simp add: keeps_lists_def small_redis_def)
  moreover have "[''1''] = map int_str [1]" by code_simp
  ultimately show ?thesis
    using redis_list_roundtrip[of small_redis "\<lambda>d. d" "\<lambda>_. [''1'']" "''k''" "[1]" "[5, -7]"] by auto
qed

text \<open>An empty value cannot be told from an error: \<open>get_string\<close> ends the process.\<close>

lemma get_empty_string_exits:
  "srv d [''GET'', c_str key] = (Some r, d') \<Longrightarrow> reply_len r = 0 \<Longrightarrow> get_string srv key d = (Redis_Exit, d')"
  by (simp add: get_string_def)

end
