(* ===== verification/Gbk.thy ===== *)
theory Gbk
  imports SharedRing
begin

text \<open>
  \<open>src/utils/gbk2utf8.cc\<close>: the conversion of pages that are not in UTF-8.  \<open>iconv\<close> is a parameter: from the input and
  the room in the output it gives the bytes it has written when it returns and its result, negative for an error.
\<close>

type_synonym converter = "string \<Rightarrow> nat \<Rightarrow> string \<times> int"

text \<open>The overload on buffers: what is written and the room left in the output.\<close>

definition gbk2utf8_buffer :: "converter \<Rightarrow> string \<Rightarrow> nat \<Rightarrow> string \<times> nat \<times> int" where
  "gbk2utf8_buffer iconv input room =
     (let (out, ret) = iconv input room in (out, room - length out, ret))"

text \<open>
  The overload on strings, with a buffer of zeros of \<open>2 * n + 1\<close> bytes that is read as a C string: the result and
  the new value of \<open>output\<close>, \<open>None\<close> when the buffer has no zero left.
\<close>

definition gbk2utf8 :: "converter \<Rightarrow> string \<Rightarrow> (string \<times> int) option" where
  "gbk2utf8 iconv input =
     (let n = 2 * length input + 1; (out, ret) = iconv input n; buf = out @ replicate (n - length out) NUL in
      if NUL \<in> set buf then Some (c_str buf, ret) else None)"

text \<open>
  GBK needs at most three bytes of UTF-8 for two of its own, so the buffer is large enough.  When \<open>iconv\<close> fails the
  string is replaced all the same, by what was converted up to the failure.
\<close>

theorem gbk2utf8_result:
  assumes "iconv input (2 * length input + 1) = (out, ret)" "2 * length out \<le> 3 * length input" "NUL \<notin> set out"
  shows "gbk2utf8 iconv input = Some (out, ret)"
proof -
  have "length out < 2 * length input + 1" using assms(2) by linarith
  then obtain k where "2 * length input + 1 - length out = Suc k" by (metis Suc_diff_Suc)
  then show ?thesis using assms(1,3) by (simp add: gbk2utf8_def Let_def c_str_append_NUL c_str_id)
qed

text \<open>A converter that stops at the first byte that is not ASCII.\<close>

definition ascii_only :: converter where
  "ascii_only s room = (let out = takeWhile (\<lambda>c. code c < 128) s in (out, if out = s then 0 else -1))"

theorem gbk2utf8_result_witness:
  "gbk2utf8 ascii_only (''page'' @ char_of (200 :: nat) # ''rest'') = Some (''page'', -1)"
  by (rule gbk2utf8_result) (simp_all add: ascii_only_def code_def)

end
