(* ===== verification/DigitSum.thy ===== *)
theory DigitSum
  imports Prelude
begin

text \<open>
  \<open>src/utils/str2sum.cc\<close>: a 16-bit checksum of a string of digits.  The difference of a character and \<open>'0'\<close> is an
  \<open>int\<close>; shifting it is undefined when it is negative, when the result does not fit 32 bits and when the
  subscript reaches 32.
\<close>

fun sum_from :: "nat \<Rightarrow> string \<Rightarrow> 16 word \<Rightarrow> 16 word option" where
  "sum_from i [] num = Some num"
| "sum_from i (c # cs) num =
     (let d = schar c - 48 in
      if 32 \<le> i \<or> d < 0 \<or> 2 ^ 32 \<le> d * 2 ^ i then None
      else let tmp = word_of_int (d * 2 ^ i) in sum_from (Suc i) cs (num + tmp))"

definition str2sum :: "string \<Rightarrow> 16 word option" where
  "str2sum str = sum_from 0 str 0"

definition digit_sum :: "nat \<Rightarrow> string \<Rightarrow> nat" where
  "digit_sum i s = (\<Sum>j<length s. (code (s ! j) - 48) * 2 ^ (i + j))"

lemma digit_sum_simps [simp]:
  "digit_sum i [] = 0" "digit_sum i (c # cs) = (code c - 48) * 2 ^ i + digit_sum (Suc i) cs"
  by (simp_all add: digit_sum_def sum.lessThan_Suc_shift del: sum.lessThan_Suc)

lemma digit_sum_append: "digit_sum i (s @ t) = digit_sum i s + digit_sum (i + length s) t"
  by (induction s arbitrary: i) simp_all

lemma digit_value: "is_digit c \<Longrightarrow> schar c - 48 = int (code c - 48) \<and> code c - 48 \<le> 9"
  by (auto simp: is_digit_code schar_def)

lemma sum_from_digits:
  "\<forall>c \<in> set s. is_digit c \<Longrightarrow> i + length s \<le> 28 \<or> s = [] \<Longrightarrow> sum_from i s num = Some (num + of_nat (digit_sum i s))"
proof (induction s arbitrary: i num)
  case (Cons c cs)
  let ?d = "code c - 48"
  have d: "schar c - 48 = int ?d" "?d \<le> 9" using digit_value[of c] Cons.prems(1) by auto
  have "(2::int) ^ i \<le> 2 ^ 27" using Cons.prems(2) by (intro power_increasing) auto
  then have "int ?d * 2 ^ i \<le> 9 * 2 ^ 27" using d(2) by (intro mult_mono) auto
  then have small: "int ?d * 2 ^ i < 2 ^ 32" by simp
  have w: "word_of_int (int ?d * 2 ^ i) = (of_nat (?d * 2 ^ i) :: 16 word)" by simp
  show ?case
    using Cons.IH[of "Suc i" "num + of_nat (?d * 2 ^ i)"] Cons.prems small d(1) w
    by (simp add: Let_def add.assoc)
qed simp

lemma digit_sum_dvd: "2 ^ i dvd digit_sum i s"
  by (auto simp: digit_sum_def power_add intro!: dvd_sum)

text \<open>
  For up to 28 digits the result is the sum of the digits weighted by powers of two, modulo \<open>2 ^ 16\<close>; what
  stands behind the sixteenth digit does not count at all.
\<close>

theorem str2sum_digits:
  assumes "\<forall>c \<in> set s. is_digit c" "length s \<le> 28"
  shows "str2sum s = Some (of_nat (digit_sum 0 s)) \<and> str2sum s = str2sum (take 16 s)"
proof -
  have v: "str2sum t = Some (of_nat (digit_sum 0 t))" if "set t \<subseteq> set s" "length t \<le> 28" for t
    using sum_from_digits[of t 0 0] assms(1) that by (auto simp: str2sum_def)
  have "digit_sum 0 s = digit_sum 0 (take 16 s) + digit_sum (length (take 16 s)) (drop 16 s)"
    using digit_sum_append[of 0 "take 16 s" "drop 16 s"] by simp
  moreover have "(2::nat) ^ 16 dvd digit_sum (length (take 16 s)) (drop 16 s)"
    using digit_sum_dvd[of 16 "drop 16 s"] by (cases "16 \<le> length s") simp_all
  ultimately have "(of_nat (digit_sum 0 s) :: 16 word) = of_nat (digit_sum 0 (take 16 s))"
    by (auto elim!: dvdE simp del: of_nat_add simp: of_nat_add[symmetric] word_of_nat_eq_iff take_bit_eq_mod)
  then show ?thesis using v[of s] v[of "take 16 s"] assms(2) set_take_subset[of 16 s] by auto
qed

theorem str2sum_digits_witness: "str2sum ''12345678901234567'' = str2sum ''1234567890123456''"
proof -
  have "\<forall>c \<in> set ''12345678901234567''. is_digit c" by (simp add: is_digit_code code_def)
  then have "str2sum ''12345678901234567'' = str2sum (take 16 ''12345678901234567'')" by (rule str2sum_digits[THEN conjunct2]) simp
  then show ?thesis by simp
qed

end
