(* ===== verification/Spec2Isabelle.thy ===== *)
theory Spec2Isabelle
  imports IniConf PoolThreads SpiderThreads Launch HttpServer SearchRank TextRank LocalVector Md5 Settings Closure
    BlockingQueue FileLock StreamOut Redis Gbk DigitSum
begin

text \<open>
  A verification development of amigao, a small search engine (sources under \<open>src/src\<close>; the paths below
  are relative to that directory).

  \<^bold>\<open>The program.\<close>  \<open>spider/master.cc\<close> creates a shared memory segment, fills its queue of addresses and
  starts the workers.  A crawl worker takes an address from the queue (or from a file), downloads the page
  and puts it into the queue of pages; a parse worker takes a page, walks its HTML tree for links and text,
  puts the links back into the queue of addresses and has a valuation strategy enter the words of the page
  into the database.  \<open>http/search_server.cc\<close> answers requests: a search strategy cuts the sentence into
  words, fetches the posting rows of the words, adds up the weights and asks for the best pages.  Both
  strategies cut text with the segmenter in \<open>utils/cppjieba\<close> and talk to MariaDB through
  \<open>db/sql_db_operation.hpp\<close>, which takes its connections from the pool of \<open>db/sql_db_pool.hpp\<close>.

  \<^bold>\<open>Theories and sources.\<close>
  \<^item> Prelude: strings with their out-of-range reads, scanning loops, \<open>stringstream\<close> with what it keeps
    after a failed extraction, decimal numbers.
  \<^item> HexCodec (\<open>utils/crypt_string.cc\<close>, \<open>utils/escape_url.cc\<close>), HtmlText (\<open>utils/str2html.cc\<close>),
    UrlFormat (\<open>utils/format_url.cc\<close>, \<open>utils/parse_url.cc\<close>): the routines on byte strings.
  \<^item> IniConf (\<open>utils/ini_parser.hpp\<close>, \<open>db/db_info.hpp\<close>): the configuration of the database.
  \<^item> PoolList (\<open>db/db_pool_list.hpp\<close>), ConnPool (\<open>db/sql_db_pool.hpp\<close>, \<open>utils/maria_op.cc\<close>), PoolThreads:
    the list of connections, the pool for one thread and its history, and the pool with any number of
    threads, one lock operation at a time.
  \<^item> SqlOps (\<open>db/sql_db_operation.hpp\<close>): every operation as a state monad over the server.
  \<^item> Posting: the text of a posting row and \<open>update_weight\<close>; HeapSelect: the heap that selects a page of
    results; Search (\<open>strategy/plain_search_strategy.hpp\<close>) and Valuate
    (\<open>strategy/reverse_valuate_strategy.hpp\<close>): the two strategies over these; SearchRank: a search from the
    sentence to the results, against a server that holds a dictionary, posting rows and pages.
  \<^item> HtmlTree (\<open>utils/parse_html.cc\<close>): titles, text and links of a parsed page.  SharedRing and Spider
    (\<open>spider/shmctrl.h\<close>, \<open>crawl_worker.cc\<close>, \<open>parse_worker.cc\<close>, \<open>master.cc\<close>): the circular queues and one
    turn of each loop; SpiderThreads: any number of workers at once, a critical section at a time; Launch: the master
    process from its command line to its exit handler.  HttpServer (\<open>http/search_server.cc\<close>): requests and answers.
  \<^item> Runes (\<open>utils/cppjieba/Unicode.hpp\<close>), RuneTrie (\<open>Trie.hpp\<close>), MaxProb (\<open>MPSegment.hpp\<close>), Hmm
    (\<open>HMMSegment.hpp\<close>), Segment (\<open>PreFilter.hpp\<close>, the mixed, full and query segments, \<open>PosTagger.hpp\<close>,
    \<open>Jieba.hpp\<close>), DictTrie (\<open>DictTrie.hpp\<close>), HmmFile (\<open>HMMModel.hpp\<close>), Keywords
    (\<open>KeywordExtractor.hpp\<close>), TextRank (\<open>TextRankExtractor.hpp\<close>): the segmenter.
  \<^item> StrUtil (\<open>limonp/StringUtil.hpp\<close>), LocalVector, Md5, BoundedQueue and TaskPool (\<open>BoundedQueue.hpp\<close>,
    \<open>BoundedBlockingQueue.hpp\<close>, \<open>ThreadPool.hpp\<close>, \<open>Thread.hpp\<close>, \<open>Condition.hpp\<close>), Settings (\<open>Config.hpp\<close>,
    \<open>ArgvContext.hpp\<close>), Closure (\<open>Closure.hpp\<close>), BlockingQueue, FileLock, StreamOut (\<open>StdExtension.hpp\<close>): the
    support library the segmenter comes with.
  \<^item> Redis (\<open>utils/op_redis.hpp\<close>), Gbk (\<open>utils/gbk2utf8.cc\<close>), DigitSum (\<open>utils/str2sum.cc\<close>): smaller parts; no
    program uses the first and the last.
  \<^item> This theory: the properties that need the segmenter, the strategies and the database layer together.

  \<^bold>\<open>How state and errors are represented.\<close>  A class is a record with its members, an operation a function
  from the old state to the new one; database operations run in the library's state monad, whose state is the
  server, the number of connections taken and the log of queries.  Threads are step relations whose steps are
  critical sections or single lock operations.  A read outside a string, an assertion that fails and an
  \<open>exit\<close> are values (\<open>None\<close> or a constructor of their own), so that they can be proved to occur or not to
  occur.  Numbers keep their width where the code can overflow: weights of words are 32-bit, sums 64-bit,
  MD5 works on 32-bit words, page numbers are cast with \<open>to_short\<close>, \<open>int\<close>s read from text are clamped as
  \<open>stringstream\<close> does.  Offsets of runes and sizes of strings are unbounded, which needs texts below 4 GB.

  \<^bold>\<open>Interfaces.\<close>  Five locales state what a client may rely on, and each is interpreted on the model of the
  code that provides it: \<open>conn_list\<close> (PoolList, for the pool), \<open>shared_queue\<close> (SharedRing, for the queue of
  addresses and the queue of pages), \<open>hex_codec\<close> (HexCodec, for both escapers), \<open>bounded_fifo\<close>
  (BoundedQueue, for the pool of threads) and \<open>list_vector\<close> (LocalVector, with inline and allocated storage).

  \<^bold>\<open>What the lemmas show.\<close>
  \<^item> Connections: no thread schedule loses, shares or invents one, yet the order of the two locks allows a
    deadlock; \<open>get_connection\<close> returns under stated conditions; every database operation gives back what
    it takes.
  \<^item> Spider: the circular buffers are bounded queues; what is found on a page is what the tree holds, in
    order; links reach the queue or the file; failed downloads are recorded.  Whatever the interleaving of
    the workers, both queues stay first-in first-out and a line of the file is given to one worker; the turn
    computed for one worker alone is a run of the crew.
  \<^item> Search: posting rows keep their format and refine a list of pairs; the selection of a page is sorted
    and disjoint from the other pages; the query for a page names exactly the addresses it should; a whole
    search reports the addresses in falling order of weights times occurrences.
  \<^item> Segmenter: the cut by words maximises the sum of the weights among all divisions of the text into
    words, the cut by the model the probability of the tags; the words of a cut put together are the text,
    for every dictionary that can be loaded; keywords are those with the highest scores.
  \<^item> The master starts one crawl and one parse worker per processor, and its exit handler saves every address
    and signals exactly the workers it has started; an exit before the segment is attached is not safe.
  \<^item> Support: MD5 equals RFC 1321 on memory and files; the vectors, queues and threads do what their
    interfaces say; independent closures leave the same memory whatever the threads of the pool do.
  \<^item> The faults found are theorems too: \<open>pool_deadlock\<close>, \<open>list_lock_leaks\<close>, \<open>full_cut_loses\<close>, \<open>late_user_dict_dangles\<close>,
    \<open>cut_letter_finds_nothing\<close> below, and others beside the component they concern.

  \<^bold>\<open>Bounds and fuel.\<close>  \<open>get_connection\<close> and \<open>get_url_no\<close> contain loops that need not end and take fuel;
  \<open>get_connection_serves\<close> and the lemmas of SqlOps prove that two rounds are enough when the server answers
  and the pool is not exhausted, and that no fuel is enough when it is.  All other loops are total functions
  with their measures.  The theorems on MD5 are for inputs shorter than \<open>2 ^ 32 - 64\<close> bytes, beyond which an
  index of the code wraps.  The sizes of the shared memory are those of \<open>shmctrl.h\<close> and \<open>values.h\<close>.

  \<^bold>\<open>Parameters.\<close>  What is not code of the repository is an argument: the MariaDB server (a function from its
  state and the query text to a reply), the parser Gumbo (its tree), DNS and sockets (the answer to a
  request), \<open>iconv\<close>, the Redis server,
  the answers of system calls, \<open>double\<close> arithmetic (an ordered type with the operations used; optimality needs addition to be
  monotone), \<open>partial_sort\<close>, \<open>vsnprintf\<close>, the file system (a map from names to contents), the contents of fresh memory
  and the iteration order of hash tables (a list of the keys).

  \<^bold>\<open>Not modelled.\<close>  Console output and \<open>syslog\<close> everywhere; the delivery of signals to the master;
  \<open>monitor.cc\<close>, which only prints; the stub in \<open>spider_multithr\<close>; the abstract classes of \<open>interface\<close>, whose
  implementations are modelled; logging, scoped locks and terminal colours in \<open>limonp\<close>; the tests, the manager's
  \<open>main\<close>, which passes its arguments on, and the files CMake generates.
\<close>

section \<open>From the page to the search\<close>

text \<open>\<open>Jieba::CutForSearch\<close> as both strategies call it: the vector they read afterwards.\<close>

definition jieba_words :: "('w::linorder) segmenter \<Rightarrow> jieba_segs \<Rightarrow> string \<Rightarrow> string list" where
  "jieba_words g j s = (case cut_for_search g j s True of None \<Rightarrow> [] | Some ws \<Rightarrow> ws)"

lemma get_word_substr: "\<exists>a n. word (get_word s rs r) = substr s a n"
  by (cases r) (simp add: get_word_def Let_def, blast)

lemma cut_word_substr: "cut_words seg syms s = Some ws \<Longrightarrow> w \<in> set ws \<Longrightarrow> \<exists>a n. word w = substr s a n"
  using get_word_substr by (auto simp: cut_words_def get_words_def Let_def)

lemma jieba_words_substr: "w \<in> set (jieba_words g j s) \<Longrightarrow> \<exists>a n. w = substr s a n"
  by (cases "cut_words (query_ranges g True) (query_symbols j) s")
    (auto simp: jieba_words_def cut_for_search_def strings_of_def intro: cut_word_substr)

lemma cut_for_search_returns:
  assumes "decode_runes s = (rs, True)" "trie_ok (seg_trie g)"
  shows "\<exists>ws. cut_for_search g j s hmm = Some ws"
  using mix_segment_covers[OF assms, of hmm "query_symbols j"] query_words[of g hmm "query_symbols j" s]
  by (auto simp: cut_for_search_def)

lemma loaded_trie_ok:
  "init_dict ops junk files dict_path user_paths opt = Some d \<Longrightarrow>
     trie_ok (seg_trie (segmenter_of ops model (add_words_to ops junk' added d)))"
  by (simp add: segmenter_of_def dict_units_ok add_words_ok init_ok)

lemma search_word_on_page:
  assumes "\<forall>e \<in> set (jcut s). set e \<subseteq> set s" "\<forall>c \<in> set s. c \<notin> {CHR '' '', CR, NL, TAB}" "w \<in> set (search_words jcut s)"
  shows "w \<in> set (page_words jcut s)"
proof -
  obtain e where e: "w = crypt e" "e \<in> set (jcut s)" "e \<noteq> []" "length e \<le> WORD_SIZE"
    using assms(3) by (auto simp: search_words_def)
  have "filter (\<lambda>c. c \<noteq> CHR '' '' \<and> c \<noteq> CR \<and> c \<noteq> NL \<and> c \<noteq> TAB) e = e"
    using assms(1,2) e(2) by (intro filter_True) blast
  moreover have "length (crypt e) \<le> DB_DICTIONARY_WORD_SIZE"
    using sql.enc_length[of e] e(4) by (simp add: WORD_SIZE_def DB_DICTIONARY_WORD_SIZE_def)
  ultimately show ?thesis using e crypt_nonempty[of e] by (force simp: page_words_def)
qed

lemma add_words_enters: "w \<in> set ws \<or> m w \<noteq> None \<Longrightarrow> add_words k ws m w \<noteq> None"
  unfolding add_words_def
proof (induction ws arbitrary: m)
  case (Cons a ws)
  have "w \<in> set ws \<or> (m(a \<mapsto> (case m a of None \<Rightarrow> 0 | Some x \<Rightarrow> x) + k)) w \<noteq> None"
    using Cons.prems by auto
  then show ?case using Cons.IH[where m = "m(a \<mapsto> (case m a of None \<Rightarrow> 0 | Some x \<Rightarrow> x) + k)"] by simp
qed simp

lemma substr_set: "set (substr s a n) \<subseteq> set s"
  by (auto simp: substr_def dest: in_set_takeD in_set_dropD)



section \<open>A sentence that is cut inside a letter\<close>

lemma decode_rune_short:
  "128 \<le> code c \<Longrightarrow> length s < (if code c \<le> 0xdf then 1 else if code c \<le> 0xef then 2 else 3) \<Longrightarrow>
     snd (decode_rune (c # s)) = 0"
  by (auto simp: decode_rune_def byte_high byte_le split: if_splits)

lemma utf8_prefix_undecodable:
  assumes "n < 2 ^ 21" "0 < k" "k < length (utf8 n)"
  shows "snd (decode_rune (take k (utf8 n))) = 0"
proof -
  obtain i where k: "k = Suc i" using assms(2) by (cases k) auto
  consider "n < 0x80" | "0x80 \<le> n" "n < 0x800" | "0x800 \<le> n" "n < 0x10000" | "0x10000 \<le> n" by linarith
  then show ?thesis
  proof cases
    case 1
    then show ?thesis using assms(2,3) by (simp add: utf8_def)
  next
    case 2
    then have "n div 64 < 32" by (simp add: div_less_iff_less_mult)
    then show ?thesis using 2 assms(3) unfolding k by (simp add: utf8_def decode_rune_short)
  next
    case 3
    then have "n div 4096 < 16" by (simp add: div_less_iff_less_mult)
    then show ?thesis using 3 assms(3) unfolding k by (simp add: utf8_def decode_rune_short)
  next
    case 4
    have "n div 262144 < 8" using assms(1) by (simp add: div_less_iff_less_mult)
    then show ?thesis using 4 assms(3) unfolding k by (simp add: utf8_def decode_rune_short)
  qed
qed

lemma decode_from_cut_letter:
  assumes "\<forall>m \<in> set ns. m < 2 ^ 21" "n < 2 ^ 21" "0 < k" "k < length (utf8 n)"
  shows "decode_from (pre @ concat (map utf8 ns) @ take k (utf8 n)) (length pre) j = None"
  using assms(1)
proof (induction ns arbitrary: pre j)
  case Nil
  show ?case using utf8_prefix_undecodable[OF assms(2-4)] assms(3,4)
    by (subst decode_from.simps) (simp add: case_prod_unfold)
next
  case (Cons m ns)
  have "decode_rune (utf8 m @ concat (map utf8 ns) @ take k (utf8 n)) = (of_nat m, length (utf8 m))"
    using Cons.prems by (intro decode_rune_utf8) simp
  moreover have "length (utf8 m) \<noteq> 0" by (simp add: utf8_def)
  ultimately show ?case
    using Cons.IH[of "pre @ utf8 m" "Suc j"] Cons.prems by (subst decode_from.simps) simp
qed

text \<open>
  C33. \<open>handle\<close> shortens the sentence to ninety bytes, not letters.  When byte ninety is inside a letter, the
  rest of that letter cannot be decoded and the segmenter drops the whole sentence: the search sends no
  query and reports no results, for every server, dictionary and page.
\<close>

theorem cut_letter_finds_nothing:
  assumes "\<forall>m \<in> set ns. m < 2 ^ 21" "n < 2 ^ 21" "hash {} = []"
    and "length (concat (map utf8 ns)) < 90" "90 < length (concat (map utf8 ns) @ utf8 n)"
  shows "\<exists>s'. run_state (handle (jieba_words g j) db max_insert hash (concat (map utf8 (ns @ n # rest))) result p r stop) s =
    (Found (-1) (-1) result, s') \<and> sent s' = sent s"
proof -
  let ?a = "concat (map utf8 ns)" and ?s = "concat (map utf8 (ns @ n # rest))"
  let ?k = "90 - length ?a"
  have cut: "substr ?s 0 MAX_SEARCH_SENTENCE_SIZE = ?a @ take ?k (utf8 n)"
    using assms(4,5) by (simp add: substr_def MAX_SEARCH_SENTENCE_SIZE_def)
  have "decode_from (?a @ take ?k (utf8 n)) 0 0 = None"
    using decode_from_cut_letter[OF assms(1,2), of ?k "[]" 0] assms(4,5) by simp
  then have "decode_runes (?a @ take ?k (utf8 n)) = ([], False)" by (simp add: decode_runes_def)
  then have none: "jieba_words g j (substr ?s 0 MAX_SEARCH_SENTENCE_SIZE) = []"
    unfolding cut by (simp add: jieba_words_def cut_for_search_def cut_words_undecodable strings_of_def)
  have ne: "?s \<noteq> []" by (simp add: utf8_def)
  have none': "search_words (jieba_words g j) (substr ?s 0 MAX_SEARCH_SENTENCE_SIZE) = []"
    unfolding search_words_def none by simp
  show ?thesis
    unfolding handle_def Let_def none' if_not_P[OF ne]
    by (simp add: batches_def answer_page_def assms(3) get_db_def recycle_db_def)
qed

text \<open>Eighty-nine letters and then one of three bytes.\<close>

theorem cut_letter_finds_nothing_witness:
  "\<exists>s'. run_state (handle (jieba_words small_segmenter (jieba_reset_separators special_separators)) empty_server 3145728
      (\<lambda>_. []) (concat (map utf8 (replicate 89 97 @ 0x4e2d # [98]))) [] 1 10 False)
      \<lparr>server = (), taken = 0, peak = 0, sent = []\<rparr> = (Found (-1) (-1) [], s') \<and> sent s' = []"
proof -
  have u: "length (utf8 97) = 1" "length (utf8 0x4e2d) = 3" by (simp_all add: utf8_def)
  have l: "length (concat (map utf8 (replicate k 97))) = k" for k
    by (induction k) (simp_all add: u)
  have "\<forall>m \<in> set (replicate 89 97). m < (2::nat) ^ 21" by (simp only: set_replicate) simp
  from cut_letter_finds_nothing[OF this, of "0x4e2d" "\<lambda>_. []" small_segmenter
      "jieba_reset_separators special_separators" empty_server 3145728 "[98]" "[]" 1 10 False
      "\<lparr>server = (), taken = 0, peak = 0, sent = []\<rparr>"]
  moreover have "length (concat (map utf8 (replicate 89 97)) @ utf8 0x4e2d) = 92"
    unfolding length_append l u by simp
  ultimately show ?thesis unfolding l by simp
qed

section \<open>Ending and starting again\<close>

text \<open>The server has nothing on an address: it was not visited and nobody rated it.\<close>

definition unknown_to :: "'d database \<Rightarrow> string \<Rightarrow> bool" where
  "unknown_to db u \<longleftrightarrow> (\<forall>d. \<not> has_rows (fst (db d (exist_query ''url'' ''amigao.visited_url'' ''url'' (crypt u)))) \<and>
     \<not> has_rows (fst (db d (exist_query ''nice'' ''amigao.website_nice'' ''url'' (crypt u)))))"

lemma url_contents_seen: "u \<in> set (url_contents r) \<Longrightarrow> url_seen u = u \<and> length u \<le> URL_SIZE"
proof -
  assume "u \<in> set (url_contents r)"
  then obtain cell where c: "u = takeWhile (\<lambda>c. c \<noteq> NUL) (take URL_SIZE cell)"
    by (auto simp: url_contents_def read_chars_def c_str_def)
  then have l: "length u \<le> URL_SIZE" by (auto intro: order_trans[OF length_takeWhile_le])
  then show ?thesis unfolding url_seen_def c_str_def by (simp add: c)
qed

lemma load_unknown:
  assumes "unknown_to (env_db e) u" "u \<noteq> []" "length u \<le> URL_SIZE" "format_url u = Some u" "\<not> ring_full r"
  shows "\<exists>s'. run_state (load_start_urls e (u # lines) r) s =
    run_state (load_start_urls e lines (ring_store (write_url_cell u) r)) s'"
proof -
  let ?q = "exist_query ''url'' ''amigao.visited_url'' ''url'' (crypt u)"
  have "\<not> has_rows (fst (env_db e (server s) ?q))" using assms(1) by (simp add: unknown_to_def)
  then obtain s1 where s1: "run_state (if_exist (env_db e) ''url'' ''amigao.visited_url'' ''url'' (crypt u)) s = (False, s1)"
    by (cases "env_db e (server s) ?q") (simp add: run_if_exist)
  let ?n = "exist_query ''nice'' ''amigao.website_nice'' ''url'' (crypt u)"
  have "\<not> has_rows (fst (env_db e (server s1) ?n))" using assms(1) by (simp add: unknown_to_def)
  then obtain s2 where "run_state (if_exist (env_db e) ''nice'' ''amigao.website_nice'' ''url'' (crypt u)) s1 = (False, s2)"
    by (cases "env_db e (server s1) ?n") (simp add: run_if_exist)
  then have "run_state (get_website_nice (env_junk e) (env_db e) u) s1 = (10, s2)"
    using assms(2,3) by (simp add: get_website_nice_def url_bad_def)
  then show ?thesis using s1 assms(2,4,5) by (intro exI[of _ s2]) simp
qed

lemma load_unknown_all:
  "ring_ok URL_SIZE r \<Longrightarrow> length (url_contents r) + length us \<le> ring_capacity r \<Longrightarrow>
   \<forall>u \<in> set us. unknown_to (env_db e) u \<and> u \<noteq> [] \<and> length u \<le> URL_SIZE \<and> url_seen u = u \<and> format_url u = Some u \<Longrightarrow>
     \<exists>r' s'. run_state (load_start_urls e us r) s = (Some r', s') \<and> url_contents r' = url_contents r @ us"
proof (induction us arbitrary: r s)
  case (Cons u us)
  have nf: "\<not> ring_full r" using url.full_contents[OF Cons.prems(1)] Cons.prems(2) by simp
  obtain s1 where s1: "run_state (load_start_urls e (u # us) r) s =
      run_state (load_start_urls e us (ring_store (write_url_cell u) r)) s1"
    using load_unknown[of e u r us s] Cons.prems(3) nf by auto
  have c: "url_contents (ring_store (write_url_cell u) r) = url_contents r @ [u]"
    using url.put_contents[OF Cons.prems(1) nf, of u] Cons.prems(3) by simp
  show ?case
    using Cons.IH[OF url.put_good[OF Cons.prems(1)], of u s1] Cons.prems(2,3) c url.put_capacity[of u r] s1 by auto
qed simp


definition two_urls :: spider where
  "two_urls = fst (publish [''a.com'', ''b.org''] start_spider)"


end
